theory Spec2Isabelle
  imports Main "HOL-Library.Multiset"
begin

section \<open>Channels, goroutines and the scheduler\<close>

text \<open>
  The package is a set of Go functions that each create channels, start goroutines and
  return. A channel reference is an address in a store of channels; \<open>None\<close> is the nil
  channel. A channel carries values of the element type or, for the stream of streams
  that \<open>Bridge\<close> reads, channel references.
\<close>

type_synonym chan = "nat option"

datatype 'a val = Val 'a | Chan chan

record 'a channel =
  buf :: "'a val list"
  cap :: nat
  closed :: bool

text \<open>
  A goroutine is its parameters and local variables together with the place in its body
  where it currently waits. The places of each body are listed in source order.
\<close>

datatype 'a take_pc = Take_for int | Take_select int "'a val" | Take_return

datatype 'a repeat_pc = Repeat_for | Repeat_select nat | Repeat_return

datatype 'a confine_pc = Confine_range nat | Confine_do nat | Confine_send nat "'a val"

datatype 'a drain_pc = Drain_range | Drain_select "'a val" | Drain_return

datatype closer_pc = Closer_wait | Closer_close

datatype 'a ordone_pc = OrDone_select | OrDone_forward "'a val" | OrDone_return

datatype 'a tee_pc = Tee_call | Tee_range chan | Tee_select chan "'a val" nat chan chan
  | Tee_close_right | Tee_close_left

datatype 'a bridge_pc = Bridge_select | Bridge_call chan | Bridge_range chan
  | Bridge_forward chan "'a val" | Bridge_return

datatype or_pc = Or_switch | Or_select chan | Or_return

datatype 'a streamer_pc = Streamer_make | Streamer_hand chan | Streamer_send chan "'a val list"

datatype call_event = Enter nat | Leave nat

datatype 'a task =
    Exited
  | Consume chan "'a val list"
  | Consumed chan "'a val list"
  | Await chan
  | Awoken
  | Produce chan "'a val list"
  | genVals_go chan "'a val list list" "chan option"
  | Streamer chan nat "'a val list list" "'a streamer_pc"
  | Confine_go "(unit \<Rightarrow> 'a) list" chan "'a confine_pc"
  | Repeat_go "'a val list" chan "'a repeat_pc"
  | Take_go chan chan int "'a val" "'a take_pc"
  | drain chan chan nat "'a drain_pc"
  | FanIn_go chan nat closer_pc
  | OrDone_go chan chan "'a ordone_pc"
  | Tee_go chan chan chan "'a tee_pc"
  | Bridge_go chan chan "'a bridge_pc"
  | Or_go "chan list" chan or_pc

record 'a state =
  heap :: "nat \<rightharpoonup> 'a channel"
  fresh :: nat
  pool :: "'a task list"
  cancelled :: bool
  wgs :: "int list"
  calls :: "call_event list"
  panicked :: bool

text \<open>
  What a goroutine can do at the place where it waits: the cases of its \<open>select\<close> (a
  plain receive or send is a \<open>select\<close> of one case), or a step of its own (\<open>Tau\<close>: a
  call, a \<open>close\<close>, a \<open>go\<close>, a turn of a loop).
\<close>

datatype 'a alt =
    Recv chan "'a val option \<Rightarrow> 'a task"
  | Send chan "'a val" "'a task"
  | CtxDone "'a task"
  | WgWait nat "'a task"
  | Tau "'a state \<Rightarrow> 'a task \<times> 'a state"

subsection \<open>The runtime's operations\<close>

definition panic :: "'a state \<Rightarrow> 'a state" where
  "panic s = s\<lparr>panicked := True\<rparr>"

definition make_chan :: "nat \<Rightarrow> 'a state \<Rightarrow> chan \<times> 'a state" where
  "make_chan n s =
     (Some (fresh s),
      s\<lparr>heap := (heap s)(fresh s \<mapsto> \<lparr>buf = [], cap = n, closed = False\<rparr>),
        fresh := Suc (fresh s)\<rparr>)"

definition close_chan :: "chan \<Rightarrow> 'a state \<Rightarrow> 'a state" where
  "close_chan c s =
     (case c of
        None \<Rightarrow> panic s
      | Some n \<Rightarrow>
          (case heap s n of
             None \<Rightarrow> panic s
           | Some ch \<Rightarrow>
               if closed ch then panic s
               else s\<lparr>heap := (heap s)(n \<mapsto> ch\<lparr>closed := True\<rparr>)\<rparr>))"

definition go :: "'a task \<Rightarrow> 'a state \<Rightarrow> 'a state" where
  "go t s = s\<lparr>pool := pool s @ [t]\<rparr>"

definition wg_new :: "int \<Rightarrow> 'a state \<Rightarrow> nat \<times> 'a state" where
  "wg_new n s = (length (wgs s), s\<lparr>wgs := wgs s @ [n]\<rparr>)"

definition wg_done :: "nat \<Rightarrow> 'a state \<Rightarrow> 'a state" where
  "wg_done w s =
     (if w < length (wgs s) \<and> 0 < wgs s ! w
      then s\<lparr>wgs := (wgs s)[w := wgs s ! w - 1]\<rparr>
      else panic s)"

subsection \<open>The functions of the package\<close>

text \<open>
  Each function allocates its channels, starts its goroutines and returns the channel.
  The context is the field \<open>cancelled\<close> of the state: \<open>ctx.Done()\<close> is ready when it is
  set. \<open>Take\<close> has one parameter more than the source: the zero value of the element type,
  which a receive from a closed channel yields.
\<close>

definition Confine :: "(unit \<Rightarrow> 'a) list \<Rightarrow> 'a state \<Rightarrow> chan \<times> 'a state" where
  "Confine fns s =
     (let (results, s1) = make_chan (length fns) s
      in (results, go (Confine_go fns results (Confine_range 0)) s1))"

definition Repeat :: "'a val list \<Rightarrow> 'a state \<Rightarrow> chan \<times> 'a state" where
  "Repeat values s =
     (let (stream, s1) = make_chan 0 s
      in (stream, go (Repeat_go values stream Repeat_for) s1))"

definition Take :: "chan \<Rightarrow> int \<Rightarrow> 'a val \<Rightarrow> 'a state \<Rightarrow> chan \<times> 'a state" where
  "Take stream num zero s =
     (let (taken, s1) = make_chan 0 s
      in (taken, go (Take_go stream taken num zero (Take_for 0)) s1))"

definition FanIn :: "chan list \<Rightarrow> 'a state \<Rightarrow> chan \<times> 'a state" where
  "FanIn channels s =
     (let (wg, s1) = wg_new (int (length channels)) s;
          (multiplexed, s2) = make_chan 0 s1;
          s3 = fold (\<lambda>c. go (drain c multiplexed wg Drain_range)) channels s2
      in (multiplexed, go (FanIn_go multiplexed wg Closer_wait) s3))"

definition OrDone :: "chan \<Rightarrow> 'a state \<Rightarrow> chan \<times> 'a state" where
  "OrDone c s =
     (let (values, s1) = make_chan 0 s
      in (values, go (OrDone_go c values OrDone_select) s1))"

definition Tee :: "chan \<Rightarrow> 'a state \<Rightarrow> (chan \<times> chan) \<times> 'a state" where
  "Tee inp s =
     (let (left, s1) = make_chan 0 s;
          (right, s2) = make_chan 0 s1
      in ((left, right), go (Tee_go inp left right Tee_call) s2))"

definition Bridge :: "chan \<Rightarrow> 'a state \<Rightarrow> chan \<times> 'a state" where
  "Bridge streams s =
     (let (values, s1) = make_chan 0 s
      in (values, go (Bridge_go streams values Bridge_select) s1))"

fun Or :: "chan list \<Rightarrow> 'a state \<Rightarrow> chan \<times> 'a state" where
  "Or [] s = (None, s)"
| "Or [c] s = (c, s)"
| "Or channels s =
     (let (orDone, s1) = make_chan 0 s
      in (orDone, go (Or_go channels orDone Or_switch) s1))"

subsection \<open>The callers' streams\<close>

text \<open>
  An input stream that carries the values \<open>xs\<close> and is already closed: what a producer
  leaves behind that has made a channel with room for \<open>xs\<close>, sent them and closed it
  (\<open>source\<close>). An input stream with a producer still at work: a channel of capacity \<open>k\<close>
  and a goroutine that sends \<open>xs\<close> into it one by one and then closes it (\<open>feed\<close> and
  \<open>Produce\<close>).
\<close>

definition source :: "'a val list \<Rightarrow> 'a state \<Rightarrow> chan \<times> 'a state" where
  "source xs s =
     (Some (fresh s),
      s\<lparr>heap := (heap s)(fresh s \<mapsto> \<lparr>buf = xs, cap = length xs, closed = True\<rparr>),
        fresh := Suc (fresh s)\<rparr>)"

definition feed :: "nat \<Rightarrow> 'a val list \<Rightarrow> 'a state \<Rightarrow> chan \<times> 'a state" where
  "feed k xs s =
     (let (c, s1) = make_chan k s
      in (c, go (Produce c xs) s1))"

subsection \<open>The bodies of the goroutines\<close>

text \<open>
  The goroutines of the callers come first: the readers (\<open>Consume\<close>, \<open>Await\<close>), the producer
  of a stream (\<open>Produce\<close>), the producer of \<open>examples/bridge/main.go\<close> (\<open>genVals_go\<close>: every
  inner stream is made, filled and closed before it is sent on the outer stream; until
  then no other goroutine knows it, so the three are one step), and a producer of a
  stream of streams that sends each inner stream on the outer stream first and feeds it
  afterwards (\<open>Streamer\<close>).
\<close>

fun chan_of :: "'a val \<Rightarrow> chan" where
  "chan_of (Chan c) = c"
| "chan_of (Val _) = None"

fun prog :: "'a task \<Rightarrow> 'a alt list" where
  "prog Exited = []"
| "prog (Consume c seen) =
     [Recv c (\<lambda>r. case r of None \<Rightarrow> Consumed c seen | Some v \<Rightarrow> Consume c (seen @ [v]))]"
| "prog (Consumed c seen) = []"
| "prog (Await c) = [Recv c (\<lambda>r. Awoken)]"
| "prog Awoken = []"
| "prog (Produce c []) = [Tau (\<lambda>s. (Exited, close_chan c s))]"
| "prog (Produce c (x # xs)) = [Send c x (Produce c xs)]"
| "prog (genVals_go chanStream [] None) = [Tau (\<lambda>s. (Exited, close_chan chanStream s))]"
| "prog (genVals_go chanStream (xs # items) None) =
     [Tau (\<lambda>s. let (stream, s1) = source xs s
                in (genVals_go chanStream items (Some stream), s1))]"
| "prog (genVals_go chanStream items (Some stream)) =
     [Send chanStream (Chan stream) (genVals_go chanStream items None)]"
| "prog (Streamer chanStream k [] Streamer_make) =
     [Tau (\<lambda>s. (Exited, close_chan chanStream s))]"
| "prog (Streamer chanStream k (xs # xss) Streamer_make) =
     [Tau (\<lambda>s. let (stream, s1) = make_chan k s
                in (Streamer chanStream k (xs # xss) (Streamer_hand stream), s1))]"
| "prog (Streamer chanStream k [] (Streamer_hand stream)) = []"
| "prog (Streamer chanStream k (xs # xss) (Streamer_hand stream)) =
     [Send chanStream (Chan stream) (Streamer chanStream k xss (Streamer_send stream xs))]"
| "prog (Streamer chanStream k xss (Streamer_send stream [])) =
     [Tau (\<lambda>s. (Streamer chanStream k xss Streamer_make, close_chan stream s))]"
| "prog (Streamer chanStream k xss (Streamer_send stream (x # xs))) =
     [Send stream x (Streamer chanStream k xss (Streamer_send stream xs))]"
| "prog (Confine_go fns results (Confine_range k)) =
     (if k < length fns
      then [Tau (\<lambda>s. (Confine_go fns results (Confine_do k), s\<lparr>calls := calls s @ [Enter k]\<rparr>))]
      else [Tau (\<lambda>s. (Exited, close_chan results s))])"
| "prog (Confine_go fns results (Confine_do k)) =
     [Tau (\<lambda>s. (Confine_go fns results (Confine_send k (Val ((fns ! k) ()))),
                 s\<lparr>calls := calls s @ [Leave k]\<rparr>))]"
| "prog (Confine_go fns results (Confine_send k v)) =
     [Send results v (Confine_go fns results (Confine_range (Suc k)))]"
| "prog (Repeat_go values stream Repeat_for) =
     [Tau (\<lambda>s. (Repeat_go values stream (if values = [] then Repeat_for else Repeat_select 0), s))]"
| "prog (Repeat_go values stream (Repeat_select k)) =
     [CtxDone (Repeat_go values stream Repeat_return),
      Send stream (values ! k)
        (Repeat_go values stream
           (if Suc k < length values then Repeat_select (Suc k) else Repeat_for))]"
| "prog (Repeat_go values stream Repeat_return) =
     [Tau (\<lambda>s. (Exited, close_chan stream s))]"
| "prog (Take_go stream taken num zero (Take_for i)) =
     (if i < num
      then [Recv stream (\<lambda>r. Take_go stream taken num zero
                                (Take_select i (case r of None \<Rightarrow> zero | Some v \<Rightarrow> v)))]
      else [Tau (\<lambda>s. (Exited, close_chan taken s))])"
| "prog (Take_go stream taken num zero (Take_select i v)) =
     [CtxDone (Take_go stream taken num zero Take_return),
      Send taken v (Take_go stream taken num zero (Take_for (i + 1)))]"
| "prog (Take_go stream taken num zero Take_return) =
     [Tau (\<lambda>s. (Exited, close_chan taken s))]"
| "prog (drain c multiplexed wg Drain_range) =
     [Recv c (\<lambda>r. drain c multiplexed wg
                     (case r of None \<Rightarrow> Drain_return | Some v \<Rightarrow> Drain_select v))]"
| "prog (drain c multiplexed wg (Drain_select v)) =
     [CtxDone (drain c multiplexed wg Drain_return),
      Send multiplexed v (drain c multiplexed wg Drain_range)]"
| "prog (drain c multiplexed wg Drain_return) =
     [Tau (\<lambda>s. (Exited, wg_done wg s))]"
| "prog (FanIn_go multiplexed wg Closer_wait) =
     [WgWait wg (FanIn_go multiplexed wg Closer_close)]"
| "prog (FanIn_go multiplexed wg Closer_close) =
     [Tau (\<lambda>s. (Exited, close_chan multiplexed s))]"
| "prog (OrDone_go c values OrDone_select) =
     [CtxDone (OrDone_go c values OrDone_return),
      Recv c (\<lambda>r. OrDone_go c values
                     (case r of None \<Rightarrow> OrDone_return | Some v \<Rightarrow> OrDone_forward v))]"
| "prog (OrDone_go c values (OrDone_forward v)) =
     [Send values v (OrDone_go c values OrDone_select),
      CtxDone (OrDone_go c values OrDone_select)]"
| "prog (OrDone_go c values OrDone_return) =
     [Tau (\<lambda>s. (Exited, close_chan values s))]"
| "prog (Tee_go inp left right Tee_call) =
     [Tau (\<lambda>s. let (vs, s1) = OrDone inp s in (Tee_go inp left right (Tee_range vs), s1))]"
| "prog (Tee_go inp left right (Tee_range vs)) =
     [Recv vs (\<lambda>r. Tee_go inp left right
                      (case r of None \<Rightarrow> Tee_close_right
                       | Some v \<Rightarrow> Tee_select vs v 0 left right))]"
| "prog (Tee_go inp left right (Tee_select vs v i out1 out2)) =
     (let after = (\<lambda>o1 o2. Tee_go inp left right
                     (if i + 1 < 2 then Tee_select vs v (i + 1) o1 o2 else Tee_range vs))
      in [CtxDone (after out1 out2),
          Send out1 v (after None out2),
          Send out2 v (after out1 None)])"
| "prog (Tee_go inp left right Tee_close_right) =
     [Tau (\<lambda>s. (Tee_go inp left right Tee_close_left, close_chan right s))]"
| "prog (Tee_go inp left right Tee_close_left) =
     [Tau (\<lambda>s. (Exited, close_chan left s))]"
| "prog (Bridge_go streams values Bridge_select) =
     [Recv streams (\<lambda>r. Bridge_go streams values
                           (case r of None \<Rightarrow> Bridge_return
                            | Some maybe \<Rightarrow> Bridge_call (chan_of maybe))),
      CtxDone (Bridge_go streams values Bridge_return)]"
| "prog (Bridge_go streams values (Bridge_call stream)) =
     [Tau (\<lambda>s. let (vs, s1) = OrDone stream s
                in (Bridge_go streams values (Bridge_range vs), s1))]"
| "prog (Bridge_go streams values (Bridge_range vs)) =
     [Recv vs (\<lambda>r. Bridge_go streams values
                      (case r of None \<Rightarrow> Bridge_select | Some v \<Rightarrow> Bridge_forward vs v))]"
| "prog (Bridge_go streams values (Bridge_forward vs v)) =
     [Send values v (Bridge_go streams values (Bridge_range vs)),
      CtxDone (Bridge_go streams values (Bridge_range vs))]"
| "prog (Bridge_go streams values Bridge_return) =
     [Tau (\<lambda>s. (Exited, close_chan values s))]"
| "prog (Or_go channels orDone Or_switch) =
     (case channels of
        [c0, c1] \<Rightarrow>
          [Recv c0 (\<lambda>r. Or_go channels orDone Or_return),
           Recv c1 (\<lambda>r. Or_go channels orDone Or_return)]
      | c0 # c1 # c2 # rest \<Rightarrow>
          [Tau (\<lambda>s. let (c, s1) = Or (rest @ [orDone]) s
                     in (Or_go channels orDone (Or_select c), s1))]
      | _ \<Rightarrow> [])"
| "prog (Or_go channels orDone (Or_select c)) =
     [Recv (channels ! 0) (\<lambda>r. Or_go channels orDone Or_return),
      Recv (channels ! 1) (\<lambda>r. Or_go channels orDone Or_return),
      Recv (channels ! 2) (\<lambda>r. Or_go channels orDone Or_return),
      Recv c (\<lambda>r. Or_go channels orDone Or_return)]"
| "prog (Or_go channels orDone Or_return) =
     [Tau (\<lambda>s. (Exited, close_chan orDone s))]"

subsection \<open>The scheduler\<close>

text \<open>
  One step of the program is one goroutine taking a case that is ready, or a sender
  and a receiver meeting on a channel whose buffer is empty. A goroutine that has
  returned leaves the pool. A send on a closed channel and a second \<open>close\<close> panic, and a
  program that has panicked takes no further step.
\<close>

fun exited :: "'a task \<Rightarrow> bool" where
  "exited Exited = True"
| "exited _ = False"

definition put :: "nat \<Rightarrow> 'a task \<Rightarrow> 'a state \<Rightarrow> 'a state" where
  "put i t s = s\<lparr>pool := (pool s)[i := t]\<rparr>"

definition reap :: "'a state \<Rightarrow> 'a state" where
  "reap s = s\<lparr>pool := filter (\<lambda>t. \<not> exited t) (pool s)\<rparr>"

fun solo :: "'a state \<Rightarrow> nat \<Rightarrow> 'a alt \<Rightarrow> 'a state list" where
  "solo s i (Tau f) = (case f s of (t, s1) \<Rightarrow> [put i t s1])"
| "solo s i (CtxDone t) = (if cancelled s then [put i t s] else [])"
| "solo s i (WgWait w t) =
     (if w < length (wgs s) \<and> wgs s ! w = 0 then [put i t s] else [])"
| "solo s i (Recv c k) =
     (case c of
        None \<Rightarrow> []
      | Some n \<Rightarrow>
          (case heap s n of
             None \<Rightarrow> []
           | Some ch \<Rightarrow>
               (case buf ch of
                  v # vs \<Rightarrow> [put i (k (Some v)) (s\<lparr>heap := (heap s)(n \<mapsto> ch\<lparr>buf := vs\<rparr>)\<rparr>)]
                | [] \<Rightarrow> if closed ch then [put i (k None) s] else [])))"
| "solo s i (Send c v t) =
     (case c of
        None \<Rightarrow> []
      | Some n \<Rightarrow>
          (case heap s n of
             None \<Rightarrow> []
           | Some ch \<Rightarrow>
               if closed ch then [panic s]
               else if length (buf ch) < cap ch
               then [put i t (s\<lparr>heap := (heap s)(n \<mapsto> ch\<lparr>buf := buf ch @ [v]\<rparr>)\<rparr>)]
               else []))"

fun sync :: "'a state \<Rightarrow> nat \<Rightarrow> nat \<Rightarrow> 'a alt \<Rightarrow> 'a alt \<Rightarrow> 'a state list" where
  "sync s i j (Send c v t) (Recv c' k) =
     (case c of
        None \<Rightarrow> []
      | Some n \<Rightarrow>
          (case heap s n of
             None \<Rightarrow> []
           | Some ch \<Rightarrow>
               if c' = c \<and> i \<noteq> j \<and> \<not> closed ch \<and> buf ch = []
               then [put j (k (Some v)) (put i t s)]
               else []))"
| "sync s i j _ _ = []"

definition solos :: "'a state \<Rightarrow> 'a state list" where
  "solos s =
     concat (map (\<lambda>i. concat (map (solo s i) (prog (pool s ! i)))) [0..<length (pool s)])"

definition syncs :: "'a state \<Rightarrow> 'a state list" where
  "syncs s =
     concat (map (\<lambda>i. concat (map (\<lambda>j.
        concat (map (\<lambda>a. concat (map (sync s i j a) (prog (pool s ! j)))) (prog (pool s ! i))))
       [0..<length (pool s)])) [0..<length (pool s)])"

definition succs :: "'a state \<Rightarrow> 'a state list" where
  "succs s = (if panicked s then [] else map reap (solos s @ syncs s))"

text \<open>
  \<open>inevitably Q s\<close>: every run from \<open>s\<close> is finite, and the state it stops in (no
  goroutine can take a step) satisfies \<open>Q\<close>. \<open>reachable s s'\<close>: some run from \<open>s\<close> passes
  through \<open>s'\<close>; the caller may cancel the context at any moment.
\<close>

inductive inevitably :: "('a state \<Rightarrow> bool) \<Rightarrow> 'a state \<Rightarrow> bool" for Q where
  stops: "succs s = [] \<Longrightarrow> Q s \<Longrightarrow> inevitably Q s"
| steps: "succs s \<noteq> [] \<Longrightarrow> (\<And>s'. s' \<in> set (succs s) \<Longrightarrow> inevitably Q s') \<Longrightarrow> inevitably Q s"

definition cancel :: "'a state \<Rightarrow> 'a state" where
  "cancel s = s\<lparr>cancelled := True\<rparr>"

inductive reachable :: "'a state \<Rightarrow> 'a state \<Rightarrow> bool" for s where
  start: "reachable s s"
| step: "reachable s s1 \<Longrightarrow> s2 \<in> set (succs s1) \<Longrightarrow> reachable s s2"
| cancels: "reachable s s1 \<Longrightarrow> reachable s (cancel s1)"

definition boot :: "'a state" where
  "boot = \<lparr>heap = Map.empty, fresh = 0, pool = [], cancelled = False, wgs = [],
           calls = [], panicked = False\<rparr>"


section \<open>The callers and what they observe\<close>

text \<open>
  The caller of a function reads the returned stream with \<open>for v := range c\<close> until it is
  closed (\<open>Consume\<close>, then \<open>Consumed\<close> with all it has read).
\<close>

text \<open>
  \<open>delivered c xs s\<close>: the caller that ranged over \<open>c\<close> has received exactly \<open>xs\<close>, in
  this order, has then seen \<open>c\<close> closed, and nothing has panicked.
\<close>

definition delivered :: "chan \<Rightarrow> 'a val list \<Rightarrow> 'a state \<Rightarrow> bool" where
  "delivered c xs s \<longleftrightarrow> Consumed c xs \<in> set (pool s) \<and> \<not> panicked s"

definition is_closed :: "chan \<Rightarrow> 'a state \<Rightarrow> bool" where
  "is_closed c s \<longleftrightarrow> (case c of None \<Rightarrow> False
     | Some n \<Rightarrow> (case heap s n of None \<Rightarrow> False | Some ch \<Rightarrow> closed ch))"

text \<open>
  The programs of the callers. Each returns the channels it reads and the state in which
  the scheduler starts.
\<close>

definition Take_program :: "int \<Rightarrow> 'a val list \<Rightarrow> 'a val \<Rightarrow> chan \<times> 'a state" where
  "Take_program num xs zero =
     (let (stream, s1) = source xs boot;
          (taken, s2) = Take stream num zero s1
      in (taken, go (Consume taken []) s2))"

definition pipeline :: "'a val list \<Rightarrow> int \<Rightarrow> 'a val \<Rightarrow> chan \<times> 'a state" where
  "pipeline values num zero =
     (let (stream, s1) = Repeat values boot;
          (taken, s2) = Take stream num zero s1
      in (taken, go (Consume taken []) s2))"

definition Repeat_program :: "'a val list \<Rightarrow> bool \<Rightarrow> chan \<times> 'a state" where
  "Repeat_program values c =
     (let (stream, s1) = Repeat values (boot\<lparr>cancelled := c\<rparr>)
      in (stream, go (Consume stream []) s1))"

definition Confine_program :: "(unit \<Rightarrow> 'a) list \<Rightarrow> chan \<times> 'a state" where
  "Confine_program fns =
     (let (results, s1) = Confine fns boot
      in (results, go (Consume results []) s1))"

text \<open>
  The example of \<open>examples/confine/main.go\<close>. Go's \<open>int\<close> has 64 bits and \<open>+\<close> wraps
  around: \<open>add\<close> is the sum brought back into the range from \<open>- 2 ^ 63\<close> to \<open>2 ^ 63 - 1\<close>.
\<close>

definition add :: "int \<Rightarrow> int \<Rightarrow> int" where
  "add a b = (a + b + 2 ^ 63) mod 2 ^ 64 - 2 ^ 63"

definition confine_example :: "chan \<times> int state" where
  "confine_example =
     Confine_program [\<lambda>_. add 2 3, \<lambda>_. add 4 5, \<lambda>_. add 6 7]"

text \<open>
  A caller of \<open>Bridge\<close> that has filled and closed all its streams before the call: the
  inner streams carry the lists of \<open>xss\<close>, and the outer stream carries the inner streams
  in this order.
\<close>

fun sources :: "'a val list list \<Rightarrow> 'a state \<Rightarrow> chan list \<times> 'a state" where
  "sources [] s = ([], s)"
| "sources (xs # xss) s =
     (let (c, s1) = source xs s; (cs, s2) = sources xss s1 in (c # cs, s2))"

definition Bridge_program :: "'a val list list \<Rightarrow> chan \<times> 'a state" where
  "Bridge_program xss =
     (let (cs, s1) = sources xss boot;
          (streams, s2) = source (map Chan cs) s1;
          (values, s3) = Bridge streams s2
      in (values, go (Consume values []) s3))"

text \<open>
  The program of \<open>examples/bridge/main.go\<close>: \<open>genVals\<close> makes the outer stream, a channel
  without buffer, and starts the goroutine that sends the inner streams on it while
  \<open>Bridge\<close> runs; every inner stream is a channel with room for its values, filled and
  closed before it is sent. In the example there are ten inner streams, of one value
  each, 0 to 9. \<open>Streamer_program\<close> is a caller whose inner streams are channels of
  capacity \<open>k\<close> that are fed after they have been sent on the outer stream.
\<close>

definition genVals :: "'a val list list \<Rightarrow> 'a state \<Rightarrow> chan \<times> 'a state" where
  "genVals items s =
     (let (chanStream, s1) = make_chan 0 s
      in (chanStream, go (genVals_go chanStream items None) s1))"

definition genVals_program :: "'a val list list \<Rightarrow> chan \<times> 'a state" where
  "genVals_program items =
     (let (chanStream, s1) = genVals items boot;
          (values, s2) = Bridge chanStream s1
      in (values, go (Consume values []) s2))"

definition bridge_example :: "chan \<times> int state" where
  "bridge_example = genVals_program (map (\<lambda>i. [Val (int i)]) [0..<10])"

definition Streamer_program :: "nat \<Rightarrow> 'a val list list \<Rightarrow> chan \<times> 'a state" where
  "Streamer_program k xss =
     (let (chanStream, s1) = make_chan 0 boot;
          s2 = go (Streamer chanStream k xss Streamer_make) s1;
          (values, s3) = Bridge chanStream s2
      in (values, go (Consume values []) s3))"

text \<open>
  The caller of \<open>Tee\<close>: the input is a channel of capacity \<open>k\<close> with a producer that sends
  \<open>xs\<close> and closes it while \<open>Tee\<close> runs, and both outputs are read, each in a goroutine of
  its own.
\<close>

definition Tee_program :: "nat \<Rightarrow> 'a val list \<Rightarrow> (chan \<times> chan) \<times> 'a state" where
  "Tee_program k xs =
     (let (inp, s1) = feed k xs boot;
          ((left, right), s2) = Tee inp s1
      in ((left, right), go (Consume right []) (go (Consume left []) s2)))"


section \<open>Invariants of the programs\<close>

text \<open>
  Each invariant lists the states a program passes through, with a rank that every step
  lowers. \<open>want\<close> is what the caller is to have received at the end.
\<close>

inductive Take_inv :: "int \<Rightarrow> 'a val \<Rightarrow> 'a val list \<Rightarrow> nat \<Rightarrow> 'a state \<Rightarrow> bool"
  for num z want where
  at_for: "\<not> cancelled s \<Longrightarrow> \<not> panicked s \<Longrightarrow>
     heap s 0 = Some \<lparr>buf = xs, cap = k, closed = True\<rparr> \<Longrightarrow>
     heap s 1 = Some \<lparr>buf = [], cap = 0, closed = False\<rparr> \<Longrightarrow>
     pool s = [Take_go (Some 0) (Some 1) num z (Take_for i), Consume (Some 1) out] \<Longrightarrow>
     want = out @ take (nat (num - i)) xs @ replicate (nat (num - i) - length xs) z \<Longrightarrow>
     Take_inv num z want (2 * nat (num - i) + 2) s"
| at_select: "\<not> cancelled s \<Longrightarrow> \<not> panicked s \<Longrightarrow>
     heap s 0 = Some \<lparr>buf = xs, cap = k, closed = True\<rparr> \<Longrightarrow>
     heap s 1 = Some \<lparr>buf = [], cap = 0, closed = False\<rparr> \<Longrightarrow>
     pool s = [Take_go (Some 0) (Some 1) num z (Take_select i v), Consume (Some 1) out] \<Longrightarrow>
     i < num \<Longrightarrow>
     want = out @ v # take (nat (num - (i + 1))) xs @ replicate (nat (num - (i + 1)) - length xs) z \<Longrightarrow>
     Take_inv num z want (2 * nat (num - i) + 1) s"
| closing: "\<not> cancelled s \<Longrightarrow> \<not> panicked s \<Longrightarrow>
     heap s 1 = Some \<lparr>buf = [], cap = 0, closed = True\<rparr> \<Longrightarrow>
     pool s = [Consume (Some 1) want] \<Longrightarrow>
     Take_inv num z want 1 s"
| finished: "\<not> panicked s \<Longrightarrow> pool s = [Consumed (Some 1) want] \<Longrightarrow> Take_inv num z want 0 s"

text \<open>
  The pipeline of the example: \<open>Take\<close> reading from \<open>Repeat\<close>. After \<open>p\<close> values sent,
  \<open>Repeat\<close> waits in its select at index \<open>p mod length values\<close>, or at the head of the outer
  loop when that index is 0. What the caller is to receive is \<open>cyclic values num\<close>.
\<close>

definition Repeat_at :: "'a val list \<Rightarrow> nat \<Rightarrow> 'a repeat_pc \<Rightarrow> bool" where
  "Repeat_at values p pc \<longleftrightarrow>
     pc = Repeat_select (p mod length values) \<or> (pc = Repeat_for \<and> p mod length values = 0)"

definition cyclic :: "'a list \<Rightarrow> nat \<Rightarrow> 'a list" where
  "cyclic values n = map (\<lambda>p. values ! (p mod length values)) [0..<n]"

fun spinning :: "'a repeat_pc \<Rightarrow> nat" where
  "spinning Repeat_for = 1"
| "spinning _ = 0"

inductive pipeline_inv :: "'a val list \<Rightarrow> int \<Rightarrow> 'a val \<Rightarrow> nat \<Rightarrow> 'a state \<Rightarrow> bool"
  for vs num z where
  taking: "\<not> cancelled s \<Longrightarrow> \<not> panicked s \<Longrightarrow>
     heap s 0 = Some \<lparr>buf = [], cap = 0, closed = False\<rparr> \<Longrightarrow>
     heap s 1 = Some \<lparr>buf = [], cap = 0, closed = False\<rparr> \<Longrightarrow>
     pool s = [Repeat_go vs (Some 0) rpc, Take_go (Some 0) (Some 1) num z (Take_for i),
               Consume (Some 1) (cyclic vs (nat i))] \<Longrightarrow>
     0 \<le> i \<Longrightarrow> nat i \<le> nat num \<Longrightarrow> Repeat_at vs (nat i) rpc \<Longrightarrow>
     pipeline_inv vs num z (3 * nat (num - i) + 3 + spinning rpc) s"
| sending: "\<not> cancelled s \<Longrightarrow> \<not> panicked s \<Longrightarrow>
     heap s 0 = Some \<lparr>buf = [], cap = 0, closed = False\<rparr> \<Longrightarrow>
     heap s 1 = Some \<lparr>buf = [], cap = 0, closed = False\<rparr> \<Longrightarrow>
     pool s = [Repeat_go vs (Some 0) rpc,
               Take_go (Some 0) (Some 1) num z (Take_select i (vs ! (nat i mod length vs))),
               Consume (Some 1) (cyclic vs (nat i))] \<Longrightarrow>
     0 \<le> i \<Longrightarrow> i < num \<Longrightarrow> Repeat_at vs (Suc (nat i)) rpc \<Longrightarrow>
     pipeline_inv vs num z (3 * nat (num - i) + 1 + spinning rpc) s"
| closing: "\<not> cancelled s \<Longrightarrow> \<not> panicked s \<Longrightarrow>
     heap s 0 = Some \<lparr>buf = [], cap = 0, closed = False\<rparr> \<Longrightarrow>
     heap s 1 = Some \<lparr>buf = [], cap = 0, closed = True\<rparr> \<Longrightarrow>
     pool s = [Repeat_go vs (Some 0) rpc, Consume (Some 1) (cyclic vs (nat num))] \<Longrightarrow>
     rpc \<noteq> Repeat_return \<Longrightarrow>
     pipeline_inv vs num z (2 + spinning rpc) s"
| finished: "\<not> cancelled s \<Longrightarrow> \<not> panicked s \<Longrightarrow>
     heap s 0 = Some \<lparr>buf = [], cap = 0, closed = False\<rparr> \<Longrightarrow>
     pool s = [Repeat_go vs (Some 0) rpc, Consumed (Some 1) (cyclic vs (nat num))] \<Longrightarrow>
     rpc \<noteq> Repeat_return \<Longrightarrow>
     pipeline_inv vs num z (spinning rpc) s"

text \<open>
  \<open>Confine\<close>: the results of the functions called so far are in the buffer of the channel
  or with the caller, and the log of calls is that of the functions called in turn.
\<close>

definition results_of :: "(unit \<Rightarrow> 'a) list \<Rightarrow> 'a val list" where
  "results_of fns = map (\<lambda>f. Val (f ())) fns"

definition in_turn :: "nat \<Rightarrow> call_event list" where
  "in_turn k = concat (map (\<lambda>j. [Enter j, Leave j]) [0..<k])"

inductive Confine_inv :: "(unit \<Rightarrow> 'a) list \<Rightarrow> nat \<Rightarrow> 'a state \<Rightarrow> bool" for fns where
  ranging: "\<not> cancelled s \<Longrightarrow> \<not> panicked s \<Longrightarrow>
     heap s 0 = Some \<lparr>buf = b, cap = length fns, closed = False\<rparr> \<Longrightarrow>
     pool s = [Confine_go fns (Some 0) (Confine_range k), Consume (Some 0) out] \<Longrightarrow>
     k \<le> length fns \<Longrightarrow> out @ b = results_of (take k fns) \<Longrightarrow> calls s = in_turn k \<Longrightarrow>
     Confine_inv fns (4 * (length fns - k) + 3 + length b) s"
| doing: "\<not> cancelled s \<Longrightarrow> \<not> panicked s \<Longrightarrow>
     heap s 0 = Some \<lparr>buf = b, cap = length fns, closed = False\<rparr> \<Longrightarrow>
     pool s = [Confine_go fns (Some 0) (Confine_do k), Consume (Some 0) out] \<Longrightarrow>
     k < length fns \<Longrightarrow> out @ b = results_of (take k fns) \<Longrightarrow>
     calls s = in_turn k @ [Enter k] \<Longrightarrow>
     Confine_inv fns (4 * (length fns - k) + 2 + length b) s"
| sending: "\<not> cancelled s \<Longrightarrow> \<not> panicked s \<Longrightarrow>
     heap s 0 = Some \<lparr>buf = b, cap = length fns, closed = False\<rparr> \<Longrightarrow>
     pool s = [Confine_go fns (Some 0) (Confine_send k (Val ((fns ! k) ()))), Consume (Some 0) out] \<Longrightarrow>
     k < length fns \<Longrightarrow> out @ b = results_of (take k fns) \<Longrightarrow>
     calls s = in_turn (Suc k) \<Longrightarrow>
     Confine_inv fns (4 * (length fns - k) + 1 + length b) s"
| draining: "\<not> cancelled s \<Longrightarrow> \<not> panicked s \<Longrightarrow>
     heap s 0 = Some \<lparr>buf = b, cap = length fns, closed = True\<rparr> \<Longrightarrow>
     pool s = [Consume (Some 0) out] \<Longrightarrow>
     out @ b = results_of fns \<Longrightarrow> calls s = in_turn (length fns) \<Longrightarrow>
     Confine_inv fns (length b + 1) s"
| finished: "\<not> panicked s \<Longrightarrow>
     pool s = [Consumed (Some 0) (results_of fns)] \<Longrightarrow> calls s = in_turn (length fns) \<Longrightarrow>
     Confine_inv fns 0 s"

text \<open>
  \<open>Bridge\<close>: the goroutine of \<open>OrDone\<close> that reads the inner stream \<open>j\<close> is described by the
  place where it waits, or \<open>None\<close> once it has returned. What the caller has received, what
  \<open>Bridge\<close> and \<open>OrDone\<close> hold in their hands and what is left in the inner stream make up
  the first \<open>j + 1\<close> lists of \<open>xss\<close>.
\<close>

definition todo :: "'a list list \<Rightarrow> nat \<Rightarrow> nat" where
  "todo xss j = sum_list (map (\<lambda>xs. 3 * length xs + 6) (drop j xss))"

fun od_pool :: "chan \<Rightarrow> chan \<Rightarrow> 'a ordone_pc option \<Rightarrow> 'a task list" where
  "od_pool c v None = []"
| "od_pool c v (Some pc) = [OrDone_go c v pc]"

fun od_rank :: "'a ordone_pc option \<Rightarrow> nat" where
  "od_rank None = 0"
| "od_rank (Some OrDone_select) = 2"
| "od_rank (Some (OrDone_forward y)) = 4"
| "od_rank (Some OrDone_return) = 1"

fun od_holds :: "'a ordone_pc option \<Rightarrow> 'a val list" where
  "od_holds (Some (OrDone_forward y)) = [y]"
| "od_holds _ = []"

fun od_drained :: "'a ordone_pc option \<Rightarrow> bool" where
  "od_drained None = True"
| "od_drained (Some OrDone_return) = True"
| "od_drained _ = False"

fun bridge_rank :: "'a bridge_pc \<Rightarrow> nat" where
  "bridge_rank (Bridge_forward v y) = 3"
| "bridge_rank _ = 2"

fun bridge_holds :: "'a bridge_pc \<Rightarrow> 'a val list" where
  "bridge_holds (Bridge_forward v y) = [y]"
| "bridge_holds _ = []"

fun bridge_reads :: "chan \<Rightarrow> 'a bridge_pc \<Rightarrow> bool" where
  "bridge_reads v (Bridge_range v') = (v' = v)"
| "bridge_reads v (Bridge_forward v' y) = (v' = v)"
| "bridge_reads v _ = False"

inductive Bridge_inv :: "'a val list list \<Rightarrow> nat \<Rightarrow> 'a state \<Rightarrow> bool" for xss where
  selecting: "\<not> cancelled s \<Longrightarrow> \<not> panicked s \<Longrightarrow> j \<le> length xss \<Longrightarrow>
     heap s (length xss) = Some \<lparr>buf = map (\<lambda>i. Chan (Some i)) [j..<length xss],
                                  cap = length xss, closed = True\<rparr> \<Longrightarrow>
     heap s (Suc (length xss)) = Some \<lparr>buf = [], cap = 0, closed = False\<rparr> \<Longrightarrow>
     (\<And>i. j \<le> i \<Longrightarrow> i < length xss \<Longrightarrow>
        heap s i = Some \<lparr>buf = xss ! i, cap = length (xss ! i), closed = True\<rparr>) \<Longrightarrow>
     fresh s = length xss + 2 + j \<Longrightarrow>
     pool s = [Bridge_go (Some (length xss)) (Some (Suc (length xss))) Bridge_select,
               Consume (Some (Suc (length xss))) (concat (take j xss))] \<Longrightarrow>
     Bridge_inv xss (todo xss j + 3) s"
| calling: "\<not> cancelled s \<Longrightarrow> \<not> panicked s \<Longrightarrow> j < length xss \<Longrightarrow>
     heap s (length xss) = Some \<lparr>buf = map (\<lambda>i. Chan (Some i)) [Suc j..<length xss],
                                  cap = length xss, closed = True\<rparr> \<Longrightarrow>
     heap s (Suc (length xss)) = Some \<lparr>buf = [], cap = 0, closed = False\<rparr> \<Longrightarrow>
     (\<And>i. j \<le> i \<Longrightarrow> i < length xss \<Longrightarrow>
        heap s i = Some \<lparr>buf = xss ! i, cap = length (xss ! i), closed = True\<rparr>) \<Longrightarrow>
     fresh s = length xss + 2 + j \<Longrightarrow>
     pool s = [Bridge_go (Some (length xss)) (Some (Suc (length xss))) (Bridge_call (Some j)),
               Consume (Some (Suc (length xss))) (concat (take j xss))] \<Longrightarrow>
     Bridge_inv xss (todo xss j + 2) s"
| draining: "\<not> cancelled s \<Longrightarrow> \<not> panicked s \<Longrightarrow> j < length xss \<Longrightarrow>
     heap s (length xss) = Some \<lparr>buf = map (\<lambda>i. Chan (Some i)) [Suc j..<length xss],
                                  cap = length xss, closed = True\<rparr> \<Longrightarrow>
     heap s (Suc (length xss)) = Some \<lparr>buf = [], cap = 0, closed = False\<rparr> \<Longrightarrow>
     heap s j = Some \<lparr>buf = ys, cap = length (xss ! j), closed = True\<rparr> \<Longrightarrow>
     heap s (length xss + 2 + j) = Some \<lparr>buf = [], cap = 0, closed = (od = None)\<rparr> \<Longrightarrow>
     (od_drained od \<Longrightarrow> ys = []) \<Longrightarrow>
     (\<And>i. j < i \<Longrightarrow> i < length xss \<Longrightarrow>
        heap s i = Some \<lparr>buf = xss ! i, cap = length (xss ! i), closed = True\<rparr>) \<Longrightarrow>
     fresh s = length xss + 3 + j \<Longrightarrow>
     pool s = [Bridge_go (Some (length xss)) (Some (Suc (length xss))) bpc,
               Consume (Some (Suc (length xss))) out]
              @ od_pool (Some j) (Some (length xss + 2 + j)) od \<Longrightarrow>
     bridge_reads (Some (length xss + 2 + j)) bpc \<Longrightarrow>
     out @ bridge_holds bpc @ od_holds od @ ys = concat (take (Suc j) xss) \<Longrightarrow>
     Bridge_inv xss (todo xss (Suc j) + 3 + 3 * length ys + bridge_rank bpc + od_rank od) s"
| returning: "\<not> cancelled s \<Longrightarrow> \<not> panicked s \<Longrightarrow>
     heap s (Suc (length xss)) = Some \<lparr>buf = [], cap = 0, closed = False\<rparr> \<Longrightarrow>
     pool s = [Bridge_go (Some (length xss)) (Some (Suc (length xss))) Bridge_return,
               Consume (Some (Suc (length xss))) (concat xss)] \<Longrightarrow>
     Bridge_inv xss 2 s"
| closing: "\<not> cancelled s \<Longrightarrow> \<not> panicked s \<Longrightarrow>
     heap s (Suc (length xss)) = Some \<lparr>buf = [], cap = 0, closed = True\<rparr> \<Longrightarrow>
     pool s = [Consume (Some (Suc (length xss))) (concat xss)] \<Longrightarrow>
     Bridge_inv xss 1 s"
| finished: "\<not> panicked s \<Longrightarrow>
     pool s = [Consumed (Some (Suc (length xss))) (concat xss)] \<Longrightarrow>
     Bridge_inv xss 0 s"

text \<open>
  \<open>Tee\<close>: the producer of the input is described by what it has still to send, or \<open>None\<close>
  once it has closed the input. What either caller has received, what \<open>Tee\<close> still owes it
  of the value in its hands, what \<open>OrDone\<close> holds, what waits in the buffer of the input
  and what the producer has still to send make up the input. At the end \<open>Tee\<close> closes the
  right output, then the left one, and either caller stops when it sees its stream closed.
\<close>

fun pr_pool :: "'a val list option \<Rightarrow> 'a task list" where
  "pr_pool None = []"
| "pr_pool (Some r) = [Produce (Some 0) r]"

fun pr_rest :: "'a val list option \<Rightarrow> 'a val list" where
  "pr_rest None = []"
| "pr_rest (Some r) = r"

fun pr_rank :: "'a val list option \<Rightarrow> nat" where
  "pr_rank None = 0"
| "pr_rank (Some []) = 1"
| "pr_rank (Some (x # r)) = 7 + 6 * length r"

fun tee_rank :: "'a tee_pc \<Rightarrow> nat" where
  "tee_rank (Tee_select vs v i out1 out2) = 3 - i"
| "tee_rank _ = 1"

fun tee_left :: "'a tee_pc \<Rightarrow> 'a val list" where
  "tee_left (Tee_select vs v i (Some c) out2) = [v]"
| "tee_left _ = []"

fun tee_right :: "'a tee_pc \<Rightarrow> 'a val list" where
  "tee_right (Tee_select vs v i out1 (Some c)) = [v]"
| "tee_right _ = []"

fun tee_reads :: "'a tee_pc \<Rightarrow> bool" where
  "tee_reads (Tee_range vs) = (vs = Some 3)"
| "tee_reads (Tee_select vs v i out1 out2) =
     (vs = Some 3 \<and>
      (i = 0 \<and> out1 = Some 1 \<and> out2 = Some 2 \<or>
       i = 1 \<and> out1 = None \<and> out2 = Some 2 \<or>
       i = 1 \<and> out1 = Some 1 \<and> out2 = None))"
| "tee_reads _ = False"

fun tee_closes :: "'a tee_pc option \<Rightarrow> 'a task list" where
  "tee_closes None = []"
| "tee_closes (Some pc) = [Tee_go (Some 0) (Some 1) (Some 2) pc]"

fun reader :: "chan \<Rightarrow> 'a val list \<Rightarrow> bool \<Rightarrow> 'a task" where
  "reader c xs True = Consumed c xs"
| "reader c xs False = Consume c xs"

inductive Tee_inv :: "nat \<Rightarrow> 'a val list \<Rightarrow> nat \<Rightarrow> 'a state \<Rightarrow> bool" for k xs where
  calling: "\<not> cancelled s \<Longrightarrow> \<not> panicked s \<Longrightarrow>
     heap s 0 = Some \<lparr>buf = b, cap = k, closed = (pr = None)\<rparr> \<Longrightarrow>
     heap s 1 = Some \<lparr>buf = [], cap = 0, closed = False\<rparr> \<Longrightarrow>
     heap s 2 = Some \<lparr>buf = [], cap = 0, closed = False\<rparr> \<Longrightarrow>
     fresh s = 3 \<Longrightarrow>
     pool s = pr_pool pr @ [Tee_go (Some 0) (Some 1) (Some 2) Tee_call,
               Consume (Some 1) [], Consume (Some 2) []] \<Longrightarrow>
     b @ pr_rest pr = xs \<Longrightarrow>
     Tee_inv k xs (pr_rank pr + 5 * length b + 10) s"
| teeing: "\<not> cancelled s \<Longrightarrow> \<not> panicked s \<Longrightarrow>
     heap s 0 = Some \<lparr>buf = b, cap = k, closed = (pr = None)\<rparr> \<Longrightarrow>
     heap s 1 = Some \<lparr>buf = [], cap = 0, closed = False\<rparr> \<Longrightarrow>
     heap s 2 = Some \<lparr>buf = [], cap = 0, closed = False\<rparr> \<Longrightarrow>
     heap s 3 = Some \<lparr>buf = [], cap = 0, closed = (od = None)\<rparr> \<Longrightarrow>
     (od_drained od \<Longrightarrow> b = []) \<Longrightarrow> (od_drained od \<Longrightarrow> pr = None) \<Longrightarrow>
     pool s = pr_pool pr @ [Tee_go (Some 0) (Some 1) (Some 2) tpc,
               Consume (Some 1) outl, Consume (Some 2) outr]
              @ od_pool (Some 0) (Some 3) od \<Longrightarrow>
     tee_reads tpc \<Longrightarrow>
     outl @ tee_left tpc @ od_holds od @ b @ pr_rest pr = xs \<Longrightarrow>
     outr @ tee_right tpc @ od_holds od @ b @ pr_rest pr = xs \<Longrightarrow>
     Tee_inv k xs (pr_rank pr + 5 * length b + 2 * od_rank od + tee_rank tpc + 4) s"
| closing: "\<not> cancelled s \<Longrightarrow> \<not> panicked s \<Longrightarrow>
     heap s 1 = Some \<lparr>buf = [], cap = 0, closed = (tpc = None)\<rparr> \<Longrightarrow>
     heap s 2 = Some \<lparr>buf = [], cap = 0, closed = (tpc \<noteq> Some Tee_close_right)\<rparr> \<Longrightarrow>
     tpc = None \<or> tpc = Some Tee_close_right \<or> tpc = Some Tee_close_left \<Longrightarrow>
     (l \<Longrightarrow> tpc = None) \<Longrightarrow> (r \<Longrightarrow> tpc \<noteq> Some Tee_close_right) \<Longrightarrow>
     pool s = tee_closes tpc @ [reader (Some 1) xs l, reader (Some 2) xs r] \<Longrightarrow>
     Tee_inv k xs (length (tee_closes tpc) + (if tpc = Some Tee_close_right then 1 else 0)
                 + (if l then 0 else 1) + (if r then 0 else 1)) s"

text \<open>
  \<open>Bridge\<close> with the producer of the example at work. The producer is about to make an
  inner stream (\<open>Gen_make\<close>, with the lists it has still to send), holds an inner stream
  that it has filled and closed (\<open>Gen_hand\<close>), or has closed the outer stream and returned
  (\<open>Gen_gone\<close>). Channels are made by the producer and by \<open>Bridge\<close> in an order that the
  scheduler decides, so the invariant names the inner stream being read (\<open>c\<close>) and the
  channel of \<open>OrDone\<close> (\<open>v\<close>) and says that they differ.
\<close>

datatype 'a gen = Gen_make "'a val list list" | Gen_hand nat "'a val list" "'a val list list"
  | Gen_gone

fun gen_pool :: "'a gen \<Rightarrow> 'a task list" where
  "gen_pool (Gen_make it) = [genVals_go (Some 0) it None]"
| "gen_pool (Gen_hand c xs it) = [genVals_go (Some 0) it (Some (Some c))]"
| "gen_pool Gen_gone = []"

fun gen_rest :: "'a gen \<Rightarrow> 'a val list" where
  "gen_rest (Gen_make it) = concat it"
| "gen_rest (Gen_hand c xs it) = xs @ concat it"
| "gen_rest Gen_gone = []"

fun gen_rank :: "'a gen \<Rightarrow> nat" where
  "gen_rank (Gen_make it) = sum_list (map (\<lambda>xs. 3 * length xs + 7) it) + 1"
| "gen_rank (Gen_hand c xs it) =
     3 * length xs + 6 + (sum_list (map (\<lambda>xs. 3 * length xs + 7) it) + 1)"
| "gen_rank Gen_gone = 0"

fun gen_ok :: "'a state \<Rightarrow> nat set \<Rightarrow> 'a gen \<Rightarrow> bool" where
  "gen_ok s A (Gen_make it) \<longleftrightarrow> heap s 0 = Some \<lparr>buf = [], cap = 0, closed = False\<rparr>"
| "gen_ok s A (Gen_hand c xs it) \<longleftrightarrow>
     heap s 0 = Some \<lparr>buf = [], cap = 0, closed = False\<rparr> \<and>
     heap s c = Some \<lparr>buf = xs, cap = length xs, closed = True\<rparr> \<and>
     1 < c \<and> c < fresh s \<and> c \<notin> A"
| "gen_ok s A Gen_gone \<longleftrightarrow> heap s 0 = Some \<lparr>buf = [], cap = 0, closed = True\<rparr>"

inductive genVals_inv :: "'a val list list \<Rightarrow> nat \<Rightarrow> 'a state \<Rightarrow> bool" for items where
  selecting: "\<not> cancelled s \<Longrightarrow> \<not> panicked s \<Longrightarrow>
     heap s 1 = Some \<lparr>buf = [], cap = 0, closed = False\<rparr> \<Longrightarrow>
     gen_ok s {} g \<Longrightarrow> 1 < fresh s \<Longrightarrow>
     pool s = gen_pool g @ [Bridge_go (Some 0) (Some 1) Bridge_select, Consume (Some 1) out] \<Longrightarrow>
     out @ gen_rest g = concat items \<Longrightarrow>
     genVals_inv items (gen_rank g + 3) s"
| calling: "\<not> cancelled s \<Longrightarrow> \<not> panicked s \<Longrightarrow>
     heap s 1 = Some \<lparr>buf = [], cap = 0, closed = False\<rparr> \<Longrightarrow>
     heap s c = Some \<lparr>buf = ys, cap = kc, closed = True\<rparr> \<Longrightarrow>
     1 < c \<Longrightarrow> c < fresh s \<Longrightarrow> gen_ok s {c} g \<Longrightarrow>
     pool s = gen_pool g @ [Bridge_go (Some 0) (Some 1) (Bridge_call (Some c)),
                            Consume (Some 1) out] \<Longrightarrow>
     out @ ys @ gen_rest g = concat items \<Longrightarrow>
     genVals_inv items (gen_rank g + 3 * length ys + 8) s"
| draining: "\<not> cancelled s \<Longrightarrow> \<not> panicked s \<Longrightarrow>
     heap s 1 = Some \<lparr>buf = [], cap = 0, closed = False\<rparr> \<Longrightarrow>
     heap s c = Some \<lparr>buf = ys, cap = kc, closed = True\<rparr> \<Longrightarrow>
     heap s v = Some \<lparr>buf = [], cap = 0, closed = (od = None)\<rparr> \<Longrightarrow>
     1 < c \<Longrightarrow> c < fresh s \<Longrightarrow> 1 < v \<Longrightarrow> v < fresh s \<Longrightarrow> c \<noteq> v \<Longrightarrow>
     gen_ok s {c, v} g \<Longrightarrow> (od_drained od \<Longrightarrow> ys = []) \<Longrightarrow>
     pool s = gen_pool g @ [Bridge_go (Some 0) (Some 1) bpc, Consume (Some 1) out]
              @ od_pool (Some c) (Some v) od \<Longrightarrow>
     bridge_reads (Some v) bpc \<Longrightarrow>
     out @ bridge_holds bpc @ od_holds od @ ys @ gen_rest g = concat items \<Longrightarrow>
     genVals_inv items (gen_rank g + 3 * length ys + 3 + bridge_rank bpc + od_rank od) s"
| returning: "\<not> cancelled s \<Longrightarrow> \<not> panicked s \<Longrightarrow>
     heap s 1 = Some \<lparr>buf = [], cap = 0, closed = False\<rparr> \<Longrightarrow>
     pool s = [Bridge_go (Some 0) (Some 1) Bridge_return, Consume (Some 1) (concat items)] \<Longrightarrow>
     genVals_inv items 2 s"
| closing: "\<not> cancelled s \<Longrightarrow> \<not> panicked s \<Longrightarrow>
     heap s 1 = Some \<lparr>buf = [], cap = 0, closed = True\<rparr> \<Longrightarrow>
     pool s = [Consume (Some 1) (concat items)] \<Longrightarrow>
     genVals_inv items 1 s"
| finished: "\<not> panicked s \<Longrightarrow>
     pool s = [Consumed (Some 1) (concat items)] \<Longrightarrow>
     genVals_inv items 0 s"

text \<open>
  \<open>Bridge\<close> with a producer that feeds every inner stream after it has sent it on the
  outer stream. The producer sends on the inner stream that \<open>Bridge\<close> reads (\<open>Str_send\<close>,
  with what it has still to send on it), is about to make the next inner stream
  (\<open>Str_make\<close>), holds the next inner stream (\<open>Str_hand\<close>), or has closed the outer
  stream and returned (\<open>Str_gone\<close>).
\<close>

datatype 'a str = Str_send "'a val list" "'a val list list" | Str_make "'a val list list"
  | Str_hand nat "'a val list" "'a val list list" | Str_gone

fun str_pool :: "chan \<Rightarrow> nat \<Rightarrow> 'a str \<Rightarrow> 'a task list" where
  "str_pool c k (Str_send r it) = [Streamer (Some 0) k it (Streamer_send c r)]"
| "str_pool c k (Str_make it) = [Streamer (Some 0) k it Streamer_make]"
| "str_pool c k (Str_hand c' zs it) = [Streamer (Some 0) k (zs # it) (Streamer_hand (Some c'))]"
| "str_pool c k Str_gone = []"

fun str_rest :: "'a str \<Rightarrow> 'a val list" where
  "str_rest (Str_send r it) = r @ concat it"
| "str_rest (Str_make it) = concat it"
| "str_rest (Str_hand c' zs it) = zs @ concat it"
| "str_rest Str_gone = []"

fun str_rank :: "'a str \<Rightarrow> nat" where
  "str_rank (Str_send r it) =
     4 * length r + 1 + (sum_list (map (\<lambda>zs. 4 * length zs + 8) it) + 1)"
| "str_rank (Str_make it) = sum_list (map (\<lambda>zs. 4 * length zs + 8) it) + 1"
| "str_rank (Str_hand c' zs it) =
     4 * length zs + 7 + (sum_list (map (\<lambda>zs. 4 * length zs + 8) it) + 1)"
| "str_rank Str_gone = 0"

fun str_sends :: "'a str \<Rightarrow> bool" where
  "str_sends (Str_send r it) = True"
| "str_sends _ = False"

fun str_ok :: "'a state \<Rightarrow> nat \<Rightarrow> nat set \<Rightarrow> 'a str \<Rightarrow> bool" where
  "str_ok s k A (Str_hand c' zs it) \<longleftrightarrow>
     heap s 0 = Some \<lparr>buf = [], cap = 0, closed = False\<rparr> \<and>
     heap s c' = Some \<lparr>buf = [], cap = k, closed = False\<rparr> \<and>
     1 < c' \<and> c' < fresh s \<and> c' \<notin> A"
| "str_ok s k A Str_gone \<longleftrightarrow> heap s 0 = Some \<lparr>buf = [], cap = 0, closed = True\<rparr>"
| "str_ok s k A g \<longleftrightarrow> heap s 0 = Some \<lparr>buf = [], cap = 0, closed = False\<rparr>"

inductive Streamer_inv :: "nat \<Rightarrow> 'a val list list \<Rightarrow> nat \<Rightarrow> 'a state \<Rightarrow> bool"
  for k xss where
  selecting: "\<not> cancelled s \<Longrightarrow> \<not> panicked s \<Longrightarrow>
     heap s 1 = Some \<lparr>buf = [], cap = 0, closed = False\<rparr> \<Longrightarrow>
     str_ok s k {} g \<Longrightarrow> \<not> str_sends g \<Longrightarrow> 1 < fresh s \<Longrightarrow>
     pool s = str_pool None k g
              @ [Bridge_go (Some 0) (Some 1) Bridge_select, Consume (Some 1) out] \<Longrightarrow>
     out @ str_rest g = concat xss \<Longrightarrow>
     Streamer_inv k xss (str_rank g + 3) s"
| calling: "\<not> cancelled s \<Longrightarrow> \<not> panicked s \<Longrightarrow>
     heap s 1 = Some \<lparr>buf = [], cap = 0, closed = False\<rparr> \<Longrightarrow>
     heap s c = Some \<lparr>buf = b, cap = k, closed = (\<not> str_sends g)\<rparr> \<Longrightarrow>
     1 < c \<Longrightarrow> c < fresh s \<Longrightarrow> str_ok s k {c} g \<Longrightarrow>
     pool s = str_pool (Some c) k g
              @ [Bridge_go (Some 0) (Some 1) (Bridge_call (Some c)), Consume (Some 1) out] \<Longrightarrow>
     out @ b @ str_rest g = concat xss \<Longrightarrow>
     Streamer_inv k xss (str_rank g + 3 * length b + 8) s"
| draining: "\<not> cancelled s \<Longrightarrow> \<not> panicked s \<Longrightarrow>
     heap s 1 = Some \<lparr>buf = [], cap = 0, closed = False\<rparr> \<Longrightarrow>
     heap s c = Some \<lparr>buf = b, cap = k, closed = (\<not> str_sends g)\<rparr> \<Longrightarrow>
     heap s v = Some \<lparr>buf = [], cap = 0, closed = (od = None)\<rparr> \<Longrightarrow>
     1 < c \<Longrightarrow> c < fresh s \<Longrightarrow> 1 < v \<Longrightarrow> v < fresh s \<Longrightarrow> c \<noteq> v \<Longrightarrow>
     str_ok s k {c, v} g \<Longrightarrow>
     (od_drained od \<Longrightarrow> b = []) \<Longrightarrow> (od_drained od \<Longrightarrow> \<not> str_sends g) \<Longrightarrow>
     pool s = str_pool (Some c) k g
              @ [Bridge_go (Some 0) (Some 1) bpc, Consume (Some 1) out]
              @ od_pool (Some c) (Some v) od \<Longrightarrow>
     bridge_reads (Some v) bpc \<Longrightarrow>
     out @ bridge_holds bpc @ od_holds od @ b @ str_rest g = concat xss \<Longrightarrow>
     Streamer_inv k xss (str_rank g + 3 * length b + 3 + bridge_rank bpc + od_rank od) s"
| returning: "\<not> cancelled s \<Longrightarrow> \<not> panicked s \<Longrightarrow>
     heap s 1 = Some \<lparr>buf = [], cap = 0, closed = False\<rparr> \<Longrightarrow>
     pool s = [Bridge_go (Some 0) (Some 1) Bridge_return, Consume (Some 1) (concat xss)] \<Longrightarrow>
     Streamer_inv k xss 2 s"
| closing: "\<not> cancelled s \<Longrightarrow> \<not> panicked s \<Longrightarrow>
     heap s 1 = Some \<lparr>buf = [], cap = 0, closed = True\<rparr> \<Longrightarrow>
     pool s = [Consume (Some 1) (concat xss)] \<Longrightarrow>
     Streamer_inv k xss 1 s"
| finished: "\<not> panicked s \<Longrightarrow>
     pool s = [Consumed (Some 1) (concat xss)] \<Longrightarrow>
     Streamer_inv k xss 0 s"


section \<open>Runs that end\<close>

lemma inevitably_ranked:
  fixes n :: nat
  assumes "I n s"
    and "\<And>n s s'. I n s \<Longrightarrow> s' \<in> set (succs s) \<Longrightarrow> \<exists>n'<n. I n' s'"
    and "\<And>n s. I n s \<Longrightarrow> succs s = [] \<Longrightarrow> Q s"
  shows "inevitably Q s"
  using assms(1)
proof (induction n arbitrary: s rule: less_induct)
  case (less n)
  show ?case
  proof (cases "succs s = []")
    case True
    then show ?thesis using less.prems assms(3) by (auto intro: inevitably.stops)
  next
    case False
    show ?thesis
    proof (rule inevitably.steps[OF False])
      fix s' assume "s' \<in> set (succs s)"
      then obtain n' where "n' < n" "I n' s'" using assms(2)[OF less.prems] by blast
      then show "inevitably Q s'" using less.IH by blast
    qed
  qed
qed

lemma lowerI: "I n' s' \<Longrightarrow> n' < n \<Longrightarrow> \<exists>n'<n. I n' (s' :: 'a state)"
  by blast

lemmas sched = succs_def solos_def syncs_def put_def reap_def close_chan_def panic_def

lemmas allocs = source_def make_chan_def go_def boot_def


section \<open>Or on no channel and on one channel\<close>

text \<open>
  C7: \<open>Or\<close> of no channel returns the nil channel, and \<open>Or\<close> of one channel returns that
  channel; neither call changes the state, so no channel is made and no goroutine started.
\<close>

theorem Or_zero_one: "Or [] s = (None, s) \<and> Or [c] s = (c, s)"
  by simp

section \<open>Take\<close>

lemma Take_inv_step:
  assumes "Take_inv num z want n s" "s' \<in> set (succs s)"
  shows "\<exists>n'<n. Take_inv num z want n' s'"
  using assms
proof (cases rule: Take_inv.cases)
  case (at_for xs k i out)
  show ?thesis
  proof (cases "i < num")
    case True
    have "nat (num - i) = Suc (nat (num - (i + 1)))" using True by simp
    then show ?thesis using at_for assms(2) True
      by (cases xs)
        (auto simp: sched intro!: Take_inv.at_select exI[of _ "2 * nat (num - i) + 1"])
  next
    case False
    then show ?thesis using at_for assms(2)
      by (auto simp: sched intro!: Take_inv.closing exI[of _ 1])
  qed
next
  case (at_select xs k i v out)
  have "nat (num - i) = Suc (nat (num - (i + 1)))" using at_select by simp
  then show ?thesis using at_select assms(2)
    by (auto simp: sched intro!: Take_inv.at_for exI[of _ "2 * nat (num - (i + 1)) + 2"])
next
  case closing
  then show ?thesis using assms(2)
    by (auto simp: sched intro!: Take_inv.finished)
next
  case finished
  then show ?thesis using assms(2) by (auto simp: sched)
qed

lemma Take_inv_stuck:
  assumes "Take_inv num z want n s" "succs s = []"
  shows "delivered (Some 1) want s"
  using assms
  by (cases rule: Take_inv.cases) (auto simp: sched delivered_def split: list.splits if_splits)

lemma Take_inv_start:
  "Take_inv num z (take (nat num) xs @ replicate (nat num - length xs) z) (2 * nat num + 2)
     (snd (Take_program num xs z))"
  using Take_inv.at_for[of "snd (Take_program num xs z)" xs "length xs" num z 0 "[]"]
  by (simp add: Take_program_def Take_def allocs)

lemma fst_Take_program: "fst (Take_program num xs z) = Some 1"
  by (simp add: Take_program_def Take_def allocs)

text \<open>
  C1: on an input stream that carries \<open>xs\<close> and is closed, with the context never
  cancelled, every run of \<open>Take\<close> ends, and the caller has then received \<open>num\<close> values and
  seen the output closed: the first \<open>min num (length xs)\<close> values of the input, followed
  by one zero value for every turn of the loop that found the input closed. The claim
  has \<open>min num (length xs)\<close> values and no more.
\<close>

theorem Take_forwards_num_values:
  "inevitably
     (delivered (fst (Take_program num xs z))
        (take (nat num) xs @ replicate (nat num - length xs) z))
     (snd (Take_program num xs z))"
  unfolding fst_Take_program
  by (rule inevitably_ranked[where I = "Take_inv num z
        (take (nat num) xs @ replicate (nat num - length xs) z)",
        OF Take_inv_start Take_inv_step Take_inv_stuck])

theorem Take_short_input:
  "inevitably (delivered (fst (Take_program 2 [Val (1::int)] (Val 0))) [Val 1, Val 0])
     (snd (Take_program 2 [Val (1::int)] (Val 0)))"
  using Take_forwards_num_values[of 2 "[Val (1::int)]" "Val 0"]
  by (simp add: numeral_2_eq_2)


section \<open>Take after Repeat\<close>

lemma cyclic_Suc: "cyclic vs (Suc n) = cyclic vs n @ [vs ! (n mod length vs)]"
  by (simp add: cyclic_def)

lemma Repeat_at_next:
  "vs \<noteq> [] \<Longrightarrow>
   Repeat_at vs (Suc p)
     (if Suc (p mod length vs) < length vs then Repeat_select (Suc (p mod length vs))
      else Repeat_for)"
  by (auto simp: Repeat_at_def mod_Suc intro!: Suc_lessI)

lemma spinning_le: "spinning pc \<le> 1"
  by (cases pc) simp_all

lemma pipeline_inv_step:
  assumes "pipeline_inv vs num z n s" "s' \<in> set (succs s)" "vs \<noteq> []"
  shows "\<exists>n'<n. pipeline_inv vs num z n' s'"
proof -
  note low = lowerI[where I = "pipeline_inv vs num z" and n = n and s' = s']
  show ?thesis
    using assms(1)
  proof (cases rule: pipeline_inv.cases)
    case (taking rpc i)
    show ?thesis
    proof (cases rpc)
      case Repeat_for
      show ?thesis
      proof (cases "i < num")
        case True
        show ?thesis
          by (rule low[OF pipeline_inv.taking[where rpc = "Repeat_select 0" and i = i]])
            (use taking assms(2,3) Repeat_for True in \<open>auto simp: sched Repeat_at_def\<close>)
      next
        case False
        have "s' = s\<lparr>pool := [Repeat_go vs (Some 0) (Repeat_select 0),
                 Take_go (Some 0) (Some 1) num z (Take_for i), Consume (Some 1) (cyclic vs (nat i))]\<rparr>
           \<or> s' = s\<lparr>pool := [Repeat_go vs (Some 0) Repeat_for, Consume (Some 1) (cyclic vs (nat i))],
                 heap := (heap s)(1 \<mapsto> \<lparr>buf = [], cap = 0, closed = True\<rparr>)\<rparr>"
          using taking assms(2,3) Repeat_for False by (auto simp: sched)
        then show ?thesis
        proof
          assume "s' = s\<lparr>pool := [Repeat_go vs (Some 0) (Repeat_select 0),
                 Take_go (Some 0) (Some 1) num z (Take_for i), Consume (Some 1) (cyclic vs (nat i))]\<rparr>"
          then show ?thesis
            by (intro low[OF pipeline_inv.taking[where rpc = "Repeat_select 0" and i = i]])
              (use taking Repeat_for in \<open>auto simp: Repeat_at_def\<close>)
        next
          assume "s' = s\<lparr>pool := [Repeat_go vs (Some 0) Repeat_for, Consume (Some 1) (cyclic vs (nat i))],
                 heap := (heap s)(1 \<mapsto> \<lparr>buf = [], cap = 0, closed = True\<rparr>)\<rparr>"
          moreover have "nat i = nat num" using taking False by simp
          ultimately show ?thesis
            by (intro low[OF pipeline_inv.closing[where rpc = Repeat_for]])
              (use taking Repeat_for False in \<open>auto simp: Repeat_at_def\<close>)
        qed
      qed
    next
      case (Repeat_select k)
      then have k: "k = nat i mod length vs" using taking by (simp add: Repeat_at_def)
      let ?r = "if Suc k < length vs then Repeat_select (Suc k) else Repeat_for :: 'a repeat_pc"
      show ?thesis
      proof (cases "i < num")
        case True
        have *: "nat (num - i) = Suc (nat (num - (i + 1)))" using True by simp
        have "spinning ?r \<le> 1" by (rule spinning_le)
        then show ?thesis
          by (intro low[OF pipeline_inv.sending[where rpc = "?r" and i = i]])
            (use taking assms(2,3) True Repeat_select k Repeat_at_next[of vs "nat i"]
              in \<open>auto simp: sched simp del: spinning.simps\<close>)
      next
        case False
        moreover have "nat i = nat num" using taking False by simp
        ultimately show ?thesis
          by (intro low[OF pipeline_inv.closing[where rpc = rpc]])
            (use taking assms(2,3) Repeat_select in \<open>auto simp: sched\<close>)
      qed
    next
      case Repeat_return
      then show ?thesis using taking by (simp add: Repeat_at_def)
    qed
  next
    case (sending rpc i)
    have *: "nat (num - i) = Suc (nat (num - (i + 1)))" "nat (i + 1) = Suc (nat i)"
      using sending by simp_all
    have s': "s' = s\<lparr>pool := [Repeat_go vs (Some 0) (Repeat_select 0),
                 Take_go (Some 0) (Some 1) num z (Take_select i (vs ! (nat i mod length vs))),
                 Consume (Some 1) (cyclic vs (nat i))]\<rparr> \<and> rpc = Repeat_for
           \<or> s' = s\<lparr>pool := [Repeat_go vs (Some 0) rpc,
                 Take_go (Some 0) (Some 1) num z (Take_for (i + 1)),
                 Consume (Some 1) (cyclic vs (nat (i + 1)))]\<rparr>"
      using sending assms(2,3) * by (cases rpc) (auto simp: sched cyclic_Suc Repeat_at_def)
    then show ?thesis
    proof (elim disjE conjE)
      assume "s' = s\<lparr>pool := [Repeat_go vs (Some 0) (Repeat_select 0),
                 Take_go (Some 0) (Some 1) num z (Take_select i (vs ! (nat i mod length vs))),
                 Consume (Some 1) (cyclic vs (nat i))]\<rparr>" "rpc = Repeat_for"
      then show ?thesis
        by (intro low[OF pipeline_inv.sending[where rpc = "Repeat_select 0" and i = i]])
          (use sending in \<open>auto simp: Repeat_at_def\<close>)
    next
      assume "s' = s\<lparr>pool := [Repeat_go vs (Some 0) rpc,
                 Take_go (Some 0) (Some 1) num z (Take_for (i + 1)),
                 Consume (Some 1) (cyclic vs (nat (i + 1)))]\<rparr>"
      then show ?thesis
        by (intro low[OF pipeline_inv.taking[where rpc = rpc and i = "i + 1"]])
          (use sending * in \<open>auto\<close>)
    qed
  next
    case (closing rpc)
    have "s' = s\<lparr>pool := [Repeat_go vs (Some 0) (Repeat_select 0),
                 Consume (Some 1) (cyclic vs (nat num))]\<rparr> \<and> rpc = Repeat_for
       \<or> s' = s\<lparr>pool := [Repeat_go vs (Some 0) rpc, Consumed (Some 1) (cyclic vs (nat num))]\<rparr>"
      using closing assms(2,3) by (cases rpc) (auto simp: sched)
    then show ?thesis
    proof (elim disjE conjE)
      assume "s' = s\<lparr>pool := [Repeat_go vs (Some 0) (Repeat_select 0),
                 Consume (Some 1) (cyclic vs (nat num))]\<rparr>" "rpc = Repeat_for"
      then show ?thesis
        by (intro low[OF pipeline_inv.closing[where rpc = "Repeat_select 0"]])
          (use closing in \<open>auto\<close>)
    next
      assume "s' = s\<lparr>pool := [Repeat_go vs (Some 0) rpc, Consumed (Some 1) (cyclic vs (nat num))]\<rparr>"
      then show ?thesis
        by (intro low[OF pipeline_inv.finished[where rpc = rpc]])
          (use closing in \<open>auto\<close>)
    qed
  next
    case (finished rpc)
    have "rpc = Repeat_for \<and> s' = s\<lparr>pool := [Repeat_go vs (Some 0) (Repeat_select 0),
                 Consumed (Some 1) (cyclic vs (nat num))]\<rparr>"
      using finished assms(2,3) by (cases rpc) (auto simp: sched)
    then show ?thesis
      by (intro low[OF pipeline_inv.finished[where rpc = "Repeat_select 0"]])
        (use finished in \<open>auto\<close>)
  qed
qed

lemma pipeline_inv_stuck:
  assumes "pipeline_inv vs num z n s" "succs s = []"
  shows "delivered (Some 1) (cyclic vs (nat num)) s"
  using assms(1)
proof (cases rule: pipeline_inv.cases)
  case (taking rpc i)
  then have "succs s \<noteq> []"
    by (cases rpc; cases "i < num") (simp_all add: sched Repeat_at_def)
  then show ?thesis using assms(2) by simp
next
  case (sending rpc i)
  then have "succs s \<noteq> []"
    by (cases rpc) (simp_all add: sched Repeat_at_def)
  then show ?thesis using assms(2) by simp
next
  case (closing rpc)
  then have "succs s \<noteq> []"
    by (cases rpc) (simp_all add: sched)
  then show ?thesis using assms(2) by simp
next
  case (finished rpc)
  then show ?thesis by (simp add: delivered_def)
qed

lemma pipeline_inv_start:
  "\<exists>n. pipeline_inv vs num z n (snd (pipeline vs num z))"
  by (rule exI, rule pipeline_inv.taking[where rpc = Repeat_for and i = 0])
    (simp_all add: pipeline_def Take_def Repeat_def allocs Repeat_at_def cyclic_def)

lemma pipeline_delivers:
  assumes "vs \<noteq> []"
  shows "inevitably (delivered (Some 1) (cyclic vs (nat num))) (snd (pipeline vs num z))"
proof -
  obtain n0 where "pipeline_inv vs num z n0 (snd (pipeline vs num z))"
    using pipeline_inv_start by blast
  then show ?thesis
proof (rule inevitably_ranked[where I = "pipeline_inv vs num z"])
  show "\<exists>n'<n. pipeline_inv vs num z n' s'" if "pipeline_inv vs num z n s" "s' \<in> set (succs s)" for n s s'
    using that assms by (rule pipeline_inv_step)
  show "delivered (Some 1) (cyclic vs (nat num)) s" if "pipeline_inv vs num z n s" "succs s = []" for n s
    using that by (rule pipeline_inv_stuck)
qed
qed

lemma fst_pipeline: "fst (pipeline vs num z) = Some 1"
  by (simp add: pipeline_def Take_def Repeat_def allocs)

lemma cyclic_1_2_3:
  "cyclic [Val 1, Val 2, Val 3] 7 = [Val 1, Val 2, Val 3, Val 1, Val 2, Val 3, Val (1::int)]"
  by code_simp

text \<open>
  C8: \<open>Take\<close> with bound 7 applied to \<open>Repeat(ctx, 1, 2, 3)\<close>, the context never cancelled:
  every run ends, and the caller has then received 1, 2, 3, 1, 2, 3, 1 and seen the output
  closed.
\<close>

theorem Take_Repeat_1_2_3:
  "inevitably
     (delivered (fst (pipeline [Val 1, Val 2, Val 3] 7 (Val (0::int))))
        [Val 1, Val 2, Val 3, Val 1, Val 2, Val 3, Val 1])
     (snd (pipeline [Val 1, Val 2, Val 3] 7 (Val (0::int))))"
  using pipeline_delivers[of "[Val 1, Val 2, Val 3]" 7 "Val (0::int)"]
  by (simp add: fst_pipeline cyclic_1_2_3)


section \<open>Repeat with no values\<close>

lemma fst_Repeat_program: "fst (Repeat_program vs c) = Some 0"
  by (simp add: Repeat_program_def Repeat_def allocs)

lemma Repeat_empty_inv:
  assumes "reachable (snd (Repeat_program [] c)) s"
  shows "pool s = [Repeat_go [] (Some 0) Repeat_for, Consume (Some 0) []] \<and>
         heap s 0 = Some \<lparr>buf = [], cap = 0, closed = False\<rparr> \<and> \<not> panicked s"
  using assms
proof (induction rule: reachable.induct)
  case start
  show ?case by (simp add: Repeat_program_def Repeat_def allocs)
next
  case (step s1 s2)
  then show ?case by (auto simp: sched)
next
  case (cancels s1)
  then show ?case by (simp add: cancel_def)
qed

text \<open>
  C6: \<open>Repeat\<close> called with no values, the context cancelled at the start, later or
  never. In every state the program reaches, the goroutine stands at the head of its outer
  loop (never in the select, the only place that looks at the context), the caller has
  received nothing, the stream is not closed, and the only step there is leads back to the
  same state: the goroutine turns in its loop for ever.
\<close>

theorem Repeat_empty_spins:
  assumes "P = Repeat_program [] c" and "reachable (snd P) s"
  shows "pool s = [Repeat_go [] (fst P) Repeat_for, Consume (fst P) []] \<and>
         \<not> is_closed (fst P) s \<and> succs s = [s]"
  using Repeat_empty_inv[of c s] assms
  by (simp add: fst_Repeat_program is_closed_def sched)

theorem Repeat_empty_spins_witness:
  "reachable (snd (Repeat_program [] False))
     (cancel (snd (Repeat_program [] False)) :: int state) \<and>
   cancelled (cancel (snd (Repeat_program [] False)) :: int state) \<and>
   succs (cancel (snd (Repeat_program [] False)) :: int state) =
     [cancel (snd (Repeat_program [] False))]"
proof -
  have r: "reachable (snd (Repeat_program [] False))
             (cancel (snd (Repeat_program [] False)) :: int state)"
    by (intro reachable.cancels reachable.start)
  show ?thesis using r Repeat_empty_spins[OF refl r] by (simp add: cancel_def)
qed


section \<open>Confine\<close>

lemma in_turn_Suc: "in_turn (Suc k) = in_turn k @ [Enter k, Leave k]"
  by (simp add: in_turn_def)

lemma results_of_Suc:
  "k < length fns \<Longrightarrow> results_of (take (Suc k) fns) = results_of (take k fns) @ [Val ((fns ! k) ())]"
  by (simp add: results_of_def take_Suc_conv_app_nth)

lemma Confine_inv_step:
  assumes "Confine_inv fns n s" "s' \<in> set (succs s)"
  shows "\<exists>n'<n. Confine_inv fns n' s'"
proof -
  note low = lowerI[where I = "Confine_inv fns" and n = n and s' = s']
  show ?thesis
    using assms(1)
  proof (cases rule: Confine_inv.cases)
    case (ranging b k out)
    have "(k < length fns \<and> s' = s\<lparr>calls := calls s @ [Enter k],
              pool := [Confine_go fns (Some 0) (Confine_do k), Consume (Some 0) out]\<rparr>)
        \<or> (k = length fns \<and> s' = s\<lparr>heap := (heap s)(0 \<mapsto> \<lparr>buf = b, cap = length fns, closed = True\<rparr>),
              pool := [Consume (Some 0) out]\<rparr>)
        \<or> (\<exists>v b'. b = v # b' \<and> s' = s\<lparr>heap := (heap s)(0 \<mapsto> \<lparr>buf = b', cap = length fns, closed = False\<rparr>),
              pool := [Confine_go fns (Some 0) (Confine_range k), Consume (Some 0) (out @ [v])]\<rparr>)"
      using ranging assms(2) by (cases b; cases "k < length fns") (auto simp: sched)
    then show ?thesis
    proof (elim disjE conjE exE)
      assume "k < length fns" "s' = s\<lparr>calls := calls s @ [Enter k],
              pool := [Confine_go fns (Some 0) (Confine_do k), Consume (Some 0) out]\<rparr>"
      then show ?thesis
        by (intro low[OF Confine_inv.doing[where k = k and b = b and out = out]])
          (use ranging in auto)
    next
      assume "k = length fns" "s' = s\<lparr>heap := (heap s)(0 \<mapsto> \<lparr>buf = b, cap = length fns, closed = True\<rparr>),
              pool := [Consume (Some 0) out]\<rparr>"
      then show ?thesis
        by (intro low[OF Confine_inv.draining[where b = b and out = out]])
          (use ranging in auto)
    next
      fix v b' assume "b = v # b'" "s' = s\<lparr>heap := (heap s)(0 \<mapsto> \<lparr>buf = b', cap = length fns, closed = False\<rparr>),
              pool := [Confine_go fns (Some 0) (Confine_range k), Consume (Some 0) (out @ [v])]\<rparr>"
      then show ?thesis
        by (intro low[OF Confine_inv.ranging[where k = k and b = b' and out = "out @ [v]"]])
          (use ranging in auto)
    qed
  next
    case (doing b k out)
    have "s' = s\<lparr>calls := calls s @ [Leave k],
              pool := [Confine_go fns (Some 0) (Confine_send k (Val ((fns ! k) ()))), Consume (Some 0) out]\<rparr>
        \<or> (\<exists>v b'. b = v # b' \<and> s' = s\<lparr>heap := (heap s)(0 \<mapsto> \<lparr>buf = b', cap = length fns, closed = False\<rparr>),
              pool := [Confine_go fns (Some 0) (Confine_do k), Consume (Some 0) (out @ [v])]\<rparr>)"
      using doing assms(2) by (cases b) (auto simp: sched)
    then show ?thesis
    proof (elim disjE conjE exE)
      assume "s' = s\<lparr>calls := calls s @ [Leave k],
              pool := [Confine_go fns (Some 0) (Confine_send k (Val ((fns ! k) ()))), Consume (Some 0) out]\<rparr>"
      then show ?thesis
        by (intro low[OF Confine_inv.sending[where k = k and b = b and out = out]])
          (use doing in \<open>auto simp: in_turn_Suc\<close>)
    next
      fix v b' assume "b = v # b'" "s' = s\<lparr>heap := (heap s)(0 \<mapsto> \<lparr>buf = b', cap = length fns, closed = False\<rparr>),
              pool := [Confine_go fns (Some 0) (Confine_do k), Consume (Some 0) (out @ [v])]\<rparr>"
      then show ?thesis
        by (intro low[OF Confine_inv.doing[where k = k and b = b' and out = "out @ [v]"]])
          (use doing in auto)
    qed
  next
    case (sending b k out)
    let ?v = "Val ((fns ! k) ())"
    have len: "length b < length fns"
      using arg_cong[OF sending(7), of length] sending(6) by (simp add: results_of_def)
    have "s' = s\<lparr>heap := (heap s)(0 \<mapsto> \<lparr>buf = b @ [?v], cap = length fns, closed = False\<rparr>),
              pool := [Confine_go fns (Some 0) (Confine_range (Suc k)), Consume (Some 0) out]\<rparr>
        \<or> (b = [] \<and> s' = s\<lparr>pool := [Confine_go fns (Some 0) (Confine_range (Suc k)), Consume (Some 0) (out @ [?v])]\<rparr>)
        \<or> (\<exists>v b'. b = v # b' \<and> s' = s\<lparr>heap := (heap s)(0 \<mapsto> \<lparr>buf = b', cap = length fns, closed = False\<rparr>),
              pool := [Confine_go fns (Some 0) (Confine_send k ?v), Consume (Some 0) (out @ [v])]\<rparr>)"
      using sending assms(2) len by (cases b) (auto simp: sched)
    then show ?thesis
    proof (elim disjE conjE exE)
      assume "s' = s\<lparr>heap := (heap s)(0 \<mapsto> \<lparr>buf = b @ [?v], cap = length fns, closed = False\<rparr>),
              pool := [Confine_go fns (Some 0) (Confine_range (Suc k)), Consume (Some 0) out]\<rparr>"
      then show ?thesis
        by (intro low[OF Confine_inv.ranging[where k = "Suc k" and b = "b @ [?v]" and out = out]])
          (use sending in \<open>auto simp: results_of_Suc\<close>)
    next
      assume "b = []" "s' = s\<lparr>pool := [Confine_go fns (Some 0) (Confine_range (Suc k)), Consume (Some 0) (out @ [?v])]\<rparr>"
      then show ?thesis
        by (intro low[OF Confine_inv.ranging[where k = "Suc k" and b = "[]" and out = "out @ [?v]"]])
          (use sending in \<open>auto simp: results_of_Suc\<close>)
    next
      fix v b' assume "b = v # b'" "s' = s\<lparr>heap := (heap s)(0 \<mapsto> \<lparr>buf = b', cap = length fns, closed = False\<rparr>),
              pool := [Confine_go fns (Some 0) (Confine_send k ?v), Consume (Some 0) (out @ [v])]\<rparr>"
      then show ?thesis
        by (intro low[OF Confine_inv.sending[where k = k and b = b' and out = "out @ [v]"]])
          (use sending in auto)
    qed
  next
    case (draining b out)
    have "(b = [] \<and> s' = s\<lparr>pool := [Consumed (Some 0) out]\<rparr>)
        \<or> (\<exists>v b'. b = v # b' \<and> s' = s\<lparr>heap := (heap s)(0 \<mapsto> \<lparr>buf = b', cap = length fns, closed = True\<rparr>),
              pool := [Consume (Some 0) (out @ [v])]\<rparr>)"
      using draining assms(2) by (cases b) (auto simp: sched)
    then show ?thesis
    proof (elim disjE conjE exE)
      assume "b = []" "s' = s\<lparr>pool := [Consumed (Some 0) out]\<rparr>"
      then show ?thesis
        by (intro low[OF Confine_inv.finished]) (use draining in auto)
    next
      fix v b' assume "b = v # b'" "s' = s\<lparr>heap := (heap s)(0 \<mapsto> \<lparr>buf = b', cap = length fns, closed = True\<rparr>),
              pool := [Consume (Some 0) (out @ [v])]\<rparr>"
      then show ?thesis
        by (intro low[OF Confine_inv.draining[where b = b' and out = "out @ [v]"]])
          (use draining in auto)
    qed
  next
    case finished
    then show ?thesis using assms(2) by (simp add: sched)
  qed
qed

lemma Confine_inv_stuck:
  assumes "Confine_inv fns n s" "succs s = []"
  shows "delivered (Some 0) (results_of fns) s \<and> calls s = in_turn (length fns)"
  using assms(1)
proof (cases rule: Confine_inv.cases)
  case (ranging b k out)
  then have "succs s \<noteq> []" by (cases "k < length fns") (simp_all add: sched)
  then show ?thesis using assms(2) by simp
next
  case (doing b k out)
  then have "succs s \<noteq> []" by (simp add: sched)
  then show ?thesis using assms(2) by simp
next
  case (sending b k out)
  have "length b < length fns"
    using arg_cong[OF sending(7), of length] sending(6) by (simp add: results_of_def)
  then have "succs s \<noteq> []" using sending by (simp add: sched)
  then show ?thesis using assms(2) by simp
next
  case (draining b out)
  then have "succs s \<noteq> []" by (cases b) (simp_all add: sched)
  then show ?thesis using assms(2) by simp
next
  case finished
  then show ?thesis by (simp add: delivered_def)
qed

lemma Confine_inv_start: "\<exists>n. Confine_inv fns n (snd (Confine_program fns))"
  by (rule exI, rule Confine_inv.ranging[where k = 0 and b = "[]" and out = "[]"])
    (simp_all add: Confine_program_def Confine_def allocs results_of_def in_turn_def)

lemma fst_Confine_program: "fst (Confine_program fns) = Some 0"
  by (simp add: Confine_program_def Confine_def allocs)

text \<open>
  C9: \<open>Confine\<close> starts one goroutine. Every run ends; the caller has then received the
  results of the functions in the order in which the functions were given and seen the
  stream closed, and the log of calls shows each function entered and left before the
  next is entered: no two of them run at the same time. The example of the repository
  (three functions that add 2 and 3, 4 and 5, 6 and 7) is the witness.
\<close>

theorem Confine_in_order:
  "pool (snd (Confine fns s)) = pool s @ [Confine_go fns (fst (Confine fns s)) (Confine_range 0)] \<and>
   inevitably
     (\<lambda>s. delivered (fst (Confine_program fns)) (map (\<lambda>f. Val (f ())) fns) s \<and>
          calls s = concat (map (\<lambda>k. [Enter k, Leave k]) [0..<length fns]))
     (snd (Confine_program fns))"
proof
  show "pool (snd (Confine fns s)) = pool s @ [Confine_go fns (fst (Confine fns s)) (Confine_range 0)]"
    by (simp add: Confine_def allocs)
  obtain n0 where "Confine_inv fns n0 (snd (Confine_program fns))"
    using Confine_inv_start by blast
  then have "inevitably (\<lambda>s. delivered (Some 0) (results_of fns) s \<and> calls s = in_turn (length fns))
      (snd (Confine_program fns))"
    by (rule inevitably_ranked[where I = "Confine_inv fns", OF _ Confine_inv_step Confine_inv_stuck])
  then show "inevitably
     (\<lambda>s. delivered (fst (Confine_program fns)) (map (\<lambda>f. Val (f ())) fns) s \<and>
          calls s = concat (map (\<lambda>k. [Enter k, Leave k]) [0..<length fns]))
     (snd (Confine_program fns))"
    by (simp add: fst_Confine_program results_of_def in_turn_def)
qed

theorem Confine_example_5_9_13:
  "inevitably
     (\<lambda>s. delivered (fst confine_example) [Val 5, Val 9, Val 13] s \<and>
          calls s = [Enter 0, Leave 0, Enter 1, Leave 1, Enter 2, Leave 2])
     (snd confine_example)"
proof -
  have "[0..<length [\<lambda>_::unit. add 2 3, \<lambda>_. add 4 5, \<lambda>_. add 6 7]] = [0, 1, 2]"
    by (simp add: upt_conv_Cons)
  then show ?thesis
    using Confine_in_order[of "[\<lambda>_. add 2 3, \<lambda>_. add 4 5, \<lambda>_. add 6 7]" boot]
    by (simp add: confine_example_def add_def numeral_2_eq_2)
qed


section \<open>Bridge\<close>

subsection \<open>Streams filled and closed before the call\<close>

lemma todo_Suc: "j < length xss \<Longrightarrow> todo xss j = 3 * length (xss ! j) + 6 + todo xss (Suc j)"
  by (simp add: todo_def flip: Cons_nth_drop_Suc)

lemma todo_end: "todo xss (length xss) = 0"
  by (simp add: todo_def)

lemma concat_take_Suc: "j < length xss \<Longrightarrow> concat (take (Suc j) xss) = concat (take j xss) @ xss ! j"
  by (simp add: take_Suc_conv_app_nth)

lemma Bridge_inv_step_selecting:
  assumes "\<not> cancelled s" "\<not> panicked s" "j \<le> length xss"
    "heap s (length xss) = Some \<lparr>buf = map (\<lambda>i. Chan (Some i)) [j..<length xss],
                                  cap = length xss, closed = True\<rparr>"
    "heap s (Suc (length xss)) = Some \<lparr>buf = [], cap = 0, closed = False\<rparr>"
    "\<And>i. j \<le> i \<Longrightarrow> i < length xss \<Longrightarrow>
        heap s i = Some \<lparr>buf = xss ! i, cap = length (xss ! i), closed = True\<rparr>"
    "fresh s = length xss + 2 + j"
    "pool s = [Bridge_go (Some (length xss)) (Some (Suc (length xss))) Bridge_select,
               Consume (Some (Suc (length xss))) (concat (take j xss))]"
    "s' \<in> set (succs s)"
  shows "\<exists>n'<todo xss j + 3. Bridge_inv xss n' s'"
proof (cases "j < length xss")
  case True
  then have upt: "[j..<length xss] = j # [Suc j..<length xss]" by (simp add: upt_conv_Cons)
  have s': "s' = s\<lparr>heap := (heap s)(length xss \<mapsto>
        \<lparr>buf = map (\<lambda>i. Chan (Some i)) [Suc j..<length xss], cap = length xss, closed = True\<rparr>),
      pool := [Bridge_go (Some (length xss)) (Some (Suc (length xss))) (Bridge_call (Some j)),
               Consume (Some (Suc (length xss))) (concat (take j xss))]\<rparr>"
    using assms upt by (auto simp: sched)
  show ?thesis
    by (intro lowerI[where I = "Bridge_inv xss", OF Bridge_inv.calling[where j = j]])
      (use assms s' True in \<open>auto\<close>)
next
  case False
  then have j: "j = length xss" using assms(3) by simp
  have s': "s' = s\<lparr>pool := [Bridge_go (Some (length xss)) (Some (Suc (length xss))) Bridge_return,
               Consume (Some (Suc (length xss))) (concat (take j xss))]\<rparr>"
    using assms j by (auto simp: sched)
  show ?thesis
    by (intro lowerI[where I = "Bridge_inv xss", OF Bridge_inv.returning])
      (use assms s' j in \<open>auto\<close>)
qed

lemma Bridge_inv_step_calling:
  assumes "\<not> cancelled s" "\<not> panicked s" "j < length xss"
    "heap s (length xss) = Some \<lparr>buf = map (\<lambda>i. Chan (Some i)) [Suc j..<length xss],
                                  cap = length xss, closed = True\<rparr>"
    "heap s (Suc (length xss)) = Some \<lparr>buf = [], cap = 0, closed = False\<rparr>"
    "\<And>i. j \<le> i \<Longrightarrow> i < length xss \<Longrightarrow>
        heap s i = Some \<lparr>buf = xss ! i, cap = length (xss ! i), closed = True\<rparr>"
    "fresh s = length xss + 2 + j"
    "pool s = [Bridge_go (Some (length xss)) (Some (Suc (length xss))) (Bridge_call (Some j)),
               Consume (Some (Suc (length xss))) (concat (take j xss))]"
    "s' \<in> set (succs s)"
  shows "\<exists>n'<todo xss j + 2. Bridge_inv xss n' s'"
proof -
  have s': "s' = s\<lparr>heap := (heap s)(length xss + 2 + j \<mapsto> \<lparr>buf = [], cap = 0, closed = False\<rparr>),
      fresh := Suc (length xss + 2 + j),
      pool := [Bridge_go (Some (length xss)) (Some (Suc (length xss))) (Bridge_range (Some (length xss + 2 + j))),
               Consume (Some (Suc (length xss))) (concat (take j xss)),
               OrDone_go (Some j) (Some (length xss + 2 + j)) OrDone_select]\<rparr>"
    using assms by (auto simp: sched OrDone_def make_chan_def go_def)
  show ?thesis
    by (intro lowerI[where I = "Bridge_inv xss", OF Bridge_inv.draining[where j = j and ys = "xss ! j"
            and od = "Some OrDone_select" and bpc = "Bridge_range (Some (length xss + 2 + j))"
            and out = "concat (take j xss)"]])
      (use assms s' in \<open>auto simp: todo_Suc concat_take_Suc\<close>)
qed

lemma Bridge_inv_step_draining:
  assumes "\<not> cancelled s" "\<not> panicked s" "j < length xss"
    "heap s (length xss) = Some \<lparr>buf = map (\<lambda>i. Chan (Some i)) [Suc j..<length xss],
                                  cap = length xss, closed = True\<rparr>"
    "heap s (Suc (length xss)) = Some \<lparr>buf = [], cap = 0, closed = False\<rparr>"
    "heap s j = Some \<lparr>buf = ys, cap = length (xss ! j), closed = True\<rparr>"
    "heap s (length xss + 2 + j) = Some \<lparr>buf = [], cap = 0, closed = (od = None)\<rparr>"
    "od_drained od \<Longrightarrow> ys = []"
    "\<And>i. j < i \<Longrightarrow> i < length xss \<Longrightarrow>
        heap s i = Some \<lparr>buf = xss ! i, cap = length (xss ! i), closed = True\<rparr>"
    "fresh s = length xss + 3 + j"
    "pool s = [Bridge_go (Some (length xss)) (Some (Suc (length xss))) bpc,
               Consume (Some (Suc (length xss))) out]
              @ od_pool (Some j) (Some (length xss + 2 + j)) od"
    "bridge_reads (Some (length xss + 2 + j)) bpc"
    "out @ bridge_holds bpc @ od_holds od @ ys = concat (take (Suc j) xss)"
    "s' \<in> set (succs s)"
  shows "\<exists>n'<todo xss (Suc j) + 3 + 3 * length ys + bridge_rank bpc + od_rank od. Bridge_inv xss n' s'"
proof -
  note low = lowerI[where I = "Bridge_inv xss" and s' = s'
      and n = "todo xss (Suc j) + 3 + 3 * length ys + bridge_rank bpc + od_rank od"]
  have ne: "j \<noteq> length xss" "j \<noteq> Suc (length xss)" "j \<noteq> length xss + 2 + j"
    using assms(3) by simp_all
  consider (range) "bpc = Bridge_range (Some (length xss + 2 + j))"
    | (forward) y where "bpc = Bridge_forward (Some (length xss + 2 + j)) y"
    using assms(12) by (cases bpc) auto
  then show ?thesis
  proof cases
    case range
    consider (gone) "od = None" | (select) "od = Some OrDone_select"
      | (forward') w where "od = Some (OrDone_forward w)" | (return) "od = Some OrDone_return"
      by (cases od rule: od_rank.cases) auto
    then show ?thesis
    proof cases
      case gone
      have s': "s' = s\<lparr>pool := [Bridge_go (Some (length xss)) (Some (Suc (length xss))) Bridge_select, Consume (Some (Suc (length xss))) out]\<rparr>"
        using assms range gone by (auto simp: sched)
      show ?thesis
        by (intro low[OF Bridge_inv.selecting[where j = "Suc j"]])
          (use assms s' range gone in \<open>auto\<close>)
    next
      case select
      have "(ys = [] \<and> s' = s\<lparr>pool := [Bridge_go (Some (length xss)) (Some (Suc (length xss))) (Bridge_range (Some (length xss + 2 + j))),
          Consume (Some (Suc (length xss))) (out),
          OrDone_go (Some j) (Some (length xss + 2 + j)) (OrDone_return)]\<rparr>)
        \<or> (\<exists>y' ys'. ys = y' # ys' \<and> s' = s\<lparr>heap := (heap s)(j \<mapsto> \<lparr>buf = ys', cap = length (xss ! j), closed = True\<rparr>), pool := [Bridge_go (Some (length xss)) (Some (Suc (length xss))) (Bridge_range (Some (length xss + 2 + j))),
          Consume (Some (Suc (length xss))) (out),
          OrDone_go (Some j) (Some (length xss + 2 + j)) (OrDone_forward y')]\<rparr>)"
        using assms range select ne by (cases ys) (auto simp: sched)
      then show ?thesis
      proof (elim disjE conjE exE)
        assume "ys = []" "s' = s\<lparr>pool := [Bridge_go (Some (length xss)) (Some (Suc (length xss))) (Bridge_range (Some (length xss + 2 + j))),
          Consume (Some (Suc (length xss))) (out),
          OrDone_go (Some j) (Some (length xss + 2 + j)) (OrDone_return)]\<rparr>"
        then show ?thesis
          by (intro low[OF Bridge_inv.draining[where j = j and ys = "[]" and od = "Some (OrDone_return)"
                  and bpc = "Bridge_range (Some (length xss + 2 + j))" and out = "out"]])
            (use assms range select in \<open>auto\<close>)
      next
        fix y' ys'
        assume "ys = y' # ys'" "s' = s\<lparr>heap := (heap s)(j \<mapsto> \<lparr>buf = ys', cap = length (xss ! j), closed = True\<rparr>), pool := [Bridge_go (Some (length xss)) (Some (Suc (length xss))) (Bridge_range (Some (length xss + 2 + j))),
          Consume (Some (Suc (length xss))) (out),
          OrDone_go (Some j) (Some (length xss + 2 + j)) (OrDone_forward y')]\<rparr>"
        then show ?thesis
          by (intro low[OF Bridge_inv.draining[where j = j and ys = "ys'" and od = "Some (OrDone_forward y')"
                  and bpc = "Bridge_range (Some (length xss + 2 + j))" and out = "out"]])
            (use assms range select in \<open>auto\<close>)
      qed
    next
      case forward'
      have s1: "s' = s\<lparr>pool := [Bridge_go (Some (length xss)) (Some (Suc (length xss))) (Bridge_forward (Some (length xss + 2 + j)) w),
          Consume (Some (Suc (length xss))) (out),
          OrDone_go (Some j) (Some (length xss + 2 + j)) (OrDone_select)]\<rparr>"
        using assms range forward' ne by (auto simp: sched)
      show ?thesis
        by (intro low[OF Bridge_inv.draining[where j = j and ys = "ys" and od = "Some (OrDone_select)"
                and bpc = "Bridge_forward (Some (length xss + 2 + j)) w" and out = "out"]])
          (use s1 assms range forward' in \<open>auto\<close>)
    next
      case return
      have s1: "s' = s\<lparr>heap := (heap s)((length xss + 2 + j) \<mapsto> \<lparr>buf = [], cap = 0, closed = True\<rparr>), pool := [Bridge_go (Some (length xss)) (Some (Suc (length xss))) (Bridge_range (Some (length xss + 2 + j))),
          Consume (Some (Suc (length xss))) (out)]\<rparr>"
        using assms range return ne by (auto simp: sched)
      show ?thesis
        by (intro low[OF Bridge_inv.draining[where j = j and ys = "ys" and od = "None"
                and bpc = "Bridge_range (Some (length xss + 2 + j))" and out = "out"]])
          (use s1 assms range return in \<open>auto\<close>)
    qed
  next
    case forward
    consider (gone) "od = None" | (select) "od = Some OrDone_select"
      | (forward') w where "od = Some (OrDone_forward w)" | (return) "od = Some OrDone_return"
      by (cases od rule: od_rank.cases) auto
    then show ?thesis
    proof cases
      case gone
      have s1: "s' = s\<lparr>pool := [Bridge_go (Some (length xss)) (Some (Suc (length xss))) (Bridge_range (Some (length xss + 2 + j))),
          Consume (Some (Suc (length xss))) (out @ [y])]\<rparr>"
        using assms forward gone ne by (auto simp: sched)
      show ?thesis
        by (intro low[OF Bridge_inv.draining[where j = j and ys = "ys" and od = "None"
                and bpc = "Bridge_range (Some (length xss + 2 + j))" and out = "out @ [y]"]])
          (use s1 assms forward gone in \<open>auto\<close>)
    next
      case select
      have "s' = s\<lparr>pool := [Bridge_go (Some (length xss)) (Some (Suc (length xss))) (Bridge_range (Some (length xss + 2 + j))),
          Consume (Some (Suc (length xss))) (out @ [y]),
          OrDone_go (Some j) (Some (length xss + 2 + j)) (OrDone_select)]\<rparr>
        \<or> (ys = [] \<and> s' = s\<lparr>pool := [Bridge_go (Some (length xss)) (Some (Suc (length xss))) (Bridge_forward (Some (length xss + 2 + j)) y),
          Consume (Some (Suc (length xss))) (out),
          OrDone_go (Some j) (Some (length xss + 2 + j)) (OrDone_return)]\<rparr>)
        \<or> (\<exists>y' ys'. ys = y' # ys' \<and> s' = s\<lparr>heap := (heap s)(j \<mapsto> \<lparr>buf = ys', cap = length (xss ! j), closed = True\<rparr>), pool := [Bridge_go (Some (length xss)) (Some (Suc (length xss))) (Bridge_forward (Some (length xss + 2 + j)) y),
          Consume (Some (Suc (length xss))) (out),
          OrDone_go (Some j) (Some (length xss + 2 + j)) (OrDone_forward y')]\<rparr>)"
        using assms forward select ne by (cases ys) (auto simp: sched)
      then show ?thesis
      proof (elim disjE conjE exE)
        assume "s' = s\<lparr>pool := [Bridge_go (Some (length xss)) (Some (Suc (length xss))) (Bridge_range (Some (length xss + 2 + j))),
          Consume (Some (Suc (length xss))) (out @ [y]),
          OrDone_go (Some j) (Some (length xss + 2 + j)) (OrDone_select)]\<rparr>"
        then show ?thesis
          by (intro low[OF Bridge_inv.draining[where j = j and ys = "ys" and od = "Some (OrDone_select)"
                  and bpc = "Bridge_range (Some (length xss + 2 + j))" and out = "out @ [y]"]])
            (use assms forward select in \<open>auto\<close>)
      next
        assume "ys = []" "s' = s\<lparr>pool := [Bridge_go (Some (length xss)) (Some (Suc (length xss))) (Bridge_forward (Some (length xss + 2 + j)) y),
          Consume (Some (Suc (length xss))) (out),
          OrDone_go (Some j) (Some (length xss + 2 + j)) (OrDone_return)]\<rparr>"
        then show ?thesis
          by (intro low[OF Bridge_inv.draining[where j = j and ys = "[]" and od = "Some (OrDone_return)"
                  and bpc = "Bridge_forward (Some (length xss + 2 + j)) y" and out = "out"]])
            (use assms forward select in \<open>auto\<close>)
      next
        fix y' ys'
        assume "ys = y' # ys'" "s' = s\<lparr>heap := (heap s)(j \<mapsto> \<lparr>buf = ys', cap = length (xss ! j), closed = True\<rparr>), pool := [Bridge_go (Some (length xss)) (Some (Suc (length xss))) (Bridge_forward (Some (length xss + 2 + j)) y),
          Consume (Some (Suc (length xss))) (out),
          OrDone_go (Some j) (Some (length xss + 2 + j)) (OrDone_forward y')]\<rparr>"
        then show ?thesis
          by (intro low[OF Bridge_inv.draining[where j = j and ys = "ys'" and od = "Some (OrDone_forward y')"
                  and bpc = "Bridge_forward (Some (length xss + 2 + j)) y" and out = "out"]])
            (use assms forward select in \<open>auto\<close>)
      qed
    next
      case forward'
      have s1: "s' = s\<lparr>pool := [Bridge_go (Some (length xss)) (Some (Suc (length xss))) (Bridge_range (Some (length xss + 2 + j))),
          Consume (Some (Suc (length xss))) (out @ [y]),
          OrDone_go (Some j) (Some (length xss + 2 + j)) (OrDone_forward w)]\<rparr>"
        using assms forward forward' ne by (auto simp: sched)
      show ?thesis
        by (intro low[OF Bridge_inv.draining[where j = j and ys = "ys" and od = "Some (OrDone_forward w)"
                and bpc = "Bridge_range (Some (length xss + 2 + j))" and out = "out @ [y]"]])
          (use s1 assms forward forward' in \<open>auto\<close>)
    next
      case return
      have "s' = s\<lparr>pool := [Bridge_go (Some (length xss)) (Some (Suc (length xss))) (Bridge_range (Some (length xss + 2 + j))),
          Consume (Some (Suc (length xss))) (out @ [y]),
          OrDone_go (Some j) (Some (length xss + 2 + j)) (OrDone_return)]\<rparr>
        \<or> s' = s\<lparr>heap := (heap s)((length xss + 2 + j) \<mapsto> \<lparr>buf = [], cap = 0, closed = True\<rparr>), pool := [Bridge_go (Some (length xss)) (Some (Suc (length xss))) (Bridge_forward (Some (length xss + 2 + j)) y),
          Consume (Some (Suc (length xss))) (out)]\<rparr>"
        using assms forward return ne by (auto simp: sched)
      then show ?thesis
      proof (elim disjE conjE exE)
        assume "s' = s\<lparr>pool := [Bridge_go (Some (length xss)) (Some (Suc (length xss))) (Bridge_range (Some (length xss + 2 + j))),
          Consume (Some (Suc (length xss))) (out @ [y]),
          OrDone_go (Some j) (Some (length xss + 2 + j)) (OrDone_return)]\<rparr>"
        then show ?thesis
          by (intro low[OF Bridge_inv.draining[where j = j and ys = "ys" and od = "Some (OrDone_return)"
                  and bpc = "Bridge_range (Some (length xss + 2 + j))" and out = "out @ [y]"]])
            (use assms forward return in \<open>auto\<close>)
      next
        assume "s' = s\<lparr>heap := (heap s)((length xss + 2 + j) \<mapsto> \<lparr>buf = [], cap = 0, closed = True\<rparr>), pool := [Bridge_go (Some (length xss)) (Some (Suc (length xss))) (Bridge_forward (Some (length xss + 2 + j)) y),
          Consume (Some (Suc (length xss))) (out)]\<rparr>"
        then show ?thesis
          by (intro low[OF Bridge_inv.draining[where j = j and ys = "ys" and od = "None"
                  and bpc = "Bridge_forward (Some (length xss + 2 + j)) y" and out = "out"]])
            (use assms forward return in \<open>auto\<close>)
      qed
    qed
  qed
qed


lemma Bridge_inv_step:
  assumes "Bridge_inv xss n s" "s' \<in> set (succs s)"
  shows "\<exists>n'<n. Bridge_inv xss n' s'"
  using assms(1)
proof (cases rule: Bridge_inv.cases)
  case (selecting j)
  then show ?thesis using Bridge_inv_step_selecting[of s j xss s'] assms(2) by simp
next
  case (calling j)
  then show ?thesis using Bridge_inv_step_calling[of s j xss s'] assms(2) by simp
next
  case (draining j ys od bpc out)
  then show ?thesis using Bridge_inv_step_draining[of s j xss ys od bpc out s'] assms(2) by simp
next
  case returning
  have s1: "s' = s\<lparr>heap := (heap s)(Suc (length xss) \<mapsto> \<lparr>buf = [], cap = 0, closed = True\<rparr>),
      pool := [Consume (Some (Suc (length xss))) (concat xss)]\<rparr>"
    using returning assms(2) by (auto simp: sched)
  show ?thesis
    by (intro lowerI[where I = "Bridge_inv xss", OF Bridge_inv.closing])
      (use s1 returning in auto)
next
  case closing
  have s1: "s' = s\<lparr>pool := [Consumed (Some (Suc (length xss))) (concat xss)]\<rparr>"
    using closing assms(2) by (auto simp: sched)
  show ?thesis
    by (intro lowerI[where I = "Bridge_inv xss", OF Bridge_inv.finished])
      (use s1 closing in auto)
next
  case finished
  then show ?thesis using assms(2) by (simp add: sched)
qed

lemma Bridge_inv_stuck:
  assumes "Bridge_inv xss n s" "succs s = []"
  shows "delivered (Some (Suc (length xss))) (concat xss) s"
  using assms(1)
proof (cases rule: Bridge_inv.cases)
  case (selecting j)
  then have "succs s \<noteq> []"
    by (cases "j < length xss") (simp_all add: sched upt_conv_Cons)
  then show ?thesis using assms(2) by simp
next
  case (calling j)
  then have "succs s \<noteq> []" by (simp add: sched OrDone_def make_chan_def go_def)
  then show ?thesis using assms(2) by simp
next
  case (draining j ys od bpc out)
  have ne: "j \<noteq> length xss" "j \<noteq> Suc (length xss)" "j \<noteq> length xss + 2 + j"
    using draining(4) by simp_all
  have "succs s \<noteq> []"
    using draining ne
    by (cases od rule: od_rank.cases; cases bpc; cases ys) (simp_all add: sched)
  then show ?thesis using assms(2) by simp
next
  case returning
  then have "succs s \<noteq> []" by (simp add: sched)
  then show ?thesis using assms(2) by simp
next
  case closing
  then have "succs s \<noteq> []" by (simp add: sched)
  then show ?thesis using assms(2) by simp
next
  case finished
  then show ?thesis by (simp add: delivered_def)
qed

lemma fresh_sources: "fresh (snd (sources xss s)) = fresh s + length xss"
  by (induction xss arbitrary: s) (simp_all add: source_def split_def Let_def)

lemma upt_add_Suc: "[i..<Suc (i + n)] = i # [Suc i..<Suc (i + n)]"
  by (simp add: upt_conv_Cons)

lemma fst_sources: "fst (sources xss s) = map Some [fresh s..<fresh s + length xss]"
  by (induction xss arbitrary: s)
    (simp_all add: source_def split_def Let_def upt_add_Suc del: upt_Suc)

lemma rest_sources:
  "pool (snd (sources xss s)) = pool s \<and> cancelled (snd (sources xss s)) = cancelled s \<and>
   panicked (snd (sources xss s)) = panicked s"
  by (induction xss arbitrary: s) (simp_all add: source_def split_def Let_def)

lemma heap_sources:
  "heap (snd (sources xss s)) i =
     (if fresh s \<le> i \<and> i < fresh s + length xss
      then Some \<lparr>buf = xss ! (i - fresh s), cap = length (xss ! (i - fresh s)), closed = True\<rparr>
      else heap s i)"
proof (induction xss arbitrary: s)
  case Nil
  show ?case by auto
next
  case (Cons xs xss)
  have "i - fresh s = Suc (i - Suc (fresh s))" if "fresh s < i"
    using that by simp
  then show ?case
    using Cons[of "snd (source xs s)"]
    by (auto simp: source_def split_def Let_def)
qed

lemma Bridge_program_eq:
  "Bridge_program xss =
     (Some (Suc (length xss)),
      (snd (sources xss boot))
        \<lparr>heap := (heap (snd (sources xss boot)))
           (length xss \<mapsto> \<lparr>buf = map (\<lambda>i. Chan (Some i)) [0..<length xss], cap = length xss,
                              closed = True\<rparr>,
            Suc (length xss) \<mapsto> \<lparr>buf = [], cap = 0, closed = False\<rparr>),
         fresh := Suc (Suc (length xss)),
         pool := [Bridge_go (Some (length xss)) (Some (Suc (length xss))) Bridge_select,
                  Consume (Some (Suc (length xss))) []]\<rparr>)"
proof -
  have f0: "fresh (boot :: 'a state) = 0" "pool (boot :: 'a state) = []" by (simp_all add: boot_def)
  show ?thesis
    using fresh_sources[of xss boot] fst_sources[of xss boot] rest_sources[of xss boot] f0
    by (simp add: Bridge_program_def Bridge_def source_def make_chan_def go_def split_def comp_def
        Let_def)
qed

lemma Bridge_inv_start: "\<exists>n. Bridge_inv xss n (snd (Bridge_program xss))"
proof -
  have f0: "fresh (boot :: 'a state) = 0" "\<not> cancelled (boot :: 'a state)" "\<not> panicked (boot :: 'a state)"
    by (simp_all add: boot_def)
  show ?thesis
    by (rule exI, rule Bridge_inv.selecting[where j = 0])
      (use f0 rest_sources[of xss boot] in \<open>simp_all add: Bridge_program_eq heap_sources\<close>)
qed

lemma fst_Bridge_program: "fst (Bridge_program xss) = Some (Suc (length xss))"
  by (simp add: Bridge_program_eq)

lemma Bridge_program_delivers:
  "inevitably (delivered (fst (Bridge_program xss)) (concat xss)) (snd (Bridge_program xss))"
proof -
  obtain n0 where "Bridge_inv xss n0 (snd (Bridge_program xss))"
    using Bridge_inv_start by blast
  then show ?thesis
    unfolding fst_Bridge_program
    by (rule inevitably_ranked[where I = "Bridge_inv xss", OF _ Bridge_inv_step Bridge_inv_stuck])
qed

subsection \<open>The outer stream fed by \<open>genVals\<close> while \<open>Bridge\<close> runs\<close>

lemma gen_cases:
  obtains (g_nil) "g = Gen_make []" | (g_cons) zs it where "g = Gen_make (zs # it)"
    | (g_hand) c' zs it where "g = Gen_hand c' zs it" | (g_gone) "g = Gen_gone"
proof (cases g)
  case (Gen_make it)
  then show ?thesis using g_nil g_cons by (cases it) auto
qed (use g_hand g_gone in auto)

lemma genVals_inv_step_selecting:
  assumes "\<not> cancelled s" "\<not> panicked s"
    "heap s 1 = Some \<lparr>buf = [], cap = 0, closed = False\<rparr>"
    "gen_ok s {} g" "1 < fresh s"
    "pool s = gen_pool g @ [Bridge_go (Some 0) (Some 1) Bridge_select, Consume (Some 1) out]"
    "out @ gen_rest g = concat items"
    "s' \<in> set (succs s)"
  shows "\<exists>n'<gen_rank g + 3. genVals_inv items n' s'"
proof -
  note low = lowerI[where I = "genVals_inv items" and s' = s' and n = "gen_rank g + 3"]
  show ?thesis
  proof (cases g rule: gen_cases)
    case g_nil
    have s1: "s' = s\<lparr>heap := (heap s)(0 \<mapsto> \<lparr>buf = [], cap = 0, closed = True\<rparr>), pool := [Bridge_go (Some 0) (Some 1) (Bridge_select),
          Consume (Some 1) (out)]\<rparr>"
      using assms g_nil by (auto simp: sched OrDone_def make_chan_def go_def source_def)
    show ?thesis
      by (intro low[OF genVals_inv.selecting[where g = "Gen_gone" and out = "out"]])
        (use s1 assms g_nil in \<open>auto\<close>)
  next
    case (g_cons zs it)
    have s1: "s' = s\<lparr>heap := (heap s)(fresh s \<mapsto> \<lparr>buf = zs, cap = length zs, closed = True\<rparr>), fresh := Suc (fresh s), pool := [genVals_go (Some 0) (it) (Some (Some (fresh s))),
          Bridge_go (Some 0) (Some 1) (Bridge_select),
          Consume (Some 1) (out)]\<rparr>"
      using assms g_cons by (auto simp: sched OrDone_def make_chan_def go_def source_def)
    show ?thesis
      by (intro low[OF genVals_inv.selecting[where g = "Gen_hand (fresh s) zs (it)" and out = "out"]])
        (use s1 assms g_cons in \<open>auto\<close>)
  next
    case (g_hand c' zs it)
    have s1: "s' = s\<lparr>pool := [genVals_go (Some 0) (it) None,
          Bridge_go (Some 0) (Some 1) (Bridge_call (Some c')),
          Consume (Some 1) (out)]\<rparr>"
      using assms g_hand by (auto simp: sched OrDone_def make_chan_def go_def source_def)
    show ?thesis
      by (intro low[OF genVals_inv.calling[where g = "Gen_make it" and c = "c'" and ys = "zs" and kc = "length zs" and out = "out"]])
        (use s1 assms g_hand in \<open>auto\<close>)
  next
    case g_gone
    have s1: "s' = s\<lparr>pool := [Bridge_go (Some 0) (Some 1) Bridge_return, Consume (Some 1) out]\<rparr>"
      using assms g_gone by (auto simp: sched OrDone_def make_chan_def go_def source_def)
    show ?thesis
      by (intro low[OF genVals_inv.returning])
        (use s1 assms g_gone in \<open>auto\<close>)
  qed
qed

lemma genVals_inv_step_calling:
  assumes "\<not> cancelled s" "\<not> panicked s"
    "heap s 1 = Some \<lparr>buf = [], cap = 0, closed = False\<rparr>"
    "heap s c = Some \<lparr>buf = ys, cap = kc, closed = True\<rparr>"
    "1 < c" "c < fresh s" "gen_ok s {c} g"
    "pool s = gen_pool g @ [Bridge_go (Some 0) (Some 1) (Bridge_call (Some c)),
                            Consume (Some 1) out]"
    "out @ ys @ gen_rest g = concat items"
    "s' \<in> set (succs s)"
  shows "\<exists>n'<gen_rank g + 3 * length ys + 8. genVals_inv items n' s'"
proof -
  note low = lowerI[where I = "genVals_inv items" and s' = s'
      and n = "gen_rank g + 3 * length ys + 8"]
  show ?thesis
  proof (cases g rule: gen_cases)
    case g_nil
    have "s' = s\<lparr>heap := (heap s)(fresh s \<mapsto> \<lparr>buf = [], cap = 0, closed = False\<rparr>), fresh := Suc (fresh s), pool := [genVals_go (Some 0) ([]) None,
          Bridge_go (Some 0) (Some 1) (Bridge_range (Some (fresh s))),
          Consume (Some 1) (out),
          OrDone_go (Some c) (Some (fresh s)) (OrDone_select)]\<rparr>
      \<or> s' = s\<lparr>heap := (heap s)(0 \<mapsto> \<lparr>buf = [], cap = 0, closed = True\<rparr>), pool := [Bridge_go (Some 0) (Some 1) (Bridge_call (Some c)),
          Consume (Some 1) (out)]\<rparr>"
      using assms g_nil by (auto simp: sched OrDone_def make_chan_def go_def source_def)
    then show ?thesis
    proof (elim disjE conjE exE)
      assume "s' = s\<lparr>heap := (heap s)(fresh s \<mapsto> \<lparr>buf = [], cap = 0, closed = False\<rparr>), fresh := Suc (fresh s), pool := [genVals_go (Some 0) ([]) None,
          Bridge_go (Some 0) (Some 1) (Bridge_range (Some (fresh s))),
          Consume (Some 1) (out),
          OrDone_go (Some c) (Some (fresh s)) (OrDone_select)]\<rparr>"
      then show ?thesis
        by (intro low[OF genVals_inv.draining[where g = "Gen_make []" and c = "c" and v = "fresh s" and kc = "kc" and ys = "ys"
                  and od = "Some (OrDone_select)" and bpc = "Bridge_range (Some (fresh s))" and out = "out"]])
          (use assms g_nil in \<open>auto\<close>)
    next
      assume "s' = s\<lparr>heap := (heap s)(0 \<mapsto> \<lparr>buf = [], cap = 0, closed = True\<rparr>), pool := [Bridge_go (Some 0) (Some 1) (Bridge_call (Some c)),
          Consume (Some 1) (out)]\<rparr>"
      then show ?thesis
        by (intro low[OF genVals_inv.calling[where g = "Gen_gone" and c = "c" and ys = "ys" and kc = "kc" and out = "out"]])
          (use assms g_nil in \<open>auto\<close>)
    qed
  next
    case (g_cons zs it)
    have "s' = s\<lparr>heap := (heap s)(fresh s \<mapsto> \<lparr>buf = [], cap = 0, closed = False\<rparr>), fresh := Suc (fresh s), pool := [genVals_go (Some 0) (zs # it) None,
          Bridge_go (Some 0) (Some 1) (Bridge_range (Some (fresh s))),
          Consume (Some 1) (out),
          OrDone_go (Some c) (Some (fresh s)) (OrDone_select)]\<rparr>
      \<or> s' = s\<lparr>heap := (heap s)(fresh s \<mapsto> \<lparr>buf = zs, cap = length zs, closed = True\<rparr>), fresh := Suc (fresh s), pool := [genVals_go (Some 0) (it) (Some (Some (fresh s))),
          Bridge_go (Some 0) (Some 1) (Bridge_call (Some c)),
          Consume (Some 1) (out)]\<rparr>"
      using assms g_cons by (auto simp: sched OrDone_def make_chan_def go_def source_def)
    then show ?thesis
    proof (elim disjE conjE exE)
      assume "s' = s\<lparr>heap := (heap s)(fresh s \<mapsto> \<lparr>buf = [], cap = 0, closed = False\<rparr>), fresh := Suc (fresh s), pool := [genVals_go (Some 0) (zs # it) None,
          Bridge_go (Some 0) (Some 1) (Bridge_range (Some (fresh s))),
          Consume (Some 1) (out),
          OrDone_go (Some c) (Some (fresh s)) (OrDone_select)]\<rparr>"
      then show ?thesis
        by (intro low[OF genVals_inv.draining[where g = "Gen_make (zs # it)" and c = "c" and v = "fresh s" and kc = "kc" and ys = "ys"
                  and od = "Some (OrDone_select)" and bpc = "Bridge_range (Some (fresh s))" and out = "out"]])
          (use assms g_cons in \<open>auto\<close>)
    next
      assume "s' = s\<lparr>heap := (heap s)(fresh s \<mapsto> \<lparr>buf = zs, cap = length zs, closed = True\<rparr>), fresh := Suc (fresh s), pool := [genVals_go (Some 0) (it) (Some (Some (fresh s))),
          Bridge_go (Some 0) (Some 1) (Bridge_call (Some c)),
          Consume (Some 1) (out)]\<rparr>"
      then show ?thesis
        by (intro low[OF genVals_inv.calling[where g = "Gen_hand (fresh s) zs (it)" and c = "c" and ys = "ys" and kc = "kc" and out = "out"]])
          (use assms g_cons in \<open>auto\<close>)
    qed
  next
    case (g_hand c' zs it)
    have s1: "s' = s\<lparr>heap := (heap s)(fresh s \<mapsto> \<lparr>buf = [], cap = 0, closed = False\<rparr>), fresh := Suc (fresh s), pool := [genVals_go (Some 0) (it) (Some (Some (c'))),
          Bridge_go (Some 0) (Some 1) (Bridge_range (Some (fresh s))),
          Consume (Some 1) (out),
          OrDone_go (Some c) (Some (fresh s)) (OrDone_select)]\<rparr>"
      using assms g_hand by (auto simp: sched OrDone_def make_chan_def go_def source_def)
    show ?thesis
      by (intro low[OF genVals_inv.draining[where g = "Gen_hand c' zs it" and c = "c" and v = "fresh s" and kc = "kc" and ys = "ys"
                  and od = "Some (OrDone_select)" and bpc = "Bridge_range (Some (fresh s))" and out = "out"]])
        (use s1 assms g_hand in \<open>auto\<close>)
  next
    case g_gone
    have s1: "s' = s\<lparr>heap := (heap s)(fresh s \<mapsto> \<lparr>buf = [], cap = 0, closed = False\<rparr>), fresh := Suc (fresh s), pool := [Bridge_go (Some 0) (Some 1) (Bridge_range (Some (fresh s))),
          Consume (Some 1) (out),
          OrDone_go (Some c) (Some (fresh s)) (OrDone_select)]\<rparr>"
      using assms g_gone by (auto simp: sched OrDone_def make_chan_def go_def source_def)
    show ?thesis
      by (intro low[OF genVals_inv.draining[where g = "Gen_gone" and c = "c" and v = "fresh s" and kc = "kc" and ys = "ys"
                  and od = "Some (OrDone_select)" and bpc = "Bridge_range (Some (fresh s))" and out = "out"]])
        (use s1 assms g_gone in \<open>auto\<close>)
  qed
qed

lemma genVals_inv_step_draining:
  assumes "\<not> cancelled s" "\<not> panicked s"
    "heap s 1 = Some \<lparr>buf = [], cap = 0, closed = False\<rparr>"
    "heap s c = Some \<lparr>buf = ys, cap = kc, closed = True\<rparr>"
    "heap s v = Some \<lparr>buf = [], cap = 0, closed = (od = None)\<rparr>"
    "1 < c" "c < fresh s" "1 < v" "v < fresh s" "c \<noteq> v"
    "gen_ok s {c, v} g" "od_drained od \<Longrightarrow> ys = []"
    "pool s = gen_pool g @ [Bridge_go (Some 0) (Some 1) bpc, Consume (Some 1) out]
              @ od_pool (Some c) (Some v) od"
    "bridge_reads (Some v) bpc"
    "out @ bridge_holds bpc @ od_holds od @ ys @ gen_rest g = concat items"
    "s' \<in> set (succs s)"
  shows "\<exists>n'<gen_rank g + 3 * length ys + 3 + bridge_rank bpc + od_rank od. genVals_inv items n' s'"
proof -
  note low = lowerI[where I = "genVals_inv items" and s' = s'
      and n = "gen_rank g + 3 * length ys + 3 + bridge_rank bpc + od_rank od"]
  consider (range) "bpc = Bridge_range (Some v)"
    | (forward) y where "bpc = Bridge_forward (Some v) y"
    using assms(14) by (cases bpc) auto
  then show ?thesis
  proof cases
    case range
    consider (gone) "od = None" | (select) "od = Some OrDone_select"
      | (forward') w where "od = Some (OrDone_forward w)" | (return) "od = Some OrDone_return"
      by (cases od rule: od_rank.cases) auto
    then show ?thesis
    proof cases
      case gone
      show ?thesis
      proof (cases g rule: gen_cases)
        case g_nil
        have "s' = s\<lparr>pool := [genVals_go (Some 0) ([]) None,
          Bridge_go (Some 0) (Some 1) (Bridge_select),
          Consume (Some 1) (out)]\<rparr>
          \<or> s' = s\<lparr>heap := (heap s)(0 \<mapsto> \<lparr>buf = [], cap = 0, closed = True\<rparr>), pool := [Bridge_go (Some 0) (Some 1) (Bridge_range (Some v)),
          Consume (Some 1) (out)]\<rparr>"
          using assms range gone g_nil by (auto simp: sched OrDone_def make_chan_def go_def source_def)
        then show ?thesis
        proof (elim disjE conjE exE)
          assume "s' = s\<lparr>pool := [genVals_go (Some 0) ([]) None,
          Bridge_go (Some 0) (Some 1) (Bridge_select),
          Consume (Some 1) (out)]\<rparr>"
          then show ?thesis
            by (intro low[OF genVals_inv.selecting[where g = "Gen_make []" and out = "out"]])
              (use assms range gone g_nil in \<open>auto\<close>)
        next
          assume "s' = s\<lparr>heap := (heap s)(0 \<mapsto> \<lparr>buf = [], cap = 0, closed = True\<rparr>), pool := [Bridge_go (Some 0) (Some 1) (Bridge_range (Some v)),
          Consume (Some 1) (out)]\<rparr>"
          then show ?thesis
            by (intro low[OF genVals_inv.draining[where g = "Gen_gone" and c = "c" and v = "v" and kc = "kc" and ys = "ys"
                  and od = "None" and bpc = "Bridge_range (Some v)" and out = "out"]])
              (use assms range gone g_nil in \<open>auto\<close>)
        qed
      next
        case (g_cons zs it)
        have "s' = s\<lparr>pool := [genVals_go (Some 0) (zs # it) None,
          Bridge_go (Some 0) (Some 1) (Bridge_select),
          Consume (Some 1) (out)]\<rparr>
          \<or> s' = s\<lparr>heap := (heap s)(fresh s \<mapsto> \<lparr>buf = zs, cap = length zs, closed = True\<rparr>), fresh := Suc (fresh s), pool := [genVals_go (Some 0) (it) (Some (Some (fresh s))),
          Bridge_go (Some 0) (Some 1) (Bridge_range (Some v)),
          Consume (Some 1) (out)]\<rparr>"
          using assms range gone g_cons by (auto simp: sched OrDone_def make_chan_def go_def source_def)
        then show ?thesis
        proof (elim disjE conjE exE)
          assume "s' = s\<lparr>pool := [genVals_go (Some 0) (zs # it) None,
          Bridge_go (Some 0) (Some 1) (Bridge_select),
          Consume (Some 1) (out)]\<rparr>"
          then show ?thesis
            by (intro low[OF genVals_inv.selecting[where g = "Gen_make (zs # it)" and out = "out"]])
              (use assms range gone g_cons in \<open>auto\<close>)
        next
          assume "s' = s\<lparr>heap := (heap s)(fresh s \<mapsto> \<lparr>buf = zs, cap = length zs, closed = True\<rparr>), fresh := Suc (fresh s), pool := [genVals_go (Some 0) (it) (Some (Some (fresh s))),
          Bridge_go (Some 0) (Some 1) (Bridge_range (Some v)),
          Consume (Some 1) (out)]\<rparr>"
          then show ?thesis
            by (intro low[OF genVals_inv.draining[where g = "Gen_hand (fresh s) zs (it)" and c = "c" and v = "v" and kc = "kc" and ys = "ys"
                  and od = "None" and bpc = "Bridge_range (Some v)" and out = "out"]])
              (use assms range gone g_cons in \<open>auto\<close>)
        qed
      next
        case (g_hand c' zs it)
        have s1: "s' = s\<lparr>pool := [genVals_go (Some 0) (it) (Some (Some (c'))),
          Bridge_go (Some 0) (Some 1) (Bridge_select),
          Consume (Some 1) (out)]\<rparr>"
          using assms range gone g_hand by (auto simp: sched OrDone_def make_chan_def go_def source_def)
        show ?thesis
          by (intro low[OF genVals_inv.selecting[where g = "Gen_hand c' zs it" and out = "out"]])
            (use s1 assms range gone g_hand in \<open>auto\<close>)
      next
        case g_gone
        have s1: "s' = s\<lparr>pool := [Bridge_go (Some 0) (Some 1) (Bridge_select),
          Consume (Some 1) (out)]\<rparr>"
          using assms range gone g_gone by (auto simp: sched OrDone_def make_chan_def go_def source_def)
        show ?thesis
          by (intro low[OF genVals_inv.selecting[where g = "Gen_gone" and out = "out"]])
            (use s1 assms range gone g_gone in \<open>auto\<close>)
      qed
    next
      case select
      show ?thesis
      proof (cases g rule: gen_cases)
        case g_nil
        have "(ys = [] \<and> s' = s\<lparr>pool := [genVals_go (Some 0) ([]) None,
          Bridge_go (Some 0) (Some 1) (Bridge_range (Some v)),
          Consume (Some 1) (out),
          OrDone_go (Some c) (Some v) (OrDone_return)]\<rparr>)
          \<or> (\<exists>y' ys'. ys = y' # ys' \<and> s' = s\<lparr>heap := (heap s)(c \<mapsto> \<lparr>buf = ys', cap = kc, closed = True\<rparr>), pool := [genVals_go (Some 0) ([]) None,
          Bridge_go (Some 0) (Some 1) (Bridge_range (Some v)),
          Consume (Some 1) (out),
          OrDone_go (Some c) (Some v) (OrDone_forward y')]\<rparr>)
          \<or> s' = s\<lparr>heap := (heap s)(0 \<mapsto> \<lparr>buf = [], cap = 0, closed = True\<rparr>), pool := [Bridge_go (Some 0) (Some 1) (Bridge_range (Some v)),
          Consume (Some 1) (out),
          OrDone_go (Some c) (Some v) (OrDone_select)]\<rparr>"
          using assms range select g_nil by (cases ys) (auto simp: sched OrDone_def make_chan_def go_def source_def)
        then show ?thesis
        proof (elim disjE conjE exE)
          assume "ys = []" "s' = s\<lparr>pool := [genVals_go (Some 0) ([]) None,
          Bridge_go (Some 0) (Some 1) (Bridge_range (Some v)),
          Consume (Some 1) (out),
          OrDone_go (Some c) (Some v) (OrDone_return)]\<rparr>"
          then show ?thesis
            by (intro low[OF genVals_inv.draining[where g = "Gen_make []" and c = "c" and v = "v" and kc = "kc" and ys = "[]"
                  and od = "Some (OrDone_return)" and bpc = "Bridge_range (Some v)" and out = "out"]])
              (use assms range select g_nil in \<open>auto\<close>)
        next
          fix y' ys'
          assume "ys = y' # ys'" "s' = s\<lparr>heap := (heap s)(c \<mapsto> \<lparr>buf = ys', cap = kc, closed = True\<rparr>), pool := [genVals_go (Some 0) ([]) None,
          Bridge_go (Some 0) (Some 1) (Bridge_range (Some v)),
          Consume (Some 1) (out),
          OrDone_go (Some c) (Some v) (OrDone_forward y')]\<rparr>"
          then show ?thesis
            by (intro low[OF genVals_inv.draining[where g = "Gen_make []" and c = "c" and v = "v" and kc = "kc" and ys = "ys'"
                  and od = "Some (OrDone_forward y')" and bpc = "Bridge_range (Some v)" and out = "out"]])
              (use assms range select g_nil in \<open>auto\<close>)
        next
          assume "s' = s\<lparr>heap := (heap s)(0 \<mapsto> \<lparr>buf = [], cap = 0, closed = True\<rparr>), pool := [Bridge_go (Some 0) (Some 1) (Bridge_range (Some v)),
          Consume (Some 1) (out),
          OrDone_go (Some c) (Some v) (OrDone_select)]\<rparr>"
          then show ?thesis
            by (intro low[OF genVals_inv.draining[where g = "Gen_gone" and c = "c" and v = "v" and kc = "kc" and ys = "ys"
                  and od = "Some (OrDone_select)" and bpc = "Bridge_range (Some v)" and out = "out"]])
              (use assms range select g_nil in \<open>auto\<close>)
        qed
      next
        case (g_cons zs it)
        have "(ys = [] \<and> s' = s\<lparr>pool := [genVals_go (Some 0) (zs # it) None,
          Bridge_go (Some 0) (Some 1) (Bridge_range (Some v)),
          Consume (Some 1) (out),
          OrDone_go (Some c) (Some v) (OrDone_return)]\<rparr>)
          \<or> (\<exists>y' ys'. ys = y' # ys' \<and> s' = s\<lparr>heap := (heap s)(c \<mapsto> \<lparr>buf = ys', cap = kc, closed = True\<rparr>), pool := [genVals_go (Some 0) (zs # it) None,
          Bridge_go (Some 0) (Some 1) (Bridge_range (Some v)),
          Consume (Some 1) (out),
          OrDone_go (Some c) (Some v) (OrDone_forward y')]\<rparr>)
          \<or> s' = s\<lparr>heap := (heap s)(fresh s \<mapsto> \<lparr>buf = zs, cap = length zs, closed = True\<rparr>), fresh := Suc (fresh s), pool := [genVals_go (Some 0) (it) (Some (Some (fresh s))),
          Bridge_go (Some 0) (Some 1) (Bridge_range (Some v)),
          Consume (Some 1) (out),
          OrDone_go (Some c) (Some v) (OrDone_select)]\<rparr>"
          using assms range select g_cons by (cases ys) (auto simp: sched OrDone_def make_chan_def go_def source_def)
        then show ?thesis
        proof (elim disjE conjE exE)
          assume "ys = []" "s' = s\<lparr>pool := [genVals_go (Some 0) (zs # it) None,
          Bridge_go (Some 0) (Some 1) (Bridge_range (Some v)),
          Consume (Some 1) (out),
          OrDone_go (Some c) (Some v) (OrDone_return)]\<rparr>"
          then show ?thesis
            by (intro low[OF genVals_inv.draining[where g = "Gen_make (zs # it)" and c = "c" and v = "v" and kc = "kc" and ys = "[]"
                  and od = "Some (OrDone_return)" and bpc = "Bridge_range (Some v)" and out = "out"]])
              (use assms range select g_cons in \<open>auto\<close>)
        next
          fix y' ys'
          assume "ys = y' # ys'" "s' = s\<lparr>heap := (heap s)(c \<mapsto> \<lparr>buf = ys', cap = kc, closed = True\<rparr>), pool := [genVals_go (Some 0) (zs # it) None,
          Bridge_go (Some 0) (Some 1) (Bridge_range (Some v)),
          Consume (Some 1) (out),
          OrDone_go (Some c) (Some v) (OrDone_forward y')]\<rparr>"
          then show ?thesis
            by (intro low[OF genVals_inv.draining[where g = "Gen_make (zs # it)" and c = "c" and v = "v" and kc = "kc" and ys = "ys'"
                  and od = "Some (OrDone_forward y')" and bpc = "Bridge_range (Some v)" and out = "out"]])
              (use assms range select g_cons in \<open>auto\<close>)
        next
          assume "s' = s\<lparr>heap := (heap s)(fresh s \<mapsto> \<lparr>buf = zs, cap = length zs, closed = True\<rparr>), fresh := Suc (fresh s), pool := [genVals_go (Some 0) (it) (Some (Some (fresh s))),
          Bridge_go (Some 0) (Some 1) (Bridge_range (Some v)),
          Consume (Some 1) (out),
          OrDone_go (Some c) (Some v) (OrDone_select)]\<rparr>"
          then show ?thesis
            by (intro low[OF genVals_inv.draining[where g = "Gen_hand (fresh s) zs (it)" and c = "c" and v = "v" and kc = "kc" and ys = "ys"
                  and od = "Some (OrDone_select)" and bpc = "Bridge_range (Some v)" and out = "out"]])
              (use assms range select g_cons in \<open>auto\<close>)
        qed
      next
        case (g_hand c' zs it)
        have "(ys = [] \<and> s' = s\<lparr>pool := [genVals_go (Some 0) (it) (Some (Some (c'))),
          Bridge_go (Some 0) (Some 1) (Bridge_range (Some v)),
          Consume (Some 1) (out),
          OrDone_go (Some c) (Some v) (OrDone_return)]\<rparr>)
          \<or> (\<exists>y' ys'. ys = y' # ys' \<and> s' = s\<lparr>heap := (heap s)(c \<mapsto> \<lparr>buf = ys', cap = kc, closed = True\<rparr>), pool := [genVals_go (Some 0) (it) (Some (Some (c'))),
          Bridge_go (Some 0) (Some 1) (Bridge_range (Some v)),
          Consume (Some 1) (out),
          OrDone_go (Some c) (Some v) (OrDone_forward y')]\<rparr>)"
          using assms range select g_hand by (cases ys) (auto simp: sched OrDone_def make_chan_def go_def source_def)
        then show ?thesis
        proof (elim disjE conjE exE)
          assume "ys = []" "s' = s\<lparr>pool := [genVals_go (Some 0) (it) (Some (Some (c'))),
          Bridge_go (Some 0) (Some 1) (Bridge_range (Some v)),
          Consume (Some 1) (out),
          OrDone_go (Some c) (Some v) (OrDone_return)]\<rparr>"
          then show ?thesis
            by (intro low[OF genVals_inv.draining[where g = "Gen_hand c' zs it" and c = "c" and v = "v" and kc = "kc" and ys = "[]"
                  and od = "Some (OrDone_return)" and bpc = "Bridge_range (Some v)" and out = "out"]])
              (use assms range select g_hand in \<open>auto\<close>)
        next
          fix y' ys'
          assume "ys = y' # ys'" "s' = s\<lparr>heap := (heap s)(c \<mapsto> \<lparr>buf = ys', cap = kc, closed = True\<rparr>), pool := [genVals_go (Some 0) (it) (Some (Some (c'))),
          Bridge_go (Some 0) (Some 1) (Bridge_range (Some v)),
          Consume (Some 1) (out),
          OrDone_go (Some c) (Some v) (OrDone_forward y')]\<rparr>"
          then show ?thesis
            by (intro low[OF genVals_inv.draining[where g = "Gen_hand c' zs it" and c = "c" and v = "v" and kc = "kc" and ys = "ys'"
                  and od = "Some (OrDone_forward y')" and bpc = "Bridge_range (Some v)" and out = "out"]])
              (use assms range select g_hand in \<open>auto\<close>)
        qed
      next
        case g_gone
        have "(ys = [] \<and> s' = s\<lparr>pool := [Bridge_go (Some 0) (Some 1) (Bridge_range (Some v)),
          Consume (Some 1) (out),
          OrDone_go (Some c) (Some v) (OrDone_return)]\<rparr>)
          \<or> (\<exists>y' ys'. ys = y' # ys' \<and> s' = s\<lparr>heap := (heap s)(c \<mapsto> \<lparr>buf = ys', cap = kc, closed = True\<rparr>), pool := [Bridge_go (Some 0) (Some 1) (Bridge_range (Some v)),
          Consume (Some 1) (out),
          OrDone_go (Some c) (Some v) (OrDone_forward y')]\<rparr>)"
          using assms range select g_gone by (cases ys) (auto simp: sched OrDone_def make_chan_def go_def source_def)
        then show ?thesis
        proof (elim disjE conjE exE)
          assume "ys = []" "s' = s\<lparr>pool := [Bridge_go (Some 0) (Some 1) (Bridge_range (Some v)),
          Consume (Some 1) (out),
          OrDone_go (Some c) (Some v) (OrDone_return)]\<rparr>"
          then show ?thesis
            by (intro low[OF genVals_inv.draining[where g = "Gen_gone" and c = "c" and v = "v" and kc = "kc" and ys = "[]"
                  and od = "Some (OrDone_return)" and bpc = "Bridge_range (Some v)" and out = "out"]])
              (use assms range select g_gone in \<open>auto\<close>)
        next
          fix y' ys'
          assume "ys = y' # ys'" "s' = s\<lparr>heap := (heap s)(c \<mapsto> \<lparr>buf = ys', cap = kc, closed = True\<rparr>), pool := [Bridge_go (Some 0) (Some 1) (Bridge_range (Some v)),
          Consume (Some 1) (out),
          OrDone_go (Some c) (Some v) (OrDone_forward y')]\<rparr>"
          then show ?thesis
            by (intro low[OF genVals_inv.draining[where g = "Gen_gone" and c = "c" and v = "v" and kc = "kc" and ys = "ys'"
                  and od = "Some (OrDone_forward y')" and bpc = "Bridge_range (Some v)" and out = "out"]])
              (use assms range select g_gone in \<open>auto\<close>)
        qed
      qed
    next
      case forward'
      show ?thesis
      proof (cases g rule: gen_cases)
        case g_nil
        have "s' = s\<lparr>pool := [genVals_go (Some 0) ([]) None,
          Bridge_go (Some 0) (Some 1) (Bridge_forward (Some v) w),
          Consume (Some 1) (out),
          OrDone_go (Some c) (Some v) (OrDone_select)]\<rparr>
          \<or> s' = s\<lparr>heap := (heap s)(0 \<mapsto> \<lparr>buf = [], cap = 0, closed = True\<rparr>), pool := [Bridge_go (Some 0) (Some 1) (Bridge_range (Some v)),
          Consume (Some 1) (out),
          OrDone_go (Some c) (Some v) (OrDone_forward w)]\<rparr>"
          using assms range forward' g_nil by (auto simp: sched OrDone_def make_chan_def go_def source_def)
        then show ?thesis
        proof (elim disjE conjE exE)
          assume "s' = s\<lparr>pool := [genVals_go (Some 0) ([]) None,
          Bridge_go (Some 0) (Some 1) (Bridge_forward (Some v) w),
          Consume (Some 1) (out),
          OrDone_go (Some c) (Some v) (OrDone_select)]\<rparr>"
          then show ?thesis
            by (intro low[OF genVals_inv.draining[where g = "Gen_make []" and c = "c" and v = "v" and kc = "kc" and ys = "ys"
                  and od = "Some (OrDone_select)" and bpc = "Bridge_forward (Some v) w" and out = "out"]])
              (use assms range forward' g_nil in \<open>auto\<close>)
        next
          assume "s' = s\<lparr>heap := (heap s)(0 \<mapsto> \<lparr>buf = [], cap = 0, closed = True\<rparr>), pool := [Bridge_go (Some 0) (Some 1) (Bridge_range (Some v)),
          Consume (Some 1) (out),
          OrDone_go (Some c) (Some v) (OrDone_forward w)]\<rparr>"
          then show ?thesis
            by (intro low[OF genVals_inv.draining[where g = "Gen_gone" and c = "c" and v = "v" and kc = "kc" and ys = "ys"
                  and od = "Some (OrDone_forward w)" and bpc = "Bridge_range (Some v)" and out = "out"]])
              (use assms range forward' g_nil in \<open>auto\<close>)
        qed
      next
        case (g_cons zs it)
        have "s' = s\<lparr>pool := [genVals_go (Some 0) (zs # it) None,
          Bridge_go (Some 0) (Some 1) (Bridge_forward (Some v) w),
          Consume (Some 1) (out),
          OrDone_go (Some c) (Some v) (OrDone_select)]\<rparr>
          \<or> s' = s\<lparr>heap := (heap s)(fresh s \<mapsto> \<lparr>buf = zs, cap = length zs, closed = True\<rparr>), fresh := Suc (fresh s), pool := [genVals_go (Some 0) (it) (Some (Some (fresh s))),
          Bridge_go (Some 0) (Some 1) (Bridge_range (Some v)),
          Consume (Some 1) (out),
          OrDone_go (Some c) (Some v) (OrDone_forward w)]\<rparr>"
          using assms range forward' g_cons by (auto simp: sched OrDone_def make_chan_def go_def source_def)
        then show ?thesis
        proof (elim disjE conjE exE)
          assume "s' = s\<lparr>pool := [genVals_go (Some 0) (zs # it) None,
          Bridge_go (Some 0) (Some 1) (Bridge_forward (Some v) w),
          Consume (Some 1) (out),
          OrDone_go (Some c) (Some v) (OrDone_select)]\<rparr>"
          then show ?thesis
            by (intro low[OF genVals_inv.draining[where g = "Gen_make (zs # it)" and c = "c" and v = "v" and kc = "kc" and ys = "ys"
                  and od = "Some (OrDone_select)" and bpc = "Bridge_forward (Some v) w" and out = "out"]])
              (use assms range forward' g_cons in \<open>auto\<close>)
        next
          assume "s' = s\<lparr>heap := (heap s)(fresh s \<mapsto> \<lparr>buf = zs, cap = length zs, closed = True\<rparr>), fresh := Suc (fresh s), pool := [genVals_go (Some 0) (it) (Some (Some (fresh s))),
          Bridge_go (Some 0) (Some 1) (Bridge_range (Some v)),
          Consume (Some 1) (out),
          OrDone_go (Some c) (Some v) (OrDone_forward w)]\<rparr>"
          then show ?thesis
            by (intro low[OF genVals_inv.draining[where g = "Gen_hand (fresh s) zs (it)" and c = "c" and v = "v" and kc = "kc" and ys = "ys"
                  and od = "Some (OrDone_forward w)" and bpc = "Bridge_range (Some v)" and out = "out"]])
              (use assms range forward' g_cons in \<open>auto\<close>)
        qed
      next
        case (g_hand c' zs it)
        have s1: "s' = s\<lparr>pool := [genVals_go (Some 0) (it) (Some (Some (c'))),
          Bridge_go (Some 0) (Some 1) (Bridge_forward (Some v) w),
          Consume (Some 1) (out),
          OrDone_go (Some c) (Some v) (OrDone_select)]\<rparr>"
          using assms range forward' g_hand by (auto simp: sched OrDone_def make_chan_def go_def source_def)
        show ?thesis
          by (intro low[OF genVals_inv.draining[where g = "Gen_hand c' zs it" and c = "c" and v = "v" and kc = "kc" and ys = "ys"
                  and od = "Some (OrDone_select)" and bpc = "Bridge_forward (Some v) w" and out = "out"]])
            (use s1 assms range forward' g_hand in \<open>auto\<close>)
      next
        case g_gone
        have s1: "s' = s\<lparr>pool := [Bridge_go (Some 0) (Some 1) (Bridge_forward (Some v) w),
          Consume (Some 1) (out),
          OrDone_go (Some c) (Some v) (OrDone_select)]\<rparr>"
          using assms range forward' g_gone by (auto simp: sched OrDone_def make_chan_def go_def source_def)
        show ?thesis
          by (intro low[OF genVals_inv.draining[where g = "Gen_gone" and c = "c" and v = "v" and kc = "kc" and ys = "ys"
                  and od = "Some (OrDone_select)" and bpc = "Bridge_forward (Some v) w" and out = "out"]])
            (use s1 assms range forward' g_gone in \<open>auto\<close>)
      qed
    next
      case return
      show ?thesis
      proof (cases g rule: gen_cases)
        case g_nil
        have "s' = s\<lparr>heap := (heap s)(v \<mapsto> \<lparr>buf = [], cap = 0, closed = True\<rparr>), pool := [genVals_go (Some 0) ([]) None,
          Bridge_go (Some 0) (Some 1) (Bridge_range (Some v)),
          Consume (Some 1) (out)]\<rparr>
          \<or> s' = s\<lparr>heap := (heap s)(0 \<mapsto> \<lparr>buf = [], cap = 0, closed = True\<rparr>), pool := [Bridge_go (Some 0) (Some 1) (Bridge_range (Some v)),
          Consume (Some 1) (out),
          OrDone_go (Some c) (Some v) (OrDone_return)]\<rparr>"
          using assms range return g_nil by (auto simp: sched OrDone_def make_chan_def go_def source_def)
        then show ?thesis
        proof (elim disjE conjE exE)
          assume "s' = s\<lparr>heap := (heap s)(v \<mapsto> \<lparr>buf = [], cap = 0, closed = True\<rparr>), pool := [genVals_go (Some 0) ([]) None,
          Bridge_go (Some 0) (Some 1) (Bridge_range (Some v)),
          Consume (Some 1) (out)]\<rparr>"
          then show ?thesis
            by (intro low[OF genVals_inv.draining[where g = "Gen_make []" and c = "c" and v = "v" and kc = "kc" and ys = "ys"
                  and od = "None" and bpc = "Bridge_range (Some v)" and out = "out"]])
              (use assms range return g_nil in \<open>auto\<close>)
        next
          assume "s' = s\<lparr>heap := (heap s)(0 \<mapsto> \<lparr>buf = [], cap = 0, closed = True\<rparr>), pool := [Bridge_go (Some 0) (Some 1) (Bridge_range (Some v)),
          Consume (Some 1) (out),
          OrDone_go (Some c) (Some v) (OrDone_return)]\<rparr>"
          then show ?thesis
            by (intro low[OF genVals_inv.draining[where g = "Gen_gone" and c = "c" and v = "v" and kc = "kc" and ys = "ys"
                  and od = "Some (OrDone_return)" and bpc = "Bridge_range (Some v)" and out = "out"]])
              (use assms range return g_nil in \<open>auto\<close>)
        qed
      next
        case (g_cons zs it)
        have "s' = s\<lparr>heap := (heap s)(v \<mapsto> \<lparr>buf = [], cap = 0, closed = True\<rparr>), pool := [genVals_go (Some 0) (zs # it) None,
          Bridge_go (Some 0) (Some 1) (Bridge_range (Some v)),
          Consume (Some 1) (out)]\<rparr>
          \<or> s' = s\<lparr>heap := (heap s)(fresh s \<mapsto> \<lparr>buf = zs, cap = length zs, closed = True\<rparr>), fresh := Suc (fresh s), pool := [genVals_go (Some 0) (it) (Some (Some (fresh s))),
          Bridge_go (Some 0) (Some 1) (Bridge_range (Some v)),
          Consume (Some 1) (out),
          OrDone_go (Some c) (Some v) (OrDone_return)]\<rparr>"
          using assms range return g_cons by (auto simp: sched OrDone_def make_chan_def go_def source_def)
        then show ?thesis
        proof (elim disjE conjE exE)
          assume "s' = s\<lparr>heap := (heap s)(v \<mapsto> \<lparr>buf = [], cap = 0, closed = True\<rparr>), pool := [genVals_go (Some 0) (zs # it) None,
          Bridge_go (Some 0) (Some 1) (Bridge_range (Some v)),
          Consume (Some 1) (out)]\<rparr>"
          then show ?thesis
            by (intro low[OF genVals_inv.draining[where g = "Gen_make (zs # it)" and c = "c" and v = "v" and kc = "kc" and ys = "ys"
                  and od = "None" and bpc = "Bridge_range (Some v)" and out = "out"]])
              (use assms range return g_cons in \<open>auto\<close>)
        next
          assume "s' = s\<lparr>heap := (heap s)(fresh s \<mapsto> \<lparr>buf = zs, cap = length zs, closed = True\<rparr>), fresh := Suc (fresh s), pool := [genVals_go (Some 0) (it) (Some (Some (fresh s))),
          Bridge_go (Some 0) (Some 1) (Bridge_range (Some v)),
          Consume (Some 1) (out),
          OrDone_go (Some c) (Some v) (OrDone_return)]\<rparr>"
          then show ?thesis
            by (intro low[OF genVals_inv.draining[where g = "Gen_hand (fresh s) zs (it)" and c = "c" and v = "v" and kc = "kc" and ys = "ys"
                  and od = "Some (OrDone_return)" and bpc = "Bridge_range (Some v)" and out = "out"]])
              (use assms range return g_cons in \<open>auto\<close>)
        qed
      next
        case (g_hand c' zs it)
        have s1: "s' = s\<lparr>heap := (heap s)(v \<mapsto> \<lparr>buf = [], cap = 0, closed = True\<rparr>), pool := [genVals_go (Some 0) (it) (Some (Some (c'))),
          Bridge_go (Some 0) (Some 1) (Bridge_range (Some v)),
          Consume (Some 1) (out)]\<rparr>"
          using assms range return g_hand by (auto simp: sched OrDone_def make_chan_def go_def source_def)
        show ?thesis
          by (intro low[OF genVals_inv.draining[where g = "Gen_hand c' zs it" and c = "c" and v = "v" and kc = "kc" and ys = "ys"
                  and od = "None" and bpc = "Bridge_range (Some v)" and out = "out"]])
            (use s1 assms range return g_hand in \<open>auto\<close>)
      next
        case g_gone
        have s1: "s' = s\<lparr>heap := (heap s)(v \<mapsto> \<lparr>buf = [], cap = 0, closed = True\<rparr>), pool := [Bridge_go (Some 0) (Some 1) (Bridge_range (Some v)),
          Consume (Some 1) (out)]\<rparr>"
          using assms range return g_gone by (auto simp: sched OrDone_def make_chan_def go_def source_def)
        show ?thesis
          by (intro low[OF genVals_inv.draining[where g = "Gen_gone" and c = "c" and v = "v" and kc = "kc" and ys = "ys"
                  and od = "None" and bpc = "Bridge_range (Some v)" and out = "out"]])
            (use s1 assms range return g_gone in \<open>auto\<close>)
      qed
    qed
  next
    case forward
    consider (gone) "od = None" | (select) "od = Some OrDone_select"
      | (forward') w where "od = Some (OrDone_forward w)" | (return) "od = Some OrDone_return"
      by (cases od rule: od_rank.cases) auto
    then show ?thesis
    proof cases
      case gone
      show ?thesis
      proof (cases g rule: gen_cases)
        case g_nil
        have "s' = s\<lparr>pool := [genVals_go (Some 0) ([]) None,
          Bridge_go (Some 0) (Some 1) (Bridge_range (Some v)),
          Consume (Some 1) (out @ [y])]\<rparr>
          \<or> s' = s\<lparr>heap := (heap s)(0 \<mapsto> \<lparr>buf = [], cap = 0, closed = True\<rparr>), pool := [Bridge_go (Some 0) (Some 1) (Bridge_forward (Some v) y),
          Consume (Some 1) (out)]\<rparr>"
          using assms forward gone g_nil by (auto simp: sched OrDone_def make_chan_def go_def source_def)
        then show ?thesis
        proof (elim disjE conjE exE)
          assume "s' = s\<lparr>pool := [genVals_go (Some 0) ([]) None,
          Bridge_go (Some 0) (Some 1) (Bridge_range (Some v)),
          Consume (Some 1) (out @ [y])]\<rparr>"
          then show ?thesis
            by (intro low[OF genVals_inv.draining[where g = "Gen_make []" and c = "c" and v = "v" and kc = "kc" and ys = "ys"
                  and od = "None" and bpc = "Bridge_range (Some v)" and out = "out @ [y]"]])
              (use assms forward gone g_nil in \<open>auto\<close>)
        next
          assume "s' = s\<lparr>heap := (heap s)(0 \<mapsto> \<lparr>buf = [], cap = 0, closed = True\<rparr>), pool := [Bridge_go (Some 0) (Some 1) (Bridge_forward (Some v) y),
          Consume (Some 1) (out)]\<rparr>"
          then show ?thesis
            by (intro low[OF genVals_inv.draining[where g = "Gen_gone" and c = "c" and v = "v" and kc = "kc" and ys = "ys"
                  and od = "None" and bpc = "Bridge_forward (Some v) y" and out = "out"]])
              (use assms forward gone g_nil in \<open>auto\<close>)
        qed
      next
        case (g_cons zs it)
        have "s' = s\<lparr>pool := [genVals_go (Some 0) (zs # it) None,
          Bridge_go (Some 0) (Some 1) (Bridge_range (Some v)),
          Consume (Some 1) (out @ [y])]\<rparr>
          \<or> s' = s\<lparr>heap := (heap s)(fresh s \<mapsto> \<lparr>buf = zs, cap = length zs, closed = True\<rparr>), fresh := Suc (fresh s), pool := [genVals_go (Some 0) (it) (Some (Some (fresh s))),
          Bridge_go (Some 0) (Some 1) (Bridge_forward (Some v) y),
          Consume (Some 1) (out)]\<rparr>"
          using assms forward gone g_cons by (auto simp: sched OrDone_def make_chan_def go_def source_def)
        then show ?thesis
        proof (elim disjE conjE exE)
          assume "s' = s\<lparr>pool := [genVals_go (Some 0) (zs # it) None,
          Bridge_go (Some 0) (Some 1) (Bridge_range (Some v)),
          Consume (Some 1) (out @ [y])]\<rparr>"
          then show ?thesis
            by (intro low[OF genVals_inv.draining[where g = "Gen_make (zs # it)" and c = "c" and v = "v" and kc = "kc" and ys = "ys"
                  and od = "None" and bpc = "Bridge_range (Some v)" and out = "out @ [y]"]])
              (use assms forward gone g_cons in \<open>auto\<close>)
        next
          assume "s' = s\<lparr>heap := (heap s)(fresh s \<mapsto> \<lparr>buf = zs, cap = length zs, closed = True\<rparr>), fresh := Suc (fresh s), pool := [genVals_go (Some 0) (it) (Some (Some (fresh s))),
          Bridge_go (Some 0) (Some 1) (Bridge_forward (Some v) y),
          Consume (Some 1) (out)]\<rparr>"
          then show ?thesis
            by (intro low[OF genVals_inv.draining[where g = "Gen_hand (fresh s) zs (it)" and c = "c" and v = "v" and kc = "kc" and ys = "ys"
                  and od = "None" and bpc = "Bridge_forward (Some v) y" and out = "out"]])
              (use assms forward gone g_cons in \<open>auto\<close>)
        qed
      next
        case (g_hand c' zs it)
        have s1: "s' = s\<lparr>pool := [genVals_go (Some 0) (it) (Some (Some (c'))),
          Bridge_go (Some 0) (Some 1) (Bridge_range (Some v)),
          Consume (Some 1) (out @ [y])]\<rparr>"
          using assms forward gone g_hand by (auto simp: sched OrDone_def make_chan_def go_def source_def)
        show ?thesis
          by (intro low[OF genVals_inv.draining[where g = "Gen_hand c' zs it" and c = "c" and v = "v" and kc = "kc" and ys = "ys"
                  and od = "None" and bpc = "Bridge_range (Some v)" and out = "out @ [y]"]])
            (use s1 assms forward gone g_hand in \<open>auto\<close>)
      next
        case g_gone
        have s1: "s' = s\<lparr>pool := [Bridge_go (Some 0) (Some 1) (Bridge_range (Some v)),
          Consume (Some 1) (out @ [y])]\<rparr>"
          using assms forward gone g_gone by (auto simp: sched OrDone_def make_chan_def go_def source_def)
        show ?thesis
          by (intro low[OF genVals_inv.draining[where g = "Gen_gone" and c = "c" and v = "v" and kc = "kc" and ys = "ys"
                  and od = "None" and bpc = "Bridge_range (Some v)" and out = "out @ [y]"]])
            (use s1 assms forward gone g_gone in \<open>auto\<close>)
      qed
    next
      case select
      show ?thesis
      proof (cases g rule: gen_cases)
        case g_nil
        have "s' = s\<lparr>pool := [genVals_go (Some 0) ([]) None,
          Bridge_go (Some 0) (Some 1) (Bridge_range (Some v)),
          Consume (Some 1) (out @ [y]),
          OrDone_go (Some c) (Some v) (OrDone_select)]\<rparr>
          \<or> (ys = [] \<and> s' = s\<lparr>pool := [genVals_go (Some 0) ([]) None,
          Bridge_go (Some 0) (Some 1) (Bridge_forward (Some v) y),
          Consume (Some 1) (out),
          OrDone_go (Some c) (Some v) (OrDone_return)]\<rparr>)
          \<or> (\<exists>y' ys'. ys = y' # ys' \<and> s' = s\<lparr>heap := (heap s)(c \<mapsto> \<lparr>buf = ys', cap = kc, closed = True\<rparr>), pool := [genVals_go (Some 0) ([]) None,
          Bridge_go (Some 0) (Some 1) (Bridge_forward (Some v) y),
          Consume (Some 1) (out),
          OrDone_go (Some c) (Some v) (OrDone_forward y')]\<rparr>)
          \<or> s' = s\<lparr>heap := (heap s)(0 \<mapsto> \<lparr>buf = [], cap = 0, closed = True\<rparr>), pool := [Bridge_go (Some 0) (Some 1) (Bridge_forward (Some v) y),
          Consume (Some 1) (out),
          OrDone_go (Some c) (Some v) (OrDone_select)]\<rparr>"
          using assms forward select g_nil by (cases ys) (auto simp: sched OrDone_def make_chan_def go_def source_def)
        then show ?thesis
        proof (elim disjE conjE exE)
          assume "s' = s\<lparr>pool := [genVals_go (Some 0) ([]) None,
          Bridge_go (Some 0) (Some 1) (Bridge_range (Some v)),
          Consume (Some 1) (out @ [y]),
          OrDone_go (Some c) (Some v) (OrDone_select)]\<rparr>"
          then show ?thesis
            by (intro low[OF genVals_inv.draining[where g = "Gen_make []" and c = "c" and v = "v" and kc = "kc" and ys = "ys"
                  and od = "Some (OrDone_select)" and bpc = "Bridge_range (Some v)" and out = "out @ [y]"]])
              (use assms forward select g_nil in \<open>auto\<close>)
        next
          assume "ys = []" "s' = s\<lparr>pool := [genVals_go (Some 0) ([]) None,
          Bridge_go (Some 0) (Some 1) (Bridge_forward (Some v) y),
          Consume (Some 1) (out),
          OrDone_go (Some c) (Some v) (OrDone_return)]\<rparr>"
          then show ?thesis
            by (intro low[OF genVals_inv.draining[where g = "Gen_make []" and c = "c" and v = "v" and kc = "kc" and ys = "[]"
                  and od = "Some (OrDone_return)" and bpc = "Bridge_forward (Some v) y" and out = "out"]])
              (use assms forward select g_nil in \<open>auto\<close>)
        next
          fix y' ys'
          assume "ys = y' # ys'" "s' = s\<lparr>heap := (heap s)(c \<mapsto> \<lparr>buf = ys', cap = kc, closed = True\<rparr>), pool := [genVals_go (Some 0) ([]) None,
          Bridge_go (Some 0) (Some 1) (Bridge_forward (Some v) y),
          Consume (Some 1) (out),
          OrDone_go (Some c) (Some v) (OrDone_forward y')]\<rparr>"
          then show ?thesis
            by (intro low[OF genVals_inv.draining[where g = "Gen_make []" and c = "c" and v = "v" and kc = "kc" and ys = "ys'"
                  and od = "Some (OrDone_forward y')" and bpc = "Bridge_forward (Some v) y" and out = "out"]])
              (use assms forward select g_nil in \<open>auto\<close>)
        next
          assume "s' = s\<lparr>heap := (heap s)(0 \<mapsto> \<lparr>buf = [], cap = 0, closed = True\<rparr>), pool := [Bridge_go (Some 0) (Some 1) (Bridge_forward (Some v) y),
          Consume (Some 1) (out),
          OrDone_go (Some c) (Some v) (OrDone_select)]\<rparr>"
          then show ?thesis
            by (intro low[OF genVals_inv.draining[where g = "Gen_gone" and c = "c" and v = "v" and kc = "kc" and ys = "ys"
                  and od = "Some (OrDone_select)" and bpc = "Bridge_forward (Some v) y" and out = "out"]])
              (use assms forward select g_nil in \<open>auto\<close>)
        qed
      next
        case (g_cons zs it)
        have "s' = s\<lparr>pool := [genVals_go (Some 0) (zs # it) None,
          Bridge_go (Some 0) (Some 1) (Bridge_range (Some v)),
          Consume (Some 1) (out @ [y]),
          OrDone_go (Some c) (Some v) (OrDone_select)]\<rparr>
          \<or> (ys = [] \<and> s' = s\<lparr>pool := [genVals_go (Some 0) (zs # it) None,
          Bridge_go (Some 0) (Some 1) (Bridge_forward (Some v) y),
          Consume (Some 1) (out),
          OrDone_go (Some c) (Some v) (OrDone_return)]\<rparr>)
          \<or> (\<exists>y' ys'. ys = y' # ys' \<and> s' = s\<lparr>heap := (heap s)(c \<mapsto> \<lparr>buf = ys', cap = kc, closed = True\<rparr>), pool := [genVals_go (Some 0) (zs # it) None,
          Bridge_go (Some 0) (Some 1) (Bridge_forward (Some v) y),
          Consume (Some 1) (out),
          OrDone_go (Some c) (Some v) (OrDone_forward y')]\<rparr>)
          \<or> s' = s\<lparr>heap := (heap s)(fresh s \<mapsto> \<lparr>buf = zs, cap = length zs, closed = True\<rparr>), fresh := Suc (fresh s), pool := [genVals_go (Some 0) (it) (Some (Some (fresh s))),
          Bridge_go (Some 0) (Some 1) (Bridge_forward (Some v) y),
          Consume (Some 1) (out),
          OrDone_go (Some c) (Some v) (OrDone_select)]\<rparr>"
          using assms forward select g_cons by (cases ys) (auto simp: sched OrDone_def make_chan_def go_def source_def)
        then show ?thesis
        proof (elim disjE conjE exE)
          assume "s' = s\<lparr>pool := [genVals_go (Some 0) (zs # it) None,
          Bridge_go (Some 0) (Some 1) (Bridge_range (Some v)),
          Consume (Some 1) (out @ [y]),
          OrDone_go (Some c) (Some v) (OrDone_select)]\<rparr>"
          then show ?thesis
            by (intro low[OF genVals_inv.draining[where g = "Gen_make (zs # it)" and c = "c" and v = "v" and kc = "kc" and ys = "ys"
                  and od = "Some (OrDone_select)" and bpc = "Bridge_range (Some v)" and out = "out @ [y]"]])
              (use assms forward select g_cons in \<open>auto\<close>)
        next
          assume "ys = []" "s' = s\<lparr>pool := [genVals_go (Some 0) (zs # it) None,
          Bridge_go (Some 0) (Some 1) (Bridge_forward (Some v) y),
          Consume (Some 1) (out),
          OrDone_go (Some c) (Some v) (OrDone_return)]\<rparr>"
          then show ?thesis
            by (intro low[OF genVals_inv.draining[where g = "Gen_make (zs # it)" and c = "c" and v = "v" and kc = "kc" and ys = "[]"
                  and od = "Some (OrDone_return)" and bpc = "Bridge_forward (Some v) y" and out = "out"]])
              (use assms forward select g_cons in \<open>auto\<close>)
        next
          fix y' ys'
          assume "ys = y' # ys'" "s' = s\<lparr>heap := (heap s)(c \<mapsto> \<lparr>buf = ys', cap = kc, closed = True\<rparr>), pool := [genVals_go (Some 0) (zs # it) None,
          Bridge_go (Some 0) (Some 1) (Bridge_forward (Some v) y),
          Consume (Some 1) (out),
          OrDone_go (Some c) (Some v) (OrDone_forward y')]\<rparr>"
          then show ?thesis
            by (intro low[OF genVals_inv.draining[where g = "Gen_make (zs # it)" and c = "c" and v = "v" and kc = "kc" and ys = "ys'"
                  and od = "Some (OrDone_forward y')" and bpc = "Bridge_forward (Some v) y" and out = "out"]])
              (use assms forward select g_cons in \<open>auto\<close>)
        next
          assume "s' = s\<lparr>heap := (heap s)(fresh s \<mapsto> \<lparr>buf = zs, cap = length zs, closed = True\<rparr>), fresh := Suc (fresh s), pool := [genVals_go (Some 0) (it) (Some (Some (fresh s))),
          Bridge_go (Some 0) (Some 1) (Bridge_forward (Some v) y),
          Consume (Some 1) (out),
          OrDone_go (Some c) (Some v) (OrDone_select)]\<rparr>"
          then show ?thesis
            by (intro low[OF genVals_inv.draining[where g = "Gen_hand (fresh s) zs (it)" and c = "c" and v = "v" and kc = "kc" and ys = "ys"
                  and od = "Some (OrDone_select)" and bpc = "Bridge_forward (Some v) y" and out = "out"]])
              (use assms forward select g_cons in \<open>auto\<close>)
        qed
      next
        case (g_hand c' zs it)
        have "s' = s\<lparr>pool := [genVals_go (Some 0) (it) (Some (Some (c'))),
          Bridge_go (Some 0) (Some 1) (Bridge_range (Some v)),
          Consume (Some 1) (out @ [y]),
          OrDone_go (Some c) (Some v) (OrDone_select)]\<rparr>
          \<or> (ys = [] \<and> s' = s\<lparr>pool := [genVals_go (Some 0) (it) (Some (Some (c'))),
          Bridge_go (Some 0) (Some 1) (Bridge_forward (Some v) y),
          Consume (Some 1) (out),
          OrDone_go (Some c) (Some v) (OrDone_return)]\<rparr>)
          \<or> (\<exists>y' ys'. ys = y' # ys' \<and> s' = s\<lparr>heap := (heap s)(c \<mapsto> \<lparr>buf = ys', cap = kc, closed = True\<rparr>), pool := [genVals_go (Some 0) (it) (Some (Some (c'))),
          Bridge_go (Some 0) (Some 1) (Bridge_forward (Some v) y),
          Consume (Some 1) (out),
          OrDone_go (Some c) (Some v) (OrDone_forward y')]\<rparr>)"
          using assms forward select g_hand by (cases ys) (auto simp: sched OrDone_def make_chan_def go_def source_def)
        then show ?thesis
        proof (elim disjE conjE exE)
          assume "s' = s\<lparr>pool := [genVals_go (Some 0) (it) (Some (Some (c'))),
          Bridge_go (Some 0) (Some 1) (Bridge_range (Some v)),
          Consume (Some 1) (out @ [y]),
          OrDone_go (Some c) (Some v) (OrDone_select)]\<rparr>"
          then show ?thesis
            by (intro low[OF genVals_inv.draining[where g = "Gen_hand c' zs it" and c = "c" and v = "v" and kc = "kc" and ys = "ys"
                  and od = "Some (OrDone_select)" and bpc = "Bridge_range (Some v)" and out = "out @ [y]"]])
              (use assms forward select g_hand in \<open>auto\<close>)
        next
          assume "ys = []" "s' = s\<lparr>pool := [genVals_go (Some 0) (it) (Some (Some (c'))),
          Bridge_go (Some 0) (Some 1) (Bridge_forward (Some v) y),
          Consume (Some 1) (out),
          OrDone_go (Some c) (Some v) (OrDone_return)]\<rparr>"
          then show ?thesis
            by (intro low[OF genVals_inv.draining[where g = "Gen_hand c' zs it" and c = "c" and v = "v" and kc = "kc" and ys = "[]"
                  and od = "Some (OrDone_return)" and bpc = "Bridge_forward (Some v) y" and out = "out"]])
              (use assms forward select g_hand in \<open>auto\<close>)
        next
          fix y' ys'
          assume "ys = y' # ys'" "s' = s\<lparr>heap := (heap s)(c \<mapsto> \<lparr>buf = ys', cap = kc, closed = True\<rparr>), pool := [genVals_go (Some 0) (it) (Some (Some (c'))),
          Bridge_go (Some 0) (Some 1) (Bridge_forward (Some v) y),
          Consume (Some 1) (out),
          OrDone_go (Some c) (Some v) (OrDone_forward y')]\<rparr>"
          then show ?thesis
            by (intro low[OF genVals_inv.draining[where g = "Gen_hand c' zs it" and c = "c" and v = "v" and kc = "kc" and ys = "ys'"
                  and od = "Some (OrDone_forward y')" and bpc = "Bridge_forward (Some v) y" and out = "out"]])
              (use assms forward select g_hand in \<open>auto\<close>)
        qed
      next
        case g_gone
        have "s' = s\<lparr>pool := [Bridge_go (Some 0) (Some 1) (Bridge_range (Some v)),
          Consume (Some 1) (out @ [y]),
          OrDone_go (Some c) (Some v) (OrDone_select)]\<rparr>
          \<or> (ys = [] \<and> s' = s\<lparr>pool := [Bridge_go (Some 0) (Some 1) (Bridge_forward (Some v) y),
          Consume (Some 1) (out),
          OrDone_go (Some c) (Some v) (OrDone_return)]\<rparr>)
          \<or> (\<exists>y' ys'. ys = y' # ys' \<and> s' = s\<lparr>heap := (heap s)(c \<mapsto> \<lparr>buf = ys', cap = kc, closed = True\<rparr>), pool := [Bridge_go (Some 0) (Some 1) (Bridge_forward (Some v) y),
          Consume (Some 1) (out),
          OrDone_go (Some c) (Some v) (OrDone_forward y')]\<rparr>)"
          using assms forward select g_gone by (cases ys) (auto simp: sched OrDone_def make_chan_def go_def source_def)
        then show ?thesis
        proof (elim disjE conjE exE)
          assume "s' = s\<lparr>pool := [Bridge_go (Some 0) (Some 1) (Bridge_range (Some v)),
          Consume (Some 1) (out @ [y]),
          OrDone_go (Some c) (Some v) (OrDone_select)]\<rparr>"
          then show ?thesis
            by (intro low[OF genVals_inv.draining[where g = "Gen_gone" and c = "c" and v = "v" and kc = "kc" and ys = "ys"
                  and od = "Some (OrDone_select)" and bpc = "Bridge_range (Some v)" and out = "out @ [y]"]])
              (use assms forward select g_gone in \<open>auto\<close>)
        next
          assume "ys = []" "s' = s\<lparr>pool := [Bridge_go (Some 0) (Some 1) (Bridge_forward (Some v) y),
          Consume (Some 1) (out),
          OrDone_go (Some c) (Some v) (OrDone_return)]\<rparr>"
          then show ?thesis
            by (intro low[OF genVals_inv.draining[where g = "Gen_gone" and c = "c" and v = "v" and kc = "kc" and ys = "[]"
                  and od = "Some (OrDone_return)" and bpc = "Bridge_forward (Some v) y" and out = "out"]])
              (use assms forward select g_gone in \<open>auto\<close>)
        next
          fix y' ys'
          assume "ys = y' # ys'" "s' = s\<lparr>heap := (heap s)(c \<mapsto> \<lparr>buf = ys', cap = kc, closed = True\<rparr>), pool := [Bridge_go (Some 0) (Some 1) (Bridge_forward (Some v) y),
          Consume (Some 1) (out),
          OrDone_go (Some c) (Some v) (OrDone_forward y')]\<rparr>"
          then show ?thesis
            by (intro low[OF genVals_inv.draining[where g = "Gen_gone" and c = "c" and v = "v" and kc = "kc" and ys = "ys'"
                  and od = "Some (OrDone_forward y')" and bpc = "Bridge_forward (Some v) y" and out = "out"]])
              (use assms forward select g_gone in \<open>auto\<close>)
        qed
      qed
    next
      case forward'
      show ?thesis
      proof (cases g rule: gen_cases)
        case g_nil
        have "s' = s\<lparr>pool := [genVals_go (Some 0) ([]) None,
          Bridge_go (Some 0) (Some 1) (Bridge_range (Some v)),
          Consume (Some 1) (out @ [y]),
          OrDone_go (Some c) (Some v) (OrDone_forward w)]\<rparr>
          \<or> s' = s\<lparr>heap := (heap s)(0 \<mapsto> \<lparr>buf = [], cap = 0, closed = True\<rparr>), pool := [Bridge_go (Some 0) (Some 1) (Bridge_forward (Some v) y),
          Consume (Some 1) (out),
          OrDone_go (Some c) (Some v) (OrDone_forward w)]\<rparr>"
          using assms forward forward' g_nil by (auto simp: sched OrDone_def make_chan_def go_def source_def)
        then show ?thesis
        proof (elim disjE conjE exE)
          assume "s' = s\<lparr>pool := [genVals_go (Some 0) ([]) None,
          Bridge_go (Some 0) (Some 1) (Bridge_range (Some v)),
          Consume (Some 1) (out @ [y]),
          OrDone_go (Some c) (Some v) (OrDone_forward w)]\<rparr>"
          then show ?thesis
            by (intro low[OF genVals_inv.draining[where g = "Gen_make []" and c = "c" and v = "v" and kc = "kc" and ys = "ys"
                  and od = "Some (OrDone_forward w)" and bpc = "Bridge_range (Some v)" and out = "out @ [y]"]])
              (use assms forward forward' g_nil in \<open>auto\<close>)
        next
          assume "s' = s\<lparr>heap := (heap s)(0 \<mapsto> \<lparr>buf = [], cap = 0, closed = True\<rparr>), pool := [Bridge_go (Some 0) (Some 1) (Bridge_forward (Some v) y),
          Consume (Some 1) (out),
          OrDone_go (Some c) (Some v) (OrDone_forward w)]\<rparr>"
          then show ?thesis
            by (intro low[OF genVals_inv.draining[where g = "Gen_gone" and c = "c" and v = "v" and kc = "kc" and ys = "ys"
                  and od = "Some (OrDone_forward w)" and bpc = "Bridge_forward (Some v) y" and out = "out"]])
              (use assms forward forward' g_nil in \<open>auto\<close>)
        qed
      next
        case (g_cons zs it)
        have "s' = s\<lparr>pool := [genVals_go (Some 0) (zs # it) None,
          Bridge_go (Some 0) (Some 1) (Bridge_range (Some v)),
          Consume (Some 1) (out @ [y]),
          OrDone_go (Some c) (Some v) (OrDone_forward w)]\<rparr>
          \<or> s' = s\<lparr>heap := (heap s)(fresh s \<mapsto> \<lparr>buf = zs, cap = length zs, closed = True\<rparr>), fresh := Suc (fresh s), pool := [genVals_go (Some 0) (it) (Some (Some (fresh s))),
          Bridge_go (Some 0) (Some 1) (Bridge_forward (Some v) y),
          Consume (Some 1) (out),
          OrDone_go (Some c) (Some v) (OrDone_forward w)]\<rparr>"
          using assms forward forward' g_cons by (auto simp: sched OrDone_def make_chan_def go_def source_def)
        then show ?thesis
        proof (elim disjE conjE exE)
          assume "s' = s\<lparr>pool := [genVals_go (Some 0) (zs # it) None,
          Bridge_go (Some 0) (Some 1) (Bridge_range (Some v)),
          Consume (Some 1) (out @ [y]),
          OrDone_go (Some c) (Some v) (OrDone_forward w)]\<rparr>"
          then show ?thesis
            by (intro low[OF genVals_inv.draining[where g = "Gen_make (zs # it)" and c = "c" and v = "v" and kc = "kc" and ys = "ys"
                  and od = "Some (OrDone_forward w)" and bpc = "Bridge_range (Some v)" and out = "out @ [y]"]])
              (use assms forward forward' g_cons in \<open>auto\<close>)
        next
          assume "s' = s\<lparr>heap := (heap s)(fresh s \<mapsto> \<lparr>buf = zs, cap = length zs, closed = True\<rparr>), fresh := Suc (fresh s), pool := [genVals_go (Some 0) (it) (Some (Some (fresh s))),
          Bridge_go (Some 0) (Some 1) (Bridge_forward (Some v) y),
          Consume (Some 1) (out),
          OrDone_go (Some c) (Some v) (OrDone_forward w)]\<rparr>"
          then show ?thesis
            by (intro low[OF genVals_inv.draining[where g = "Gen_hand (fresh s) zs (it)" and c = "c" and v = "v" and kc = "kc" and ys = "ys"
                  and od = "Some (OrDone_forward w)" and bpc = "Bridge_forward (Some v) y" and out = "out"]])
              (use assms forward forward' g_cons in \<open>auto\<close>)
        qed
      next
        case (g_hand c' zs it)
        have s1: "s' = s\<lparr>pool := [genVals_go (Some 0) (it) (Some (Some (c'))),
          Bridge_go (Some 0) (Some 1) (Bridge_range (Some v)),
          Consume (Some 1) (out @ [y]),
          OrDone_go (Some c) (Some v) (OrDone_forward w)]\<rparr>"
          using assms forward forward' g_hand by (auto simp: sched OrDone_def make_chan_def go_def source_def)
        show ?thesis
          by (intro low[OF genVals_inv.draining[where g = "Gen_hand c' zs it" and c = "c" and v = "v" and kc = "kc" and ys = "ys"
                  and od = "Some (OrDone_forward w)" and bpc = "Bridge_range (Some v)" and out = "out @ [y]"]])
            (use s1 assms forward forward' g_hand in \<open>auto\<close>)
      next
        case g_gone
        have s1: "s' = s\<lparr>pool := [Bridge_go (Some 0) (Some 1) (Bridge_range (Some v)),
          Consume (Some 1) (out @ [y]),
          OrDone_go (Some c) (Some v) (OrDone_forward w)]\<rparr>"
          using assms forward forward' g_gone by (auto simp: sched OrDone_def make_chan_def go_def source_def)
        show ?thesis
          by (intro low[OF genVals_inv.draining[where g = "Gen_gone" and c = "c" and v = "v" and kc = "kc" and ys = "ys"
                  and od = "Some (OrDone_forward w)" and bpc = "Bridge_range (Some v)" and out = "out @ [y]"]])
            (use s1 assms forward forward' g_gone in \<open>auto\<close>)
      qed
    next
      case return
      show ?thesis
      proof (cases g rule: gen_cases)
        case g_nil
        have "s' = s\<lparr>pool := [genVals_go (Some 0) ([]) None,
          Bridge_go (Some 0) (Some 1) (Bridge_range (Some v)),
          Consume (Some 1) (out @ [y]),
          OrDone_go (Some c) (Some v) (OrDone_return)]\<rparr>
          \<or> s' = s\<lparr>heap := (heap s)(v \<mapsto> \<lparr>buf = [], cap = 0, closed = True\<rparr>), pool := [genVals_go (Some 0) ([]) None,
          Bridge_go (Some 0) (Some 1) (Bridge_forward (Some v) y),
          Consume (Some 1) (out)]\<rparr>
          \<or> s' = s\<lparr>heap := (heap s)(0 \<mapsto> \<lparr>buf = [], cap = 0, closed = True\<rparr>), pool := [Bridge_go (Some 0) (Some 1) (Bridge_forward (Some v) y),
          Consume (Some 1) (out),
          OrDone_go (Some c) (Some v) (OrDone_return)]\<rparr>"
          using assms forward return g_nil by (auto simp: sched OrDone_def make_chan_def go_def source_def)
        then show ?thesis
        proof (elim disjE conjE exE)
          assume "s' = s\<lparr>pool := [genVals_go (Some 0) ([]) None,
          Bridge_go (Some 0) (Some 1) (Bridge_range (Some v)),
          Consume (Some 1) (out @ [y]),
          OrDone_go (Some c) (Some v) (OrDone_return)]\<rparr>"
          then show ?thesis
            by (intro low[OF genVals_inv.draining[where g = "Gen_make []" and c = "c" and v = "v" and kc = "kc" and ys = "ys"
                  and od = "Some (OrDone_return)" and bpc = "Bridge_range (Some v)" and out = "out @ [y]"]])
              (use assms forward return g_nil in \<open>auto\<close>)
        next
          assume "s' = s\<lparr>heap := (heap s)(v \<mapsto> \<lparr>buf = [], cap = 0, closed = True\<rparr>), pool := [genVals_go (Some 0) ([]) None,
          Bridge_go (Some 0) (Some 1) (Bridge_forward (Some v) y),
          Consume (Some 1) (out)]\<rparr>"
          then show ?thesis
            by (intro low[OF genVals_inv.draining[where g = "Gen_make []" and c = "c" and v = "v" and kc = "kc" and ys = "ys"
                  and od = "None" and bpc = "Bridge_forward (Some v) y" and out = "out"]])
              (use assms forward return g_nil in \<open>auto\<close>)
        next
          assume "s' = s\<lparr>heap := (heap s)(0 \<mapsto> \<lparr>buf = [], cap = 0, closed = True\<rparr>), pool := [Bridge_go (Some 0) (Some 1) (Bridge_forward (Some v) y),
          Consume (Some 1) (out),
          OrDone_go (Some c) (Some v) (OrDone_return)]\<rparr>"
          then show ?thesis
            by (intro low[OF genVals_inv.draining[where g = "Gen_gone" and c = "c" and v = "v" and kc = "kc" and ys = "ys"
                  and od = "Some (OrDone_return)" and bpc = "Bridge_forward (Some v) y" and out = "out"]])
              (use assms forward return g_nil in \<open>auto\<close>)
        qed
      next
        case (g_cons zs it)
        have "s' = s\<lparr>pool := [genVals_go (Some 0) (zs # it) None,
          Bridge_go (Some 0) (Some 1) (Bridge_range (Some v)),
          Consume (Some 1) (out @ [y]),
          OrDone_go (Some c) (Some v) (OrDone_return)]\<rparr>
          \<or> s' = s\<lparr>heap := (heap s)(v \<mapsto> \<lparr>buf = [], cap = 0, closed = True\<rparr>), pool := [genVals_go (Some 0) (zs # it) None,
          Bridge_go (Some 0) (Some 1) (Bridge_forward (Some v) y),
          Consume (Some 1) (out)]\<rparr>
          \<or> s' = s\<lparr>heap := (heap s)(fresh s \<mapsto> \<lparr>buf = zs, cap = length zs, closed = True\<rparr>), fresh := Suc (fresh s), pool := [genVals_go (Some 0) (it) (Some (Some (fresh s))),
          Bridge_go (Some 0) (Some 1) (Bridge_forward (Some v) y),
          Consume (Some 1) (out),
          OrDone_go (Some c) (Some v) (OrDone_return)]\<rparr>"
          using assms forward return g_cons by (auto simp: sched OrDone_def make_chan_def go_def source_def)
        then show ?thesis
        proof (elim disjE conjE exE)
          assume "s' = s\<lparr>pool := [genVals_go (Some 0) (zs # it) None,
          Bridge_go (Some 0) (Some 1) (Bridge_range (Some v)),
          Consume (Some 1) (out @ [y]),
          OrDone_go (Some c) (Some v) (OrDone_return)]\<rparr>"
          then show ?thesis
            by (intro low[OF genVals_inv.draining[where g = "Gen_make (zs # it)" and c = "c" and v = "v" and kc = "kc" and ys = "ys"
                  and od = "Some (OrDone_return)" and bpc = "Bridge_range (Some v)" and out = "out @ [y]"]])
              (use assms forward return g_cons in \<open>auto\<close>)
        next
          assume "s' = s\<lparr>heap := (heap s)(v \<mapsto> \<lparr>buf = [], cap = 0, closed = True\<rparr>), pool := [genVals_go (Some 0) (zs # it) None,
          Bridge_go (Some 0) (Some 1) (Bridge_forward (Some v) y),
          Consume (Some 1) (out)]\<rparr>"
          then show ?thesis
            by (intro low[OF genVals_inv.draining[where g = "Gen_make (zs # it)" and c = "c" and v = "v" and kc = "kc" and ys = "ys"
                  and od = "None" and bpc = "Bridge_forward (Some v) y" and out = "out"]])
              (use assms forward return g_cons in \<open>auto\<close>)
        next
          assume "s' = s\<lparr>heap := (heap s)(fresh s \<mapsto> \<lparr>buf = zs, cap = length zs, closed = True\<rparr>), fresh := Suc (fresh s), pool := [genVals_go (Some 0) (it) (Some (Some (fresh s))),
          Bridge_go (Some 0) (Some 1) (Bridge_forward (Some v) y),
          Consume (Some 1) (out),
          OrDone_go (Some c) (Some v) (OrDone_return)]\<rparr>"
          then show ?thesis
            by (intro low[OF genVals_inv.draining[where g = "Gen_hand (fresh s) zs (it)" and c = "c" and v = "v" and kc = "kc" and ys = "ys"
                  and od = "Some (OrDone_return)" and bpc = "Bridge_forward (Some v) y" and out = "out"]])
              (use assms forward return g_cons in \<open>auto\<close>)
        qed
      next
        case (g_hand c' zs it)
        have "s' = s\<lparr>pool := [genVals_go (Some 0) (it) (Some (Some (c'))),
          Bridge_go (Some 0) (Some 1) (Bridge_range (Some v)),
          Consume (Some 1) (out @ [y]),
          OrDone_go (Some c) (Some v) (OrDone_return)]\<rparr>
          \<or> s' = s\<lparr>heap := (heap s)(v \<mapsto> \<lparr>buf = [], cap = 0, closed = True\<rparr>), pool := [genVals_go (Some 0) (it) (Some (Some (c'))),
          Bridge_go (Some 0) (Some 1) (Bridge_forward (Some v) y),
          Consume (Some 1) (out)]\<rparr>"
          using assms forward return g_hand by (auto simp: sched OrDone_def make_chan_def go_def source_def)
        then show ?thesis
        proof (elim disjE conjE exE)
          assume "s' = s\<lparr>pool := [genVals_go (Some 0) (it) (Some (Some (c'))),
          Bridge_go (Some 0) (Some 1) (Bridge_range (Some v)),
          Consume (Some 1) (out @ [y]),
          OrDone_go (Some c) (Some v) (OrDone_return)]\<rparr>"
          then show ?thesis
            by (intro low[OF genVals_inv.draining[where g = "Gen_hand c' zs it" and c = "c" and v = "v" and kc = "kc" and ys = "ys"
                  and od = "Some (OrDone_return)" and bpc = "Bridge_range (Some v)" and out = "out @ [y]"]])
              (use assms forward return g_hand in \<open>auto\<close>)
        next
          assume "s' = s\<lparr>heap := (heap s)(v \<mapsto> \<lparr>buf = [], cap = 0, closed = True\<rparr>), pool := [genVals_go (Some 0) (it) (Some (Some (c'))),
          Bridge_go (Some 0) (Some 1) (Bridge_forward (Some v) y),
          Consume (Some 1) (out)]\<rparr>"
          then show ?thesis
            by (intro low[OF genVals_inv.draining[where g = "Gen_hand c' zs it" and c = "c" and v = "v" and kc = "kc" and ys = "ys"
                  and od = "None" and bpc = "Bridge_forward (Some v) y" and out = "out"]])
              (use assms forward return g_hand in \<open>auto\<close>)
        qed
      next
        case g_gone
        have "s' = s\<lparr>pool := [Bridge_go (Some 0) (Some 1) (Bridge_range (Some v)),
          Consume (Some 1) (out @ [y]),
          OrDone_go (Some c) (Some v) (OrDone_return)]\<rparr>
          \<or> s' = s\<lparr>heap := (heap s)(v \<mapsto> \<lparr>buf = [], cap = 0, closed = True\<rparr>), pool := [Bridge_go (Some 0) (Some 1) (Bridge_forward (Some v) y),
          Consume (Some 1) (out)]\<rparr>"
          using assms forward return g_gone by (auto simp: sched OrDone_def make_chan_def go_def source_def)
        then show ?thesis
        proof (elim disjE conjE exE)
          assume "s' = s\<lparr>pool := [Bridge_go (Some 0) (Some 1) (Bridge_range (Some v)),
          Consume (Some 1) (out @ [y]),
          OrDone_go (Some c) (Some v) (OrDone_return)]\<rparr>"
          then show ?thesis
            by (intro low[OF genVals_inv.draining[where g = "Gen_gone" and c = "c" and v = "v" and kc = "kc" and ys = "ys"
                  and od = "Some (OrDone_return)" and bpc = "Bridge_range (Some v)" and out = "out @ [y]"]])
              (use assms forward return g_gone in \<open>auto\<close>)
        next
          assume "s' = s\<lparr>heap := (heap s)(v \<mapsto> \<lparr>buf = [], cap = 0, closed = True\<rparr>), pool := [Bridge_go (Some 0) (Some 1) (Bridge_forward (Some v) y),
          Consume (Some 1) (out)]\<rparr>"
          then show ?thesis
            by (intro low[OF genVals_inv.draining[where g = "Gen_gone" and c = "c" and v = "v" and kc = "kc" and ys = "ys"
                  and od = "None" and bpc = "Bridge_forward (Some v) y" and out = "out"]])
              (use assms forward return g_gone in \<open>auto\<close>)
        qed
      qed
    qed
  qed
qed

lemma genVals_inv_step:
  assumes "genVals_inv items n s" "s' \<in> set (succs s)"
  shows "\<exists>n'<n. genVals_inv items n' s'"
  using assms(1)
proof (cases rule: genVals_inv.cases)
  case (selecting g out)
  then show ?thesis using genVals_inv_step_selecting[of s g out items s'] assms(2) by simp
next
  case (calling c ys kc g out)
  then show ?thesis using genVals_inv_step_calling[of s c ys kc g out items s'] assms(2) by simp
next
  case (draining c ys kc v od g bpc out)
  then show ?thesis
    using genVals_inv_step_draining[of s c ys kc v od g bpc out items s'] assms(2) by simp
next
  case returning
  have s1: "s' = s\<lparr>heap := (heap s)(1 \<mapsto> \<lparr>buf = [], cap = 0, closed = True\<rparr>),
      pool := [Consume (Some 1) (concat items)]\<rparr>"
    using returning assms(2) by (auto simp: sched)
  show ?thesis
    by (intro lowerI[where I = "genVals_inv items", OF genVals_inv.closing])
      (use s1 returning in auto)
next
  case closing
  have s1: "s' = s\<lparr>pool := [Consumed (Some 1) (concat items)]\<rparr>"
    using closing assms(2) by (auto simp: sched)
  show ?thesis
    by (intro lowerI[where I = "genVals_inv items", OF genVals_inv.finished])
      (use s1 closing in auto)
next
  case finished
  then show ?thesis using assms(2) by (simp add: sched)
qed

lemma genVals_inv_stuck:
  assumes "genVals_inv items n s" "succs s = []"
  shows "delivered (Some 1) (concat items) s"
  using assms(1)
proof (cases rule: genVals_inv.cases)
  case (selecting g out)
  then have "succs s \<noteq> []"
    by (cases g rule: gen_cases) (auto simp: sched source_def)
  then show ?thesis using assms(2) by simp
next
  case (calling c ys kc g out)
  then have "succs s \<noteq> []"
    by (cases g rule: gen_cases) (auto simp: sched OrDone_def make_chan_def go_def source_def)
  then show ?thesis using assms(2) by simp
next
  case (draining c ys kc v od g bpc out)
  have "succs s \<noteq> []"
    using draining
    by (cases g rule: gen_cases; cases od rule: od_rank.cases; cases bpc; cases ys)
      (auto simp: sched source_def)
  then show ?thesis using assms(2) by simp
next
  case returning
  then have "succs s \<noteq> []" by (simp add: sched)
  then show ?thesis using assms(2) by simp
next
  case closing
  then have "succs s \<noteq> []" by (simp add: sched)
  then show ?thesis using assms(2) by simp
next
  case finished
  then show ?thesis by (simp add: delivered_def)
qed

lemma genVals_program_eq:
  "genVals_program items =
     (Some 1,
      \<lparr>heap = [0 \<mapsto> \<lparr>buf = [], cap = 0, closed = False\<rparr>,
               1 \<mapsto> \<lparr>buf = [], cap = 0, closed = False\<rparr>],
       fresh = 2,
       pool = [genVals_go (Some 0) items None, Bridge_go (Some 0) (Some 1) Bridge_select,
               Consume (Some 1) []],
       cancelled = False, wgs = [], calls = [], panicked = False\<rparr>)"
  by (simp add: genVals_program_def genVals_def Bridge_def allocs numeral_2_eq_2)

lemma genVals_inv_start: "\<exists>n. genVals_inv items n (snd (genVals_program items))"
  by (rule exI, rule genVals_inv.selecting[where g = "Gen_make items" and out = "[]"])
    (simp_all add: genVals_program_eq)

lemma genVals_delivers:
  "inevitably (delivered (fst (genVals_program items)) (concat items))
     (snd (genVals_program items))"
proof -
  obtain n0 where "genVals_inv items n0 (snd (genVals_program items))"
    using genVals_inv_start by blast
  then have "inevitably (delivered (Some 1) (concat items)) (snd (genVals_program items))"
    by (rule inevitably_ranked[where I = "genVals_inv items",
          OF _ genVals_inv_step genVals_inv_stuck])
  then show ?thesis by (simp add: genVals_program_eq)
qed

subsection \<open>Inner streams fed while \<open>Bridge\<close> reads them\<close>

lemma str_cases:
  obtains (s_cons) x r it where "g = Str_send (x # r) it" | (s_nil) it where "g = Str_send [] it"
    | (m_nil) "g = Str_make []" | (m_cons) zs it where "g = Str_make (zs # it)"
    | (hand) c' zs it where "g = Str_hand c' zs it" | (g_gone) "g = Str_gone"
proof (cases g)
  case (Str_send r it)
  then show ?thesis using s_cons s_nil by (cases r) auto
next
  case (Str_make it)
  then show ?thesis using m_nil m_cons by (cases it) auto
qed (use hand g_gone in auto)

lemma Streamer_inv_step_selecting:
  assumes "\<not> cancelled s" "\<not> panicked s"
    "heap s 1 = Some \<lparr>buf = [], cap = 0, closed = False\<rparr>"
    "str_ok s k {} g" "\<not> str_sends g" "1 < fresh s"
    "pool s = str_pool None k g
              @ [Bridge_go (Some 0) (Some 1) Bridge_select, Consume (Some 1) out]"
    "out @ str_rest g = concat xss"
    "s' \<in> set (succs s)"
  shows "\<exists>n'<str_rank g + 3. Streamer_inv k xss n' s'"
proof -
  note low = lowerI[where I = "Streamer_inv k xss" and s' = s' and n = "str_rank g + 3"]
  consider (i0) "g = Str_make []"
    | (i1) zs it where "g = Str_make (zs # it)"
    | (i2) c' zs it where "g = Str_hand c' zs it"
    | (i3) "g = Str_gone"
    using assms(5) by (cases g rule: str_cases) auto
  then show ?thesis
  proof cases
    case i0
    have s1: "s' = s\<lparr>heap := (heap s)(0 \<mapsto> \<lparr>buf = [], cap = 0, closed = True\<rparr>), pool := [Bridge_go (Some 0) (Some 1) Bridge_select, Consume (Some 1) out]\<rparr>"
      using assms i0 by (auto simp: sched OrDone_def make_chan_def go_def)
    show ?thesis
      by (intro low[OF Streamer_inv.selecting[where g = "Str_gone" and out = "out"]])
        (use s1 assms i0 in \<open>auto\<close>)
  next
    case i1
    have s1: "s' = s\<lparr>heap := (heap s)(fresh s \<mapsto> \<lparr>buf = [], cap = k, closed = False\<rparr>), fresh := Suc (fresh s), pool := [Streamer (Some 0) k (zs # it) (Streamer_hand (Some (fresh s))), Bridge_go (Some 0) (Some 1) Bridge_select, Consume (Some 1) out]\<rparr>"
      using assms i1 by (auto simp: sched OrDone_def make_chan_def go_def)
    show ?thesis
      by (intro low[OF Streamer_inv.selecting[where g = "Str_hand (fresh s) (zs) (it)" and out = "out"]])
        (use s1 assms i1 in \<open>auto\<close>)
  next
    case i2
    have s1: "s' = s\<lparr>pool := [Streamer (Some 0) k (it) (Streamer_send (Some c') (zs)),
          Bridge_go (Some 0) (Some 1) (Bridge_call (Some c')),
          Consume (Some 1) (out)]\<rparr>"
      using assms i2 by (auto simp: sched OrDone_def make_chan_def go_def)
    show ?thesis
      by (intro low[OF Streamer_inv.calling[where g = "Str_send (zs) (it)" and c = "c'" and b = "[]" and out = "out"]])
        (use s1 assms i2 in \<open>auto\<close>)
  next
    case i3
    have s1: "s' = s\<lparr>pool := [Bridge_go (Some 0) (Some 1) Bridge_return, Consume (Some 1) out]\<rparr>"
      using assms i3 by (auto simp: sched OrDone_def make_chan_def go_def)
    show ?thesis
      by (intro low[OF Streamer_inv.returning])
        (use s1 assms i3 in \<open>auto\<close>)
  qed
qed

lemma Streamer_inv_step_calling:
  assumes "\<not> cancelled s" "\<not> panicked s"
    "heap s 1 = Some \<lparr>buf = [], cap = 0, closed = False\<rparr>"
    "heap s c = Some \<lparr>buf = b, cap = k, closed = (\<not> str_sends g)\<rparr>"
    "1 < c" "c < fresh s" "str_ok s k {c} g"
    "pool s = str_pool (Some c) k g
              @ [Bridge_go (Some 0) (Some 1) (Bridge_call (Some c)), Consume (Some 1) out]"
    "out @ b @ str_rest g = concat xss"
    "s' \<in> set (succs s)"
  shows "\<exists>n'<str_rank g + 3 * length b + 8. Streamer_inv k xss n' s'"
proof -
  note low = lowerI[where I = "Streamer_inv k xss" and s' = s'
      and n = "str_rank g + 3 * length b + 8"]
  consider (i0) x r it where "g = Str_send (x # r) it" "b = []" "length b < k"
    | (i1) x r it where "g = Str_send (x # r) it" "b = []" "\<not> length b < k"
    | (i2) x r it u b' where "g = Str_send (x # r) it" "b = u # b'" "length b < k"
    | (i3) x r it u b' where "g = Str_send (x # r) it" "b = u # b'" "\<not> length b < k"
    | (i4) it where "g = Str_send [] it" "b = []"
    | (i5) it u b' where "g = Str_send [] it" "b = u # b'"
    | (i6) "g = Str_make []" "b = []"
    | (i7) u b' where "g = Str_make []" "b = u # b'"
    | (i8) zs it where "g = Str_make (zs # it)" "b = []"
    | (i9) zs it u b' where "g = Str_make (zs # it)" "b = u # b'"
    | (i10) c' zs it where "g = Str_hand c' zs it" "b = []"
    | (i11) c' zs it u b' where "g = Str_hand c' zs it" "b = u # b'"
    | (i12) "g = Str_gone" "b = []"
    | (i13) u b' where "g = Str_gone" "b = u # b'"
    by (cases g rule: str_cases; cases b; cases "length b < k") auto
  then show ?thesis
  proof cases
    case i0
    have "s' = s\<lparr>heap := (heap s)(fresh s \<mapsto> \<lparr>buf = [], cap = 0, closed = False\<rparr>), fresh := Suc (fresh s), pool := [Streamer (Some 0) k (it) (Streamer_send (Some c) (x # r)),
          Bridge_go (Some 0) (Some 1) (Bridge_range (Some (fresh s))),
          Consume (Some 1) (out),
          OrDone_go (Some c) (Some (fresh s)) (OrDone_select)]\<rparr>
      \<or> s' = s\<lparr>heap := (heap s)(c \<mapsto> \<lparr>buf = [x], cap = k, closed = False\<rparr>), pool := [Streamer (Some 0) k (it) (Streamer_send (Some c) (r)),
          Bridge_go (Some 0) (Some 1) (Bridge_call (Some c)),
          Consume (Some 1) (out)]\<rparr>"
      using assms i0 by (auto simp: sched OrDone_def make_chan_def go_def)
    then show ?thesis
    proof (elim disjE)
      assume "s' = s\<lparr>heap := (heap s)(fresh s \<mapsto> \<lparr>buf = [], cap = 0, closed = False\<rparr>), fresh := Suc (fresh s), pool := [Streamer (Some 0) k (it) (Streamer_send (Some c) (x # r)),
          Bridge_go (Some 0) (Some 1) (Bridge_range (Some (fresh s))),
          Consume (Some 1) (out),
          OrDone_go (Some c) (Some (fresh s)) (OrDone_select)]\<rparr>"
      then show ?thesis
        by (intro low[OF Streamer_inv.draining[where g = "Str_send (x # r) (it)" and c = "c" and v = "fresh s" and b = "[]"
                  and od = "Some (OrDone_select)" and bpc = "Bridge_range (Some (fresh s))" and out = "out"]])
          (use assms i0 in \<open>auto\<close>)
    next
      assume "s' = s\<lparr>heap := (heap s)(c \<mapsto> \<lparr>buf = [x], cap = k, closed = False\<rparr>), pool := [Streamer (Some 0) k (it) (Streamer_send (Some c) (r)),
          Bridge_go (Some 0) (Some 1) (Bridge_call (Some c)),
          Consume (Some 1) (out)]\<rparr>"
      then show ?thesis
        by (intro low[OF Streamer_inv.calling[where g = "Str_send (r) (it)" and c = "c" and b = "[x]" and out = "out"]])
          (use assms i0 in \<open>auto\<close>)
    qed
  next
    case i1
    have s1: "s' = s\<lparr>heap := (heap s)(fresh s \<mapsto> \<lparr>buf = [], cap = 0, closed = False\<rparr>), fresh := Suc (fresh s), pool := [Streamer (Some 0) k (it) (Streamer_send (Some c) (x # r)),
          Bridge_go (Some 0) (Some 1) (Bridge_range (Some (fresh s))),
          Consume (Some 1) (out),
          OrDone_go (Some c) (Some (fresh s)) (OrDone_select)]\<rparr>"
      using assms i1 by (auto simp: sched OrDone_def make_chan_def go_def)
    show ?thesis
      by (intro low[OF Streamer_inv.draining[where g = "Str_send (x # r) (it)" and c = "c" and v = "fresh s" and b = "[]"
                  and od = "Some (OrDone_select)" and bpc = "Bridge_range (Some (fresh s))" and out = "out"]])
        (use s1 assms i1 in \<open>auto\<close>)
  next
    case i2
    have "s' = s\<lparr>heap := (heap s)(fresh s \<mapsto> \<lparr>buf = [], cap = 0, closed = False\<rparr>), fresh := Suc (fresh s), pool := [Streamer (Some 0) k (it) (Streamer_send (Some c) (x # r)),
          Bridge_go (Some 0) (Some 1) (Bridge_range (Some (fresh s))),
          Consume (Some 1) (out),
          OrDone_go (Some c) (Some (fresh s)) (OrDone_select)]\<rparr>
      \<or> s' = s\<lparr>heap := (heap s)(c \<mapsto> \<lparr>buf = u # b' @ [x], cap = k, closed = False\<rparr>), pool := [Streamer (Some 0) k (it) (Streamer_send (Some c) (r)),
          Bridge_go (Some 0) (Some 1) (Bridge_call (Some c)),
          Consume (Some 1) (out)]\<rparr>"
      using assms i2 by (auto simp: sched OrDone_def make_chan_def go_def)
    then show ?thesis
    proof (elim disjE)
      assume "s' = s\<lparr>heap := (heap s)(fresh s \<mapsto> \<lparr>buf = [], cap = 0, closed = False\<rparr>), fresh := Suc (fresh s), pool := [Streamer (Some 0) k (it) (Streamer_send (Some c) (x # r)),
          Bridge_go (Some 0) (Some 1) (Bridge_range (Some (fresh s))),
          Consume (Some 1) (out),
          OrDone_go (Some c) (Some (fresh s)) (OrDone_select)]\<rparr>"
      then show ?thesis
        by (intro low[OF Streamer_inv.draining[where g = "Str_send (x # r) (it)" and c = "c" and v = "fresh s" and b = "u # b'"
                  and od = "Some (OrDone_select)" and bpc = "Bridge_range (Some (fresh s))" and out = "out"]])
          (use assms i2 in \<open>auto\<close>)
    next
      assume "s' = s\<lparr>heap := (heap s)(c \<mapsto> \<lparr>buf = u # b' @ [x], cap = k, closed = False\<rparr>), pool := [Streamer (Some 0) k (it) (Streamer_send (Some c) (r)),
          Bridge_go (Some 0) (Some 1) (Bridge_call (Some c)),
          Consume (Some 1) (out)]\<rparr>"
      then show ?thesis
        by (intro low[OF Streamer_inv.calling[where g = "Str_send (r) (it)" and c = "c" and b = "u # b' @ [x]" and out = "out"]])
          (use assms i2 in \<open>auto\<close>)
    qed
  next
    case i3
    have s1: "s' = s\<lparr>heap := (heap s)(fresh s \<mapsto> \<lparr>buf = [], cap = 0, closed = False\<rparr>), fresh := Suc (fresh s), pool := [Streamer (Some 0) k (it) (Streamer_send (Some c) (x # r)),
          Bridge_go (Some 0) (Some 1) (Bridge_range (Some (fresh s))),
          Consume (Some 1) (out),
          OrDone_go (Some c) (Some (fresh s)) (OrDone_select)]\<rparr>"
      using assms i3 by (auto simp: sched OrDone_def make_chan_def go_def)
    show ?thesis
      by (intro low[OF Streamer_inv.draining[where g = "Str_send (x # r) (it)" and c = "c" and v = "fresh s" and b = "u # b'"
                  and od = "Some (OrDone_select)" and bpc = "Bridge_range (Some (fresh s))" and out = "out"]])
        (use s1 assms i3 in \<open>auto\<close>)
  next
    case i4
    have "s' = s\<lparr>heap := (heap s)(fresh s \<mapsto> \<lparr>buf = [], cap = 0, closed = False\<rparr>), fresh := Suc (fresh s), pool := [Streamer (Some 0) k (it) (Streamer_send (Some c) ([])),
          Bridge_go (Some 0) (Some 1) (Bridge_range (Some (fresh s))),
          Consume (Some 1) (out),
          OrDone_go (Some c) (Some (fresh s)) (OrDone_select)]\<rparr>
      \<or> s' = s\<lparr>heap := (heap s)(c \<mapsto> \<lparr>buf = [], cap = k, closed = True\<rparr>), pool := [Streamer (Some 0) k (it) Streamer_make,
          Bridge_go (Some 0) (Some 1) (Bridge_call (Some c)),
          Consume (Some 1) (out)]\<rparr>"
      using assms i4 by (auto simp: sched OrDone_def make_chan_def go_def)
    then show ?thesis
    proof (elim disjE)
      assume "s' = s\<lparr>heap := (heap s)(fresh s \<mapsto> \<lparr>buf = [], cap = 0, closed = False\<rparr>), fresh := Suc (fresh s), pool := [Streamer (Some 0) k (it) (Streamer_send (Some c) ([])),
          Bridge_go (Some 0) (Some 1) (Bridge_range (Some (fresh s))),
          Consume (Some 1) (out),
          OrDone_go (Some c) (Some (fresh s)) (OrDone_select)]\<rparr>"
      then show ?thesis
        by (intro low[OF Streamer_inv.draining[where g = "Str_send ([]) (it)" and c = "c" and v = "fresh s" and b = "[]"
                  and od = "Some (OrDone_select)" and bpc = "Bridge_range (Some (fresh s))" and out = "out"]])
          (use assms i4 in \<open>auto\<close>)
    next
      assume "s' = s\<lparr>heap := (heap s)(c \<mapsto> \<lparr>buf = [], cap = k, closed = True\<rparr>), pool := [Streamer (Some 0) k (it) Streamer_make,
          Bridge_go (Some 0) (Some 1) (Bridge_call (Some c)),
          Consume (Some 1) (out)]\<rparr>"
      then show ?thesis
        by (intro low[OF Streamer_inv.calling[where g = "Str_make (it)" and c = "c" and b = "[]" and out = "out"]])
          (use assms i4 in \<open>auto\<close>)
    qed
  next
    case i5
    have "s' = s\<lparr>heap := (heap s)(fresh s \<mapsto> \<lparr>buf = [], cap = 0, closed = False\<rparr>), fresh := Suc (fresh s), pool := [Streamer (Some 0) k (it) (Streamer_send (Some c) ([])),
          Bridge_go (Some 0) (Some 1) (Bridge_range (Some (fresh s))),
          Consume (Some 1) (out),
          OrDone_go (Some c) (Some (fresh s)) (OrDone_select)]\<rparr>
      \<or> s' = s\<lparr>heap := (heap s)(c \<mapsto> \<lparr>buf = u # b', cap = k, closed = True\<rparr>), pool := [Streamer (Some 0) k (it) Streamer_make,
          Bridge_go (Some 0) (Some 1) (Bridge_call (Some c)),
          Consume (Some 1) (out)]\<rparr>"
      using assms i5 by (auto simp: sched OrDone_def make_chan_def go_def)
    then show ?thesis
    proof (elim disjE)
      assume "s' = s\<lparr>heap := (heap s)(fresh s \<mapsto> \<lparr>buf = [], cap = 0, closed = False\<rparr>), fresh := Suc (fresh s), pool := [Streamer (Some 0) k (it) (Streamer_send (Some c) ([])),
          Bridge_go (Some 0) (Some 1) (Bridge_range (Some (fresh s))),
          Consume (Some 1) (out),
          OrDone_go (Some c) (Some (fresh s)) (OrDone_select)]\<rparr>"
      then show ?thesis
        by (intro low[OF Streamer_inv.draining[where g = "Str_send ([]) (it)" and c = "c" and v = "fresh s" and b = "u # b'"
                  and od = "Some (OrDone_select)" and bpc = "Bridge_range (Some (fresh s))" and out = "out"]])
          (use assms i5 in \<open>auto\<close>)
    next
      assume "s' = s\<lparr>heap := (heap s)(c \<mapsto> \<lparr>buf = u # b', cap = k, closed = True\<rparr>), pool := [Streamer (Some 0) k (it) Streamer_make,
          Bridge_go (Some 0) (Some 1) (Bridge_call (Some c)),
          Consume (Some 1) (out)]\<rparr>"
      then show ?thesis
        by (intro low[OF Streamer_inv.calling[where g = "Str_make (it)" and c = "c" and b = "u # b'" and out = "out"]])
          (use assms i5 in \<open>auto\<close>)
    qed
  next
    case i6
    have "s' = s\<lparr>heap := (heap s)(fresh s \<mapsto> \<lparr>buf = [], cap = 0, closed = False\<rparr>), fresh := Suc (fresh s), pool := [Streamer (Some 0) k ([]) Streamer_make,
          Bridge_go (Some 0) (Some 1) (Bridge_range (Some (fresh s))),
          Consume (Some 1) (out),
          OrDone_go (Some c) (Some (fresh s)) (OrDone_select)]\<rparr>
      \<or> s' = s\<lparr>heap := (heap s)(0 \<mapsto> \<lparr>buf = [], cap = 0, closed = True\<rparr>), pool := [Bridge_go (Some 0) (Some 1) (Bridge_call (Some c)),
          Consume (Some 1) (out)]\<rparr>"
      using assms i6 by (auto simp: sched OrDone_def make_chan_def go_def)
    then show ?thesis
    proof (elim disjE)
      assume "s' = s\<lparr>heap := (heap s)(fresh s \<mapsto> \<lparr>buf = [], cap = 0, closed = False\<rparr>), fresh := Suc (fresh s), pool := [Streamer (Some 0) k ([]) Streamer_make,
          Bridge_go (Some 0) (Some 1) (Bridge_range (Some (fresh s))),
          Consume (Some 1) (out),
          OrDone_go (Some c) (Some (fresh s)) (OrDone_select)]\<rparr>"
      then show ?thesis
        by (intro low[OF Streamer_inv.draining[where g = "Str_make ([])" and c = "c" and v = "fresh s" and b = "[]"
                  and od = "Some (OrDone_select)" and bpc = "Bridge_range (Some (fresh s))" and out = "out"]])
          (use assms i6 in \<open>auto\<close>)
    next
      assume "s' = s\<lparr>heap := (heap s)(0 \<mapsto> \<lparr>buf = [], cap = 0, closed = True\<rparr>), pool := [Bridge_go (Some 0) (Some 1) (Bridge_call (Some c)),
          Consume (Some 1) (out)]\<rparr>"
      then show ?thesis
        by (intro low[OF Streamer_inv.calling[where g = "Str_gone" and c = "c" and b = "[]" and out = "out"]])
          (use assms i6 in \<open>auto\<close>)
    qed
  next
    case i7
    have "s' = s\<lparr>heap := (heap s)(fresh s \<mapsto> \<lparr>buf = [], cap = 0, closed = False\<rparr>), fresh := Suc (fresh s), pool := [Streamer (Some 0) k ([]) Streamer_make,
          Bridge_go (Some 0) (Some 1) (Bridge_range (Some (fresh s))),
          Consume (Some 1) (out),
          OrDone_go (Some c) (Some (fresh s)) (OrDone_select)]\<rparr>
      \<or> s' = s\<lparr>heap := (heap s)(0 \<mapsto> \<lparr>buf = [], cap = 0, closed = True\<rparr>), pool := [Bridge_go (Some 0) (Some 1) (Bridge_call (Some c)),
          Consume (Some 1) (out)]\<rparr>"
      using assms i7 by (auto simp: sched OrDone_def make_chan_def go_def)
    then show ?thesis
    proof (elim disjE)
      assume "s' = s\<lparr>heap := (heap s)(fresh s \<mapsto> \<lparr>buf = [], cap = 0, closed = False\<rparr>), fresh := Suc (fresh s), pool := [Streamer (Some 0) k ([]) Streamer_make,
          Bridge_go (Some 0) (Some 1) (Bridge_range (Some (fresh s))),
          Consume (Some 1) (out),
          OrDone_go (Some c) (Some (fresh s)) (OrDone_select)]\<rparr>"
      then show ?thesis
        by (intro low[OF Streamer_inv.draining[where g = "Str_make ([])" and c = "c" and v = "fresh s" and b = "u # b'"
                  and od = "Some (OrDone_select)" and bpc = "Bridge_range (Some (fresh s))" and out = "out"]])
          (use assms i7 in \<open>auto\<close>)
    next
      assume "s' = s\<lparr>heap := (heap s)(0 \<mapsto> \<lparr>buf = [], cap = 0, closed = True\<rparr>), pool := [Bridge_go (Some 0) (Some 1) (Bridge_call (Some c)),
          Consume (Some 1) (out)]\<rparr>"
      then show ?thesis
        by (intro low[OF Streamer_inv.calling[where g = "Str_gone" and c = "c" and b = "u # b'" and out = "out"]])
          (use assms i7 in \<open>auto\<close>)
    qed
  next
    case i8
    have "s' = s\<lparr>heap := (heap s)(fresh s \<mapsto> \<lparr>buf = [], cap = 0, closed = False\<rparr>), fresh := Suc (fresh s), pool := [Streamer (Some 0) k (zs # it) Streamer_make,
          Bridge_go (Some 0) (Some 1) (Bridge_range (Some (fresh s))),
          Consume (Some 1) (out),
          OrDone_go (Some c) (Some (fresh s)) (OrDone_select)]\<rparr>
      \<or> s' = s\<lparr>heap := (heap s)(fresh s \<mapsto> \<lparr>buf = [], cap = k, closed = False\<rparr>), fresh := Suc (fresh s), pool := [Streamer (Some 0) k (zs # it) (Streamer_hand (Some (fresh s))),
          Bridge_go (Some 0) (Some 1) (Bridge_call (Some c)),
          Consume (Some 1) (out)]\<rparr>"
      using assms i8 by (auto simp: sched OrDone_def make_chan_def go_def)
    then show ?thesis
    proof (elim disjE)
      assume "s' = s\<lparr>heap := (heap s)(fresh s \<mapsto> \<lparr>buf = [], cap = 0, closed = False\<rparr>), fresh := Suc (fresh s), pool := [Streamer (Some 0) k (zs # it) Streamer_make,
          Bridge_go (Some 0) (Some 1) (Bridge_range (Some (fresh s))),
          Consume (Some 1) (out),
          OrDone_go (Some c) (Some (fresh s)) (OrDone_select)]\<rparr>"
      then show ?thesis
        by (intro low[OF Streamer_inv.draining[where g = "Str_make (zs # it)" and c = "c" and v = "fresh s" and b = "[]"
                  and od = "Some (OrDone_select)" and bpc = "Bridge_range (Some (fresh s))" and out = "out"]])
          (use assms i8 in \<open>auto\<close>)
    next
      assume "s' = s\<lparr>heap := (heap s)(fresh s \<mapsto> \<lparr>buf = [], cap = k, closed = False\<rparr>), fresh := Suc (fresh s), pool := [Streamer (Some 0) k (zs # it) (Streamer_hand (Some (fresh s))),
          Bridge_go (Some 0) (Some 1) (Bridge_call (Some c)),
          Consume (Some 1) (out)]\<rparr>"
      then show ?thesis
        by (intro low[OF Streamer_inv.calling[where g = "Str_hand (fresh s) (zs) (it)" and c = "c" and b = "[]" and out = "out"]])
          (use assms i8 in \<open>auto\<close>)
    qed
  next
    case i9
    have "s' = s\<lparr>heap := (heap s)(fresh s \<mapsto> \<lparr>buf = [], cap = 0, closed = False\<rparr>), fresh := Suc (fresh s), pool := [Streamer (Some 0) k (zs # it) Streamer_make,
          Bridge_go (Some 0) (Some 1) (Bridge_range (Some (fresh s))),
          Consume (Some 1) (out),
          OrDone_go (Some c) (Some (fresh s)) (OrDone_select)]\<rparr>
      \<or> s' = s\<lparr>heap := (heap s)(fresh s \<mapsto> \<lparr>buf = [], cap = k, closed = False\<rparr>), fresh := Suc (fresh s), pool := [Streamer (Some 0) k (zs # it) (Streamer_hand (Some (fresh s))),
          Bridge_go (Some 0) (Some 1) (Bridge_call (Some c)),
          Consume (Some 1) (out)]\<rparr>"
      using assms i9 by (auto simp: sched OrDone_def make_chan_def go_def)
    then show ?thesis
    proof (elim disjE)
      assume "s' = s\<lparr>heap := (heap s)(fresh s \<mapsto> \<lparr>buf = [], cap = 0, closed = False\<rparr>), fresh := Suc (fresh s), pool := [Streamer (Some 0) k (zs # it) Streamer_make,
          Bridge_go (Some 0) (Some 1) (Bridge_range (Some (fresh s))),
          Consume (Some 1) (out),
          OrDone_go (Some c) (Some (fresh s)) (OrDone_select)]\<rparr>"
      then show ?thesis
        by (intro low[OF Streamer_inv.draining[where g = "Str_make (zs # it)" and c = "c" and v = "fresh s" and b = "u # b'"
                  and od = "Some (OrDone_select)" and bpc = "Bridge_range (Some (fresh s))" and out = "out"]])
          (use assms i9 in \<open>auto\<close>)
    next
      assume "s' = s\<lparr>heap := (heap s)(fresh s \<mapsto> \<lparr>buf = [], cap = k, closed = False\<rparr>), fresh := Suc (fresh s), pool := [Streamer (Some 0) k (zs # it) (Streamer_hand (Some (fresh s))),
          Bridge_go (Some 0) (Some 1) (Bridge_call (Some c)),
          Consume (Some 1) (out)]\<rparr>"
      then show ?thesis
        by (intro low[OF Streamer_inv.calling[where g = "Str_hand (fresh s) (zs) (it)" and c = "c" and b = "u # b'" and out = "out"]])
          (use assms i9 in \<open>auto\<close>)
    qed
  next
    case i10
    have s1: "s' = s\<lparr>heap := (heap s)(fresh s \<mapsto> \<lparr>buf = [], cap = 0, closed = False\<rparr>), fresh := Suc (fresh s), pool := [Streamer (Some 0) k (zs # it) (Streamer_hand (Some (c'))),
          Bridge_go (Some 0) (Some 1) (Bridge_range (Some (fresh s))),
          Consume (Some 1) (out),
          OrDone_go (Some c) (Some (fresh s)) (OrDone_select)]\<rparr>"
      using assms i10 by (auto simp: sched OrDone_def make_chan_def go_def)
    show ?thesis
      by (intro low[OF Streamer_inv.draining[where g = "Str_hand (c') (zs) (it)" and c = "c" and v = "fresh s" and b = "[]"
                  and od = "Some (OrDone_select)" and bpc = "Bridge_range (Some (fresh s))" and out = "out"]])
        (use s1 assms i10 in \<open>auto\<close>)
  next
    case i11
    have s1: "s' = s\<lparr>heap := (heap s)(fresh s \<mapsto> \<lparr>buf = [], cap = 0, closed = False\<rparr>), fresh := Suc (fresh s), pool := [Streamer (Some 0) k (zs # it) (Streamer_hand (Some (c'))),
          Bridge_go (Some 0) (Some 1) (Bridge_range (Some (fresh s))),
          Consume (Some 1) (out),
          OrDone_go (Some c) (Some (fresh s)) (OrDone_select)]\<rparr>"
      using assms i11 by (auto simp: sched OrDone_def make_chan_def go_def)
    show ?thesis
      by (intro low[OF Streamer_inv.draining[where g = "Str_hand (c') (zs) (it)" and c = "c" and v = "fresh s" and b = "u # b'"
                  and od = "Some (OrDone_select)" and bpc = "Bridge_range (Some (fresh s))" and out = "out"]])
        (use s1 assms i11 in \<open>auto\<close>)
  next
    case i12
    have s1: "s' = s\<lparr>heap := (heap s)(fresh s \<mapsto> \<lparr>buf = [], cap = 0, closed = False\<rparr>), fresh := Suc (fresh s), pool := [Bridge_go (Some 0) (Some 1) (Bridge_range (Some (fresh s))),
          Consume (Some 1) (out),
          OrDone_go (Some c) (Some (fresh s)) (OrDone_select)]\<rparr>"
      using assms i12 by (auto simp: sched OrDone_def make_chan_def go_def)
    show ?thesis
      by (intro low[OF Streamer_inv.draining[where g = "Str_gone" and c = "c" and v = "fresh s" and b = "[]"
                  and od = "Some (OrDone_select)" and bpc = "Bridge_range (Some (fresh s))" and out = "out"]])
        (use s1 assms i12 in \<open>auto\<close>)
  next
    case i13
    have s1: "s' = s\<lparr>heap := (heap s)(fresh s \<mapsto> \<lparr>buf = [], cap = 0, closed = False\<rparr>), fresh := Suc (fresh s), pool := [Bridge_go (Some 0) (Some 1) (Bridge_range (Some (fresh s))),
          Consume (Some 1) (out),
          OrDone_go (Some c) (Some (fresh s)) (OrDone_select)]\<rparr>"
      using assms i13 by (auto simp: sched OrDone_def make_chan_def go_def)
    show ?thesis
      by (intro low[OF Streamer_inv.draining[where g = "Str_gone" and c = "c" and v = "fresh s" and b = "u # b'"
                  and od = "Some (OrDone_select)" and bpc = "Bridge_range (Some (fresh s))" and out = "out"]])
        (use s1 assms i13 in \<open>auto\<close>)
  qed
qed

lemma Streamer_inv_step_draining:
  assumes "\<not> cancelled s" "\<not> panicked s"
    "heap s 1 = Some \<lparr>buf = [], cap = 0, closed = False\<rparr>"
    "heap s c = Some \<lparr>buf = b, cap = k, closed = (\<not> str_sends g)\<rparr>"
    "heap s v = Some \<lparr>buf = [], cap = 0, closed = (od = None)\<rparr>"
    "1 < c" "c < fresh s" "1 < v" "v < fresh s" "c \<noteq> v"
    "str_ok s k {c, v} g"
    "od_drained od \<Longrightarrow> b = []" "od_drained od \<Longrightarrow> \<not> str_sends g"
    "pool s = str_pool (Some c) k g
              @ [Bridge_go (Some 0) (Some 1) bpc, Consume (Some 1) out]
              @ od_pool (Some c) (Some v) od"
    "bridge_reads (Some v) bpc"
    "out @ bridge_holds bpc @ od_holds od @ b @ str_rest g = concat xss"
    "s' \<in> set (succs s)"
  shows "\<exists>n'<str_rank g + 3 * length b + 3 + bridge_rank bpc + od_rank od. Streamer_inv k xss n' s'"
proof -
  note low = lowerI[where I = "Streamer_inv k xss" and s' = s'
      and n = "str_rank g + 3 * length b + 3 + bridge_rank bpc + od_rank od"]
  consider (range) "bpc = Bridge_range (Some v)"
    | (forward) y where "bpc = Bridge_forward (Some v) y"
    using assms(15) by (cases bpc) auto
  then show ?thesis
  proof cases
    case range
    consider (gone) "od = None" | (select) "od = Some OrDone_select"
      | (forward') w where "od = Some (OrDone_forward w)" | (return) "od = Some OrDone_return"
      by (cases od rule: od_rank.cases) auto
    then show ?thesis
    proof cases
      case gone
      consider (i0) "g = Str_make []" "b = []"
        | (i2) zs it where "g = Str_make (zs # it)" "b = []"
        | (i4) c' zs it where "g = Str_hand c' zs it" "b = []"
        | (i6) "g = Str_gone" "b = []"
        using assms(12,13) gone by (cases g rule: str_cases) auto
      then show ?thesis
      proof cases
        case i0
        have "s' = s\<lparr>pool := [Streamer (Some 0) k ([]) Streamer_make, Bridge_go (Some 0) (Some 1) Bridge_select, Consume (Some 1) out]\<rparr>
          \<or> s' = s\<lparr>heap := (heap s)(0 \<mapsto> \<lparr>buf = [], cap = 0, closed = True\<rparr>), pool := [Bridge_go (Some 0) (Some 1) (Bridge_range (Some v)),
          Consume (Some 1) (out)]\<rparr>"
          using assms range gone i0 by (auto simp: sched OrDone_def make_chan_def go_def)
        then show ?thesis
        proof (elim disjE)
          assume "s' = s\<lparr>pool := [Streamer (Some 0) k ([]) Streamer_make, Bridge_go (Some 0) (Some 1) Bridge_select, Consume (Some 1) out]\<rparr>"
          then show ?thesis
            by (intro low[OF Streamer_inv.selecting[where g = "Str_make ([])" and out = "out"]])
              (use assms range gone i0 in \<open>auto\<close>)
        next
          assume "s' = s\<lparr>heap := (heap s)(0 \<mapsto> \<lparr>buf = [], cap = 0, closed = True\<rparr>), pool := [Bridge_go (Some 0) (Some 1) (Bridge_range (Some v)),
          Consume (Some 1) (out)]\<rparr>"
          then show ?thesis
            by (intro low[OF Streamer_inv.draining[where g = "Str_gone" and c = "c" and v = "v" and b = "[]"
                  and od = "None" and bpc = "Bridge_range (Some v)" and out = "out"]])
              (use assms range gone i0 in \<open>auto\<close>)
        qed
      next
        case i2
        have "s' = s\<lparr>pool := [Streamer (Some 0) k (zs # it) Streamer_make, Bridge_go (Some 0) (Some 1) Bridge_select, Consume (Some 1) out]\<rparr>
          \<or> s' = s\<lparr>heap := (heap s)(fresh s \<mapsto> \<lparr>buf = [], cap = k, closed = False\<rparr>), fresh := Suc (fresh s), pool := [Streamer (Some 0) k (zs # it) (Streamer_hand (Some (fresh s))),
          Bridge_go (Some 0) (Some 1) (Bridge_range (Some v)),
          Consume (Some 1) (out)]\<rparr>"
          using assms range gone i2 by (auto simp: sched OrDone_def make_chan_def go_def)
        then show ?thesis
        proof (elim disjE)
          assume "s' = s\<lparr>pool := [Streamer (Some 0) k (zs # it) Streamer_make, Bridge_go (Some 0) (Some 1) Bridge_select, Consume (Some 1) out]\<rparr>"
          then show ?thesis
            by (intro low[OF Streamer_inv.selecting[where g = "Str_make (zs # it)" and out = "out"]])
              (use assms range gone i2 in \<open>auto\<close>)
        next
          assume "s' = s\<lparr>heap := (heap s)(fresh s \<mapsto> \<lparr>buf = [], cap = k, closed = False\<rparr>), fresh := Suc (fresh s), pool := [Streamer (Some 0) k (zs # it) (Streamer_hand (Some (fresh s))),
          Bridge_go (Some 0) (Some 1) (Bridge_range (Some v)),
          Consume (Some 1) (out)]\<rparr>"
          then show ?thesis
            by (intro low[OF Streamer_inv.draining[where g = "Str_hand (fresh s) (zs) (it)" and c = "c" and v = "v" and b = "[]"
                  and od = "None" and bpc = "Bridge_range (Some v)" and out = "out"]])
              (use assms range gone i2 in \<open>auto\<close>)
        qed
      next
        case i4
        have s1: "s' = s\<lparr>pool := [Streamer (Some 0) k (zs # it) (Streamer_hand (Some (c'))), Bridge_go (Some 0) (Some 1) Bridge_select, Consume (Some 1) out]\<rparr>"
          using assms range gone i4 by (auto simp: sched OrDone_def make_chan_def go_def)
        show ?thesis
          by (intro low[OF Streamer_inv.selecting[where g = "Str_hand (c') (zs) (it)" and out = "out"]])
            (use s1 assms range gone i4 in \<open>auto\<close>)
      next
        case i6
        have s1: "s' = s\<lparr>pool := [Bridge_go (Some 0) (Some 1) Bridge_select, Consume (Some 1) out]\<rparr>"
          using assms range gone i6 by (auto simp: sched OrDone_def make_chan_def go_def)
        show ?thesis
          by (intro low[OF Streamer_inv.selecting[where g = "Str_gone" and out = "out"]])
            (use s1 assms range gone i6 in \<open>auto\<close>)
      qed
    next
      case select
      consider (i0) x r it where "g = Str_send (x # r) it" "b = []" "length b < k"
        | (i1) x r it where "g = Str_send (x # r) it" "b = []" "\<not> length b < k"
        | (i2) x r it u b' where "g = Str_send (x # r) it" "b = u # b'" "length b < k"
        | (i3) x r it u b' where "g = Str_send (x # r) it" "b = u # b'" "\<not> length b < k"
        | (i4) it where "g = Str_send [] it" "b = []"
        | (i5) it u b' where "g = Str_send [] it" "b = u # b'"
        | (i6) "g = Str_make []" "b = []"
        | (i7) u b' where "g = Str_make []" "b = u # b'"
        | (i8) zs it where "g = Str_make (zs # it)" "b = []"
        | (i9) zs it u b' where "g = Str_make (zs # it)" "b = u # b'"
        | (i10) c' zs it where "g = Str_hand c' zs it" "b = []"
        | (i11) c' zs it u b' where "g = Str_hand c' zs it" "b = u # b'"
        | (i12) "g = Str_gone" "b = []"
        | (i13) u b' where "g = Str_gone" "b = u # b'"
        by (cases g rule: str_cases; cases b; cases "length b < k") auto
      then show ?thesis
      proof cases
        case i0
        have "s' = s\<lparr>heap := (heap s)(c \<mapsto> \<lparr>buf = [x], cap = k, closed = False\<rparr>), pool := [Streamer (Some 0) k (it) (Streamer_send (Some c) (r)),
          Bridge_go (Some 0) (Some 1) (Bridge_range (Some v)),
          Consume (Some 1) (out),
          OrDone_go (Some c) (Some v) (OrDone_select)]\<rparr>
          \<or> s' = s\<lparr>pool := [Streamer (Some 0) k (it) (Streamer_send (Some c) (r)),
          Bridge_go (Some 0) (Some 1) (Bridge_range (Some v)),
          Consume (Some 1) (out),
          OrDone_go (Some c) (Some v) (OrDone_forward x)]\<rparr>"
          using assms range select i0 by (auto simp: sched OrDone_def make_chan_def go_def)
        then show ?thesis
        proof (elim disjE)
          assume "s' = s\<lparr>heap := (heap s)(c \<mapsto> \<lparr>buf = [x], cap = k, closed = False\<rparr>), pool := [Streamer (Some 0) k (it) (Streamer_send (Some c) (r)),
          Bridge_go (Some 0) (Some 1) (Bridge_range (Some v)),
          Consume (Some 1) (out),
          OrDone_go (Some c) (Some v) (OrDone_select)]\<rparr>"
          then show ?thesis
            by (intro low[OF Streamer_inv.draining[where g = "Str_send (r) (it)" and c = "c" and v = "v" and b = "[x]"
                  and od = "Some (OrDone_select)" and bpc = "Bridge_range (Some v)" and out = "out"]])
              (use assms range select i0 in \<open>auto\<close>)
        next
          assume "s' = s\<lparr>pool := [Streamer (Some 0) k (it) (Streamer_send (Some c) (r)),
          Bridge_go (Some 0) (Some 1) (Bridge_range (Some v)),
          Consume (Some 1) (out),
          OrDone_go (Some c) (Some v) (OrDone_forward x)]\<rparr>"
          then show ?thesis
            by (intro low[OF Streamer_inv.draining[where g = "Str_send (r) (it)" and c = "c" and v = "v" and b = "[]"
                  and od = "Some (OrDone_forward x)" and bpc = "Bridge_range (Some v)" and out = "out"]])
              (use assms range select i0 in \<open>auto\<close>)
        qed
      next
        case i1
        have s1: "s' = s\<lparr>pool := [Streamer (Some 0) k (it) (Streamer_send (Some c) (r)),
          Bridge_go (Some 0) (Some 1) (Bridge_range (Some v)),
          Consume (Some 1) (out),
          OrDone_go (Some c) (Some v) (OrDone_forward x)]\<rparr>"
          using assms range select i1 by (auto simp: sched OrDone_def make_chan_def go_def)
        show ?thesis
          by (intro low[OF Streamer_inv.draining[where g = "Str_send (r) (it)" and c = "c" and v = "v" and b = "[]"
                  and od = "Some (OrDone_forward x)" and bpc = "Bridge_range (Some v)" and out = "out"]])
            (use s1 assms range select i1 in \<open>auto\<close>)
      next
        case i2
        have "s' = s\<lparr>heap := (heap s)(c \<mapsto> \<lparr>buf = u # b' @ [x], cap = k, closed = False\<rparr>), pool := [Streamer (Some 0) k (it) (Streamer_send (Some c) (r)),
          Bridge_go (Some 0) (Some 1) (Bridge_range (Some v)),
          Consume (Some 1) (out),
          OrDone_go (Some c) (Some v) (OrDone_select)]\<rparr>
          \<or> s' = s\<lparr>heap := (heap s)(c \<mapsto> \<lparr>buf = b', cap = k, closed = False\<rparr>), pool := [Streamer (Some 0) k (it) (Streamer_send (Some c) (x # r)),
          Bridge_go (Some 0) (Some 1) (Bridge_range (Some v)),
          Consume (Some 1) (out),
          OrDone_go (Some c) (Some v) (OrDone_forward u)]\<rparr>"
          using assms range select i2 by (auto simp: sched OrDone_def make_chan_def go_def)
        then show ?thesis
        proof (elim disjE)
          assume "s' = s\<lparr>heap := (heap s)(c \<mapsto> \<lparr>buf = u # b' @ [x], cap = k, closed = False\<rparr>), pool := [Streamer (Some 0) k (it) (Streamer_send (Some c) (r)),
          Bridge_go (Some 0) (Some 1) (Bridge_range (Some v)),
          Consume (Some 1) (out),
          OrDone_go (Some c) (Some v) (OrDone_select)]\<rparr>"
          then show ?thesis
            by (intro low[OF Streamer_inv.draining[where g = "Str_send (r) (it)" and c = "c" and v = "v" and b = "u # b' @ [x]"
                  and od = "Some (OrDone_select)" and bpc = "Bridge_range (Some v)" and out = "out"]])
              (use assms range select i2 in \<open>auto\<close>)
        next
          assume "s' = s\<lparr>heap := (heap s)(c \<mapsto> \<lparr>buf = b', cap = k, closed = False\<rparr>), pool := [Streamer (Some 0) k (it) (Streamer_send (Some c) (x # r)),
          Bridge_go (Some 0) (Some 1) (Bridge_range (Some v)),
          Consume (Some 1) (out),
          OrDone_go (Some c) (Some v) (OrDone_forward u)]\<rparr>"
          then show ?thesis
            by (intro low[OF Streamer_inv.draining[where g = "Str_send (x # r) (it)" and c = "c" and v = "v" and b = "b'"
                  and od = "Some (OrDone_forward u)" and bpc = "Bridge_range (Some v)" and out = "out"]])
              (use assms range select i2 in \<open>auto\<close>)
        qed
      next
        case i3
        have s1: "s' = s\<lparr>heap := (heap s)(c \<mapsto> \<lparr>buf = b', cap = k, closed = False\<rparr>), pool := [Streamer (Some 0) k (it) (Streamer_send (Some c) (x # r)),
          Bridge_go (Some 0) (Some 1) (Bridge_range (Some v)),
          Consume (Some 1) (out),
          OrDone_go (Some c) (Some v) (OrDone_forward u)]\<rparr>"
          using assms range select i3 by (auto simp: sched OrDone_def make_chan_def go_def)
        show ?thesis
          by (intro low[OF Streamer_inv.draining[where g = "Str_send (x # r) (it)" and c = "c" and v = "v" and b = "b'"
                  and od = "Some (OrDone_forward u)" and bpc = "Bridge_range (Some v)" and out = "out"]])
            (use s1 assms range select i3 in \<open>auto\<close>)
      next
        case i4
        have s1: "s' = s\<lparr>heap := (heap s)(c \<mapsto> \<lparr>buf = [], cap = k, closed = True\<rparr>), pool := [Streamer (Some 0) k (it) Streamer_make,
          Bridge_go (Some 0) (Some 1) (Bridge_range (Some v)),
          Consume (Some 1) (out),
          OrDone_go (Some c) (Some v) (OrDone_select)]\<rparr>"
          using assms range select i4 by (auto simp: sched OrDone_def make_chan_def go_def)
        show ?thesis
          by (intro low[OF Streamer_inv.draining[where g = "Str_make (it)" and c = "c" and v = "v" and b = "[]"
                  and od = "Some (OrDone_select)" and bpc = "Bridge_range (Some v)" and out = "out"]])
            (use s1 assms range select i4 in \<open>auto\<close>)
      next
        case i5
        have "s' = s\<lparr>heap := (heap s)(c \<mapsto> \<lparr>buf = u # b', cap = k, closed = True\<rparr>), pool := [Streamer (Some 0) k (it) Streamer_make,
          Bridge_go (Some 0) (Some 1) (Bridge_range (Some v)),
          Consume (Some 1) (out),
          OrDone_go (Some c) (Some v) (OrDone_select)]\<rparr>
          \<or> s' = s\<lparr>heap := (heap s)(c \<mapsto> \<lparr>buf = b', cap = k, closed = False\<rparr>), pool := [Streamer (Some 0) k (it) (Streamer_send (Some c) ([])),
          Bridge_go (Some 0) (Some 1) (Bridge_range (Some v)),
          Consume (Some 1) (out),
          OrDone_go (Some c) (Some v) (OrDone_forward u)]\<rparr>"
          using assms range select i5 by (auto simp: sched OrDone_def make_chan_def go_def)
        then show ?thesis
        proof (elim disjE)
          assume "s' = s\<lparr>heap := (heap s)(c \<mapsto> \<lparr>buf = u # b', cap = k, closed = True\<rparr>), pool := [Streamer (Some 0) k (it) Streamer_make,
          Bridge_go (Some 0) (Some 1) (Bridge_range (Some v)),
          Consume (Some 1) (out),
          OrDone_go (Some c) (Some v) (OrDone_select)]\<rparr>"
          then show ?thesis
            by (intro low[OF Streamer_inv.draining[where g = "Str_make (it)" and c = "c" and v = "v" and b = "u # b'"
                  and od = "Some (OrDone_select)" and bpc = "Bridge_range (Some v)" and out = "out"]])
              (use assms range select i5 in \<open>auto\<close>)
        next
          assume "s' = s\<lparr>heap := (heap s)(c \<mapsto> \<lparr>buf = b', cap = k, closed = False\<rparr>), pool := [Streamer (Some 0) k (it) (Streamer_send (Some c) ([])),
          Bridge_go (Some 0) (Some 1) (Bridge_range (Some v)),
          Consume (Some 1) (out),
          OrDone_go (Some c) (Some v) (OrDone_forward u)]\<rparr>"
          then show ?thesis
            by (intro low[OF Streamer_inv.draining[where g = "Str_send ([]) (it)" and c = "c" and v = "v" and b = "b'"
                  and od = "Some (OrDone_forward u)" and bpc = "Bridge_range (Some v)" and out = "out"]])
              (use assms range select i5 in \<open>auto\<close>)
        qed
      next
        case i6
        have "s' = s\<lparr>heap := (heap s)(0 \<mapsto> \<lparr>buf = [], cap = 0, closed = True\<rparr>), pool := [Bridge_go (Some 0) (Some 1) (Bridge_range (Some v)),
          Consume (Some 1) (out),
          OrDone_go (Some c) (Some v) (OrDone_select)]\<rparr>
          \<or> s' = s\<lparr>pool := [Streamer (Some 0) k ([]) Streamer_make,
          Bridge_go (Some 0) (Some 1) (Bridge_range (Some v)),
          Consume (Some 1) (out),
          OrDone_go (Some c) (Some v) (OrDone_return)]\<rparr>"
          using assms range select i6 by (auto simp: sched OrDone_def make_chan_def go_def)
        then show ?thesis
        proof (elim disjE)
          assume "s' = s\<lparr>heap := (heap s)(0 \<mapsto> \<lparr>buf = [], cap = 0, closed = True\<rparr>), pool := [Bridge_go (Some 0) (Some 1) (Bridge_range (Some v)),
          Consume (Some 1) (out),
          OrDone_go (Some c) (Some v) (OrDone_select)]\<rparr>"
          then show ?thesis
            by (intro low[OF Streamer_inv.draining[where g = "Str_gone" and c = "c" and v = "v" and b = "[]"
                  and od = "Some (OrDone_select)" and bpc = "Bridge_range (Some v)" and out = "out"]])
              (use assms range select i6 in \<open>auto\<close>)
        next
          assume "s' = s\<lparr>pool := [Streamer (Some 0) k ([]) Streamer_make,
          Bridge_go (Some 0) (Some 1) (Bridge_range (Some v)),
          Consume (Some 1) (out),
          OrDone_go (Some c) (Some v) (OrDone_return)]\<rparr>"
          then show ?thesis
            by (intro low[OF Streamer_inv.draining[where g = "Str_make ([])" and c = "c" and v = "v" and b = "[]"
                  and od = "Some (OrDone_return)" and bpc = "Bridge_range (Some v)" and out = "out"]])
              (use assms range select i6 in \<open>auto\<close>)
        qed
      next
        case i7
        have "s' = s\<lparr>heap := (heap s)(0 \<mapsto> \<lparr>buf = [], cap = 0, closed = True\<rparr>), pool := [Bridge_go (Some 0) (Some 1) (Bridge_range (Some v)),
          Consume (Some 1) (out),
          OrDone_go (Some c) (Some v) (OrDone_select)]\<rparr>
          \<or> s' = s\<lparr>heap := (heap s)(c \<mapsto> \<lparr>buf = b', cap = k, closed = True\<rparr>), pool := [Streamer (Some 0) k ([]) Streamer_make,
          Bridge_go (Some 0) (Some 1) (Bridge_range (Some v)),
          Consume (Some 1) (out),
          OrDone_go (Some c) (Some v) (OrDone_forward u)]\<rparr>"
          using assms range select i7 by (auto simp: sched OrDone_def make_chan_def go_def)
        then show ?thesis
        proof (elim disjE)
          assume "s' = s\<lparr>heap := (heap s)(0 \<mapsto> \<lparr>buf = [], cap = 0, closed = True\<rparr>), pool := [Bridge_go (Some 0) (Some 1) (Bridge_range (Some v)),
          Consume (Some 1) (out),
          OrDone_go (Some c) (Some v) (OrDone_select)]\<rparr>"
          then show ?thesis
            by (intro low[OF Streamer_inv.draining[where g = "Str_gone" and c = "c" and v = "v" and b = "u # b'"
                  and od = "Some (OrDone_select)" and bpc = "Bridge_range (Some v)" and out = "out"]])
              (use assms range select i7 in \<open>auto\<close>)
        next
          assume "s' = s\<lparr>heap := (heap s)(c \<mapsto> \<lparr>buf = b', cap = k, closed = True\<rparr>), pool := [Streamer (Some 0) k ([]) Streamer_make,
          Bridge_go (Some 0) (Some 1) (Bridge_range (Some v)),
          Consume (Some 1) (out),
          OrDone_go (Some c) (Some v) (OrDone_forward u)]\<rparr>"
          then show ?thesis
            by (intro low[OF Streamer_inv.draining[where g = "Str_make ([])" and c = "c" and v = "v" and b = "b'"
                  and od = "Some (OrDone_forward u)" and bpc = "Bridge_range (Some v)" and out = "out"]])
              (use assms range select i7 in \<open>auto\<close>)
        qed
      next
        case i8
        have "s' = s\<lparr>heap := (heap s)(fresh s \<mapsto> \<lparr>buf = [], cap = k, closed = False\<rparr>), fresh := Suc (fresh s), pool := [Streamer (Some 0) k (zs # it) (Streamer_hand (Some (fresh s))),
          Bridge_go (Some 0) (Some 1) (Bridge_range (Some v)),
          Consume (Some 1) (out),
          OrDone_go (Some c) (Some v) (OrDone_select)]\<rparr>
          \<or> s' = s\<lparr>pool := [Streamer (Some 0) k (zs # it) Streamer_make,
          Bridge_go (Some 0) (Some 1) (Bridge_range (Some v)),
          Consume (Some 1) (out),
          OrDone_go (Some c) (Some v) (OrDone_return)]\<rparr>"
          using assms range select i8 by (auto simp: sched OrDone_def make_chan_def go_def)
        then show ?thesis
        proof (elim disjE)
          assume "s' = s\<lparr>heap := (heap s)(fresh s \<mapsto> \<lparr>buf = [], cap = k, closed = False\<rparr>), fresh := Suc (fresh s), pool := [Streamer (Some 0) k (zs # it) (Streamer_hand (Some (fresh s))),
          Bridge_go (Some 0) (Some 1) (Bridge_range (Some v)),
          Consume (Some 1) (out),
          OrDone_go (Some c) (Some v) (OrDone_select)]\<rparr>"
          then show ?thesis
            by (intro low[OF Streamer_inv.draining[where g = "Str_hand (fresh s) (zs) (it)" and c = "c" and v = "v" and b = "[]"
                  and od = "Some (OrDone_select)" and bpc = "Bridge_range (Some v)" and out = "out"]])
              (use assms range select i8 in \<open>auto\<close>)
        next
          assume "s' = s\<lparr>pool := [Streamer (Some 0) k (zs # it) Streamer_make,
          Bridge_go (Some 0) (Some 1) (Bridge_range (Some v)),
          Consume (Some 1) (out),
          OrDone_go (Some c) (Some v) (OrDone_return)]\<rparr>"
          then show ?thesis
            by (intro low[OF Streamer_inv.draining[where g = "Str_make (zs # it)" and c = "c" and v = "v" and b = "[]"
                  and od = "Some (OrDone_return)" and bpc = "Bridge_range (Some v)" and out = "out"]])
              (use assms range select i8 in \<open>auto\<close>)
        qed
      next
        case i9
        have "s' = s\<lparr>heap := (heap s)(fresh s \<mapsto> \<lparr>buf = [], cap = k, closed = False\<rparr>), fresh := Suc (fresh s), pool := [Streamer (Some 0) k (zs # it) (Streamer_hand (Some (fresh s))),
          Bridge_go (Some 0) (Some 1) (Bridge_range (Some v)),
          Consume (Some 1) (out),
          OrDone_go (Some c) (Some v) (OrDone_select)]\<rparr>
          \<or> s' = s\<lparr>heap := (heap s)(c \<mapsto> \<lparr>buf = b', cap = k, closed = True\<rparr>), pool := [Streamer (Some 0) k (zs # it) Streamer_make,
          Bridge_go (Some 0) (Some 1) (Bridge_range (Some v)),
          Consume (Some 1) (out),
          OrDone_go (Some c) (Some v) (OrDone_forward u)]\<rparr>"
          using assms range select i9 by (auto simp: sched OrDone_def make_chan_def go_def)
        then show ?thesis
        proof (elim disjE)
          assume "s' = s\<lparr>heap := (heap s)(fresh s \<mapsto> \<lparr>buf = [], cap = k, closed = False\<rparr>), fresh := Suc (fresh s), pool := [Streamer (Some 0) k (zs # it) (Streamer_hand (Some (fresh s))),
          Bridge_go (Some 0) (Some 1) (Bridge_range (Some v)),
          Consume (Some 1) (out),
          OrDone_go (Some c) (Some v) (OrDone_select)]\<rparr>"
          then show ?thesis
            by (intro low[OF Streamer_inv.draining[where g = "Str_hand (fresh s) (zs) (it)" and c = "c" and v = "v" and b = "u # b'"
                  and od = "Some (OrDone_select)" and bpc = "Bridge_range (Some v)" and out = "out"]])
              (use assms range select i9 in \<open>auto\<close>)
        next
          assume "s' = s\<lparr>heap := (heap s)(c \<mapsto> \<lparr>buf = b', cap = k, closed = True\<rparr>), pool := [Streamer (Some 0) k (zs # it) Streamer_make,
          Bridge_go (Some 0) (Some 1) (Bridge_range (Some v)),
          Consume (Some 1) (out),
          OrDone_go (Some c) (Some v) (OrDone_forward u)]\<rparr>"
          then show ?thesis
            by (intro low[OF Streamer_inv.draining[where g = "Str_make (zs # it)" and c = "c" and v = "v" and b = "b'"
                  and od = "Some (OrDone_forward u)" and bpc = "Bridge_range (Some v)" and out = "out"]])
              (use assms range select i9 in \<open>auto\<close>)
        qed
      next
        case i10
        have s1: "s' = s\<lparr>pool := [Streamer (Some 0) k (zs # it) (Streamer_hand (Some (c'))),
          Bridge_go (Some 0) (Some 1) (Bridge_range (Some v)),
          Consume (Some 1) (out),
          OrDone_go (Some c) (Some v) (OrDone_return)]\<rparr>"
          using assms range select i10 by (auto simp: sched OrDone_def make_chan_def go_def)
        show ?thesis
          by (intro low[OF Streamer_inv.draining[where g = "Str_hand (c') (zs) (it)" and c = "c" and v = "v" and b = "[]"
                  and od = "Some (OrDone_return)" and bpc = "Bridge_range (Some v)" and out = "out"]])
            (use s1 assms range select i10 in \<open>auto\<close>)
      next
        case i11
        have s1: "s' = s\<lparr>heap := (heap s)(c \<mapsto> \<lparr>buf = b', cap = k, closed = True\<rparr>), pool := [Streamer (Some 0) k (zs # it) (Streamer_hand (Some (c'))),
          Bridge_go (Some 0) (Some 1) (Bridge_range (Some v)),
          Consume (Some 1) (out),
          OrDone_go (Some c) (Some v) (OrDone_forward u)]\<rparr>"
          using assms range select i11 by (auto simp: sched OrDone_def make_chan_def go_def)
        show ?thesis
          by (intro low[OF Streamer_inv.draining[where g = "Str_hand (c') (zs) (it)" and c = "c" and v = "v" and b = "b'"
                  and od = "Some (OrDone_forward u)" and bpc = "Bridge_range (Some v)" and out = "out"]])
            (use s1 assms range select i11 in \<open>auto\<close>)
      next
        case i12
        have s1: "s' = s\<lparr>pool := [Bridge_go (Some 0) (Some 1) (Bridge_range (Some v)),
          Consume (Some 1) (out),
          OrDone_go (Some c) (Some v) (OrDone_return)]\<rparr>"
          using assms range select i12 by (auto simp: sched OrDone_def make_chan_def go_def)
        show ?thesis
          by (intro low[OF Streamer_inv.draining[where g = "Str_gone" and c = "c" and v = "v" and b = "[]"
                  and od = "Some (OrDone_return)" and bpc = "Bridge_range (Some v)" and out = "out"]])
            (use s1 assms range select i12 in \<open>auto\<close>)
      next
        case i13
        have s1: "s' = s\<lparr>heap := (heap s)(c \<mapsto> \<lparr>buf = b', cap = k, closed = True\<rparr>), pool := [Bridge_go (Some 0) (Some 1) (Bridge_range (Some v)),
          Consume (Some 1) (out),
          OrDone_go (Some c) (Some v) (OrDone_forward u)]\<rparr>"
          using assms range select i13 by (auto simp: sched OrDone_def make_chan_def go_def)
        show ?thesis
          by (intro low[OF Streamer_inv.draining[where g = "Str_gone" and c = "c" and v = "v" and b = "b'"
                  and od = "Some (OrDone_forward u)" and bpc = "Bridge_range (Some v)" and out = "out"]])
            (use s1 assms range select i13 in \<open>auto\<close>)
      qed
    next
      case forward'
      consider (i0) x r it where "g = Str_send (x # r) it" "b = []" "length b < k"
        | (i1) x r it where "g = Str_send (x # r) it" "b = []" "\<not> length b < k"
        | (i2) x r it u b' where "g = Str_send (x # r) it" "b = u # b'" "length b < k"
        | (i3) x r it u b' where "g = Str_send (x # r) it" "b = u # b'" "\<not> length b < k"
        | (i4) it where "g = Str_send [] it" "b = []"
        | (i5) it u b' where "g = Str_send [] it" "b = u # b'"
        | (i6) "g = Str_make []" "b = []"
        | (i7) u b' where "g = Str_make []" "b = u # b'"
        | (i8) zs it where "g = Str_make (zs # it)" "b = []"
        | (i9) zs it u b' where "g = Str_make (zs # it)" "b = u # b'"
        | (i10) c' zs it where "g = Str_hand c' zs it" "b = []"
        | (i11) c' zs it u b' where "g = Str_hand c' zs it" "b = u # b'"
        | (i12) "g = Str_gone" "b = []"
        | (i13) u b' where "g = Str_gone" "b = u # b'"
        by (cases g rule: str_cases; cases b; cases "length b < k") auto
      then show ?thesis
      proof cases
        case i0
        have "s' = s\<lparr>pool := [Streamer (Some 0) k (it) (Streamer_send (Some c) (x # r)),
          Bridge_go (Some 0) (Some 1) (Bridge_forward (Some v) w),
          Consume (Some 1) (out),
          OrDone_go (Some c) (Some v) (OrDone_select)]\<rparr>
          \<or> s' = s\<lparr>heap := (heap s)(c \<mapsto> \<lparr>buf = [x], cap = k, closed = False\<rparr>), pool := [Streamer (Some 0) k (it) (Streamer_send (Some c) (r)),
          Bridge_go (Some 0) (Some 1) (Bridge_range (Some v)),
          Consume (Some 1) (out),
          OrDone_go (Some c) (Some v) (OrDone_forward w)]\<rparr>"
          using assms range forward' i0 by (auto simp: sched OrDone_def make_chan_def go_def)
        then show ?thesis
        proof (elim disjE)
          assume "s' = s\<lparr>pool := [Streamer (Some 0) k (it) (Streamer_send (Some c) (x # r)),
          Bridge_go (Some 0) (Some 1) (Bridge_forward (Some v) w),
          Consume (Some 1) (out),
          OrDone_go (Some c) (Some v) (OrDone_select)]\<rparr>"
          then show ?thesis
            by (intro low[OF Streamer_inv.draining[where g = "Str_send (x # r) (it)" and c = "c" and v = "v" and b = "[]"
                  and od = "Some (OrDone_select)" and bpc = "Bridge_forward (Some v) w" and out = "out"]])
              (use assms range forward' i0 in \<open>auto\<close>)
        next
          assume "s' = s\<lparr>heap := (heap s)(c \<mapsto> \<lparr>buf = [x], cap = k, closed = False\<rparr>), pool := [Streamer (Some 0) k (it) (Streamer_send (Some c) (r)),
          Bridge_go (Some 0) (Some 1) (Bridge_range (Some v)),
          Consume (Some 1) (out),
          OrDone_go (Some c) (Some v) (OrDone_forward w)]\<rparr>"
          then show ?thesis
            by (intro low[OF Streamer_inv.draining[where g = "Str_send (r) (it)" and c = "c" and v = "v" and b = "[x]"
                  and od = "Some (OrDone_forward w)" and bpc = "Bridge_range (Some v)" and out = "out"]])
              (use assms range forward' i0 in \<open>auto\<close>)
        qed
      next
        case i1
        have s1: "s' = s\<lparr>pool := [Streamer (Some 0) k (it) (Streamer_send (Some c) (x # r)),
          Bridge_go (Some 0) (Some 1) (Bridge_forward (Some v) w),
          Consume (Some 1) (out),
          OrDone_go (Some c) (Some v) (OrDone_select)]\<rparr>"
          using assms range forward' i1 by (auto simp: sched OrDone_def make_chan_def go_def)
        show ?thesis
          by (intro low[OF Streamer_inv.draining[where g = "Str_send (x # r) (it)" and c = "c" and v = "v" and b = "[]"
                  and od = "Some (OrDone_select)" and bpc = "Bridge_forward (Some v) w" and out = "out"]])
            (use s1 assms range forward' i1 in \<open>auto\<close>)
      next
        case i2
        have "s' = s\<lparr>pool := [Streamer (Some 0) k (it) (Streamer_send (Some c) (x # r)),
          Bridge_go (Some 0) (Some 1) (Bridge_forward (Some v) w),
          Consume (Some 1) (out),
          OrDone_go (Some c) (Some v) (OrDone_select)]\<rparr>
          \<or> s' = s\<lparr>heap := (heap s)(c \<mapsto> \<lparr>buf = u # b' @ [x], cap = k, closed = False\<rparr>), pool := [Streamer (Some 0) k (it) (Streamer_send (Some c) (r)),
          Bridge_go (Some 0) (Some 1) (Bridge_range (Some v)),
          Consume (Some 1) (out),
          OrDone_go (Some c) (Some v) (OrDone_forward w)]\<rparr>"
          using assms range forward' i2 by (auto simp: sched OrDone_def make_chan_def go_def)
        then show ?thesis
        proof (elim disjE)
          assume "s' = s\<lparr>pool := [Streamer (Some 0) k (it) (Streamer_send (Some c) (x # r)),
          Bridge_go (Some 0) (Some 1) (Bridge_forward (Some v) w),
          Consume (Some 1) (out),
          OrDone_go (Some c) (Some v) (OrDone_select)]\<rparr>"
          then show ?thesis
            by (intro low[OF Streamer_inv.draining[where g = "Str_send (x # r) (it)" and c = "c" and v = "v" and b = "u # b'"
                  and od = "Some (OrDone_select)" and bpc = "Bridge_forward (Some v) w" and out = "out"]])
              (use assms range forward' i2 in \<open>auto\<close>)
        next
          assume "s' = s\<lparr>heap := (heap s)(c \<mapsto> \<lparr>buf = u # b' @ [x], cap = k, closed = False\<rparr>), pool := [Streamer (Some 0) k (it) (Streamer_send (Some c) (r)),
          Bridge_go (Some 0) (Some 1) (Bridge_range (Some v)),
          Consume (Some 1) (out),
          OrDone_go (Some c) (Some v) (OrDone_forward w)]\<rparr>"
          then show ?thesis
            by (intro low[OF Streamer_inv.draining[where g = "Str_send (r) (it)" and c = "c" and v = "v" and b = "u # b' @ [x]"
                  and od = "Some (OrDone_forward w)" and bpc = "Bridge_range (Some v)" and out = "out"]])
              (use assms range forward' i2 in \<open>auto\<close>)
        qed
      next
        case i3
        have s1: "s' = s\<lparr>pool := [Streamer (Some 0) k (it) (Streamer_send (Some c) (x # r)),
          Bridge_go (Some 0) (Some 1) (Bridge_forward (Some v) w),
          Consume (Some 1) (out),
          OrDone_go (Some c) (Some v) (OrDone_select)]\<rparr>"
          using assms range forward' i3 by (auto simp: sched OrDone_def make_chan_def go_def)
        show ?thesis
          by (intro low[OF Streamer_inv.draining[where g = "Str_send (x # r) (it)" and c = "c" and v = "v" and b = "u # b'"
                  and od = "Some (OrDone_select)" and bpc = "Bridge_forward (Some v) w" and out = "out"]])
            (use s1 assms range forward' i3 in \<open>auto\<close>)
      next
        case i4
        have "s' = s\<lparr>pool := [Streamer (Some 0) k (it) (Streamer_send (Some c) ([])),
          Bridge_go (Some 0) (Some 1) (Bridge_forward (Some v) w),
          Consume (Some 1) (out),
          OrDone_go (Some c) (Some v) (OrDone_select)]\<rparr>
          \<or> s' = s\<lparr>heap := (heap s)(c \<mapsto> \<lparr>buf = [], cap = k, closed = True\<rparr>), pool := [Streamer (Some 0) k (it) Streamer_make,
          Bridge_go (Some 0) (Some 1) (Bridge_range (Some v)),
          Consume (Some 1) (out),
          OrDone_go (Some c) (Some v) (OrDone_forward w)]\<rparr>"
          using assms range forward' i4 by (auto simp: sched OrDone_def make_chan_def go_def)
        then show ?thesis
        proof (elim disjE)
          assume "s' = s\<lparr>pool := [Streamer (Some 0) k (it) (Streamer_send (Some c) ([])),
          Bridge_go (Some 0) (Some 1) (Bridge_forward (Some v) w),
          Consume (Some 1) (out),
          OrDone_go (Some c) (Some v) (OrDone_select)]\<rparr>"
          then show ?thesis
            by (intro low[OF Streamer_inv.draining[where g = "Str_send ([]) (it)" and c = "c" and v = "v" and b = "[]"
                  and od = "Some (OrDone_select)" and bpc = "Bridge_forward (Some v) w" and out = "out"]])
              (use assms range forward' i4 in \<open>auto\<close>)
        next
          assume "s' = s\<lparr>heap := (heap s)(c \<mapsto> \<lparr>buf = [], cap = k, closed = True\<rparr>), pool := [Streamer (Some 0) k (it) Streamer_make,
          Bridge_go (Some 0) (Some 1) (Bridge_range (Some v)),
          Consume (Some 1) (out),
          OrDone_go (Some c) (Some v) (OrDone_forward w)]\<rparr>"
          then show ?thesis
            by (intro low[OF Streamer_inv.draining[where g = "Str_make (it)" and c = "c" and v = "v" and b = "[]"
                  and od = "Some (OrDone_forward w)" and bpc = "Bridge_range (Some v)" and out = "out"]])
              (use assms range forward' i4 in \<open>auto\<close>)
        qed
      next
        case i5
        have "s' = s\<lparr>pool := [Streamer (Some 0) k (it) (Streamer_send (Some c) ([])),
          Bridge_go (Some 0) (Some 1) (Bridge_forward (Some v) w),
          Consume (Some 1) (out),
          OrDone_go (Some c) (Some v) (OrDone_select)]\<rparr>
          \<or> s' = s\<lparr>heap := (heap s)(c \<mapsto> \<lparr>buf = u # b', cap = k, closed = True\<rparr>), pool := [Streamer (Some 0) k (it) Streamer_make,
          Bridge_go (Some 0) (Some 1) (Bridge_range (Some v)),
          Consume (Some 1) (out),
          OrDone_go (Some c) (Some v) (OrDone_forward w)]\<rparr>"
          using assms range forward' i5 by (auto simp: sched OrDone_def make_chan_def go_def)
        then show ?thesis
        proof (elim disjE)
          assume "s' = s\<lparr>pool := [Streamer (Some 0) k (it) (Streamer_send (Some c) ([])),
          Bridge_go (Some 0) (Some 1) (Bridge_forward (Some v) w),
          Consume (Some 1) (out),
          OrDone_go (Some c) (Some v) (OrDone_select)]\<rparr>"
          then show ?thesis
            by (intro low[OF Streamer_inv.draining[where g = "Str_send ([]) (it)" and c = "c" and v = "v" and b = "u # b'"
                  and od = "Some (OrDone_select)" and bpc = "Bridge_forward (Some v) w" and out = "out"]])
              (use assms range forward' i5 in \<open>auto\<close>)
        next
          assume "s' = s\<lparr>heap := (heap s)(c \<mapsto> \<lparr>buf = u # b', cap = k, closed = True\<rparr>), pool := [Streamer (Some 0) k (it) Streamer_make,
          Bridge_go (Some 0) (Some 1) (Bridge_range (Some v)),
          Consume (Some 1) (out),
          OrDone_go (Some c) (Some v) (OrDone_forward w)]\<rparr>"
          then show ?thesis
            by (intro low[OF Streamer_inv.draining[where g = "Str_make (it)" and c = "c" and v = "v" and b = "u # b'"
                  and od = "Some (OrDone_forward w)" and bpc = "Bridge_range (Some v)" and out = "out"]])
              (use assms range forward' i5 in \<open>auto\<close>)
        qed
      next
        case i6
        have "s' = s\<lparr>pool := [Streamer (Some 0) k ([]) Streamer_make,
          Bridge_go (Some 0) (Some 1) (Bridge_forward (Some v) w),
          Consume (Some 1) (out),
          OrDone_go (Some c) (Some v) (OrDone_select)]\<rparr>
          \<or> s' = s\<lparr>heap := (heap s)(0 \<mapsto> \<lparr>buf = [], cap = 0, closed = True\<rparr>), pool := [Bridge_go (Some 0) (Some 1) (Bridge_range (Some v)),
          Consume (Some 1) (out),
          OrDone_go (Some c) (Some v) (OrDone_forward w)]\<rparr>"
          using assms range forward' i6 by (auto simp: sched OrDone_def make_chan_def go_def)
        then show ?thesis
        proof (elim disjE)
          assume "s' = s\<lparr>pool := [Streamer (Some 0) k ([]) Streamer_make,
          Bridge_go (Some 0) (Some 1) (Bridge_forward (Some v) w),
          Consume (Some 1) (out),
          OrDone_go (Some c) (Some v) (OrDone_select)]\<rparr>"
          then show ?thesis
            by (intro low[OF Streamer_inv.draining[where g = "Str_make ([])" and c = "c" and v = "v" and b = "[]"
                  and od = "Some (OrDone_select)" and bpc = "Bridge_forward (Some v) w" and out = "out"]])
              (use assms range forward' i6 in \<open>auto\<close>)
        next
          assume "s' = s\<lparr>heap := (heap s)(0 \<mapsto> \<lparr>buf = [], cap = 0, closed = True\<rparr>), pool := [Bridge_go (Some 0) (Some 1) (Bridge_range (Some v)),
          Consume (Some 1) (out),
          OrDone_go (Some c) (Some v) (OrDone_forward w)]\<rparr>"
          then show ?thesis
            by (intro low[OF Streamer_inv.draining[where g = "Str_gone" and c = "c" and v = "v" and b = "[]"
                  and od = "Some (OrDone_forward w)" and bpc = "Bridge_range (Some v)" and out = "out"]])
              (use assms range forward' i6 in \<open>auto\<close>)
        qed
      next
        case i7
        have "s' = s\<lparr>pool := [Streamer (Some 0) k ([]) Streamer_make,
          Bridge_go (Some 0) (Some 1) (Bridge_forward (Some v) w),
          Consume (Some 1) (out),
          OrDone_go (Some c) (Some v) (OrDone_select)]\<rparr>
          \<or> s' = s\<lparr>heap := (heap s)(0 \<mapsto> \<lparr>buf = [], cap = 0, closed = True\<rparr>), pool := [Bridge_go (Some 0) (Some 1) (Bridge_range (Some v)),
          Consume (Some 1) (out),
          OrDone_go (Some c) (Some v) (OrDone_forward w)]\<rparr>"
          using assms range forward' i7 by (auto simp: sched OrDone_def make_chan_def go_def)
        then show ?thesis
        proof (elim disjE)
          assume "s' = s\<lparr>pool := [Streamer (Some 0) k ([]) Streamer_make,
          Bridge_go (Some 0) (Some 1) (Bridge_forward (Some v) w),
          Consume (Some 1) (out),
          OrDone_go (Some c) (Some v) (OrDone_select)]\<rparr>"
          then show ?thesis
            by (intro low[OF Streamer_inv.draining[where g = "Str_make ([])" and c = "c" and v = "v" and b = "u # b'"
                  and od = "Some (OrDone_select)" and bpc = "Bridge_forward (Some v) w" and out = "out"]])
              (use assms range forward' i7 in \<open>auto\<close>)
        next
          assume "s' = s\<lparr>heap := (heap s)(0 \<mapsto> \<lparr>buf = [], cap = 0, closed = True\<rparr>), pool := [Bridge_go (Some 0) (Some 1) (Bridge_range (Some v)),
          Consume (Some 1) (out),
          OrDone_go (Some c) (Some v) (OrDone_forward w)]\<rparr>"
          then show ?thesis
            by (intro low[OF Streamer_inv.draining[where g = "Str_gone" and c = "c" and v = "v" and b = "u # b'"
                  and od = "Some (OrDone_forward w)" and bpc = "Bridge_range (Some v)" and out = "out"]])
              (use assms range forward' i7 in \<open>auto\<close>)
        qed
      next
        case i8
        have "s' = s\<lparr>pool := [Streamer (Some 0) k (zs # it) Streamer_make,
          Bridge_go (Some 0) (Some 1) (Bridge_forward (Some v) w),
          Consume (Some 1) (out),
          OrDone_go (Some c) (Some v) (OrDone_select)]\<rparr>
          \<or> s' = s\<lparr>heap := (heap s)(fresh s \<mapsto> \<lparr>buf = [], cap = k, closed = False\<rparr>), fresh := Suc (fresh s), pool := [Streamer (Some 0) k (zs # it) (Streamer_hand (Some (fresh s))),
          Bridge_go (Some 0) (Some 1) (Bridge_range (Some v)),
          Consume (Some 1) (out),
          OrDone_go (Some c) (Some v) (OrDone_forward w)]\<rparr>"
          using assms range forward' i8 by (auto simp: sched OrDone_def make_chan_def go_def)
        then show ?thesis
        proof (elim disjE)
          assume "s' = s\<lparr>pool := [Streamer (Some 0) k (zs # it) Streamer_make,
          Bridge_go (Some 0) (Some 1) (Bridge_forward (Some v) w),
          Consume (Some 1) (out),
          OrDone_go (Some c) (Some v) (OrDone_select)]\<rparr>"
          then show ?thesis
            by (intro low[OF Streamer_inv.draining[where g = "Str_make (zs # it)" and c = "c" and v = "v" and b = "[]"
                  and od = "Some (OrDone_select)" and bpc = "Bridge_forward (Some v) w" and out = "out"]])
              (use assms range forward' i8 in \<open>auto\<close>)
        next
          assume "s' = s\<lparr>heap := (heap s)(fresh s \<mapsto> \<lparr>buf = [], cap = k, closed = False\<rparr>), fresh := Suc (fresh s), pool := [Streamer (Some 0) k (zs # it) (Streamer_hand (Some (fresh s))),
          Bridge_go (Some 0) (Some 1) (Bridge_range (Some v)),
          Consume (Some 1) (out),
          OrDone_go (Some c) (Some v) (OrDone_forward w)]\<rparr>"
          then show ?thesis
            by (intro low[OF Streamer_inv.draining[where g = "Str_hand (fresh s) (zs) (it)" and c = "c" and v = "v" and b = "[]"
                  and od = "Some (OrDone_forward w)" and bpc = "Bridge_range (Some v)" and out = "out"]])
              (use assms range forward' i8 in \<open>auto\<close>)
        qed
      next
        case i9
        have "s' = s\<lparr>pool := [Streamer (Some 0) k (zs # it) Streamer_make,
          Bridge_go (Some 0) (Some 1) (Bridge_forward (Some v) w),
          Consume (Some 1) (out),
          OrDone_go (Some c) (Some v) (OrDone_select)]\<rparr>
          \<or> s' = s\<lparr>heap := (heap s)(fresh s \<mapsto> \<lparr>buf = [], cap = k, closed = False\<rparr>), fresh := Suc (fresh s), pool := [Streamer (Some 0) k (zs # it) (Streamer_hand (Some (fresh s))),
          Bridge_go (Some 0) (Some 1) (Bridge_range (Some v)),
          Consume (Some 1) (out),
          OrDone_go (Some c) (Some v) (OrDone_forward w)]\<rparr>"
          using assms range forward' i9 by (auto simp: sched OrDone_def make_chan_def go_def)
        then show ?thesis
        proof (elim disjE)
          assume "s' = s\<lparr>pool := [Streamer (Some 0) k (zs # it) Streamer_make,
          Bridge_go (Some 0) (Some 1) (Bridge_forward (Some v) w),
          Consume (Some 1) (out),
          OrDone_go (Some c) (Some v) (OrDone_select)]\<rparr>"
          then show ?thesis
            by (intro low[OF Streamer_inv.draining[where g = "Str_make (zs # it)" and c = "c" and v = "v" and b = "u # b'"
                  and od = "Some (OrDone_select)" and bpc = "Bridge_forward (Some v) w" and out = "out"]])
              (use assms range forward' i9 in \<open>auto\<close>)
        next
          assume "s' = s\<lparr>heap := (heap s)(fresh s \<mapsto> \<lparr>buf = [], cap = k, closed = False\<rparr>), fresh := Suc (fresh s), pool := [Streamer (Some 0) k (zs # it) (Streamer_hand (Some (fresh s))),
          Bridge_go (Some 0) (Some 1) (Bridge_range (Some v)),
          Consume (Some 1) (out),
          OrDone_go (Some c) (Some v) (OrDone_forward w)]\<rparr>"
          then show ?thesis
            by (intro low[OF Streamer_inv.draining[where g = "Str_hand (fresh s) (zs) (it)" and c = "c" and v = "v" and b = "u # b'"
                  and od = "Some (OrDone_forward w)" and bpc = "Bridge_range (Some v)" and out = "out"]])
              (use assms range forward' i9 in \<open>auto\<close>)
        qed
      next
        case i10
        have s1: "s' = s\<lparr>pool := [Streamer (Some 0) k (zs # it) (Streamer_hand (Some (c'))),
          Bridge_go (Some 0) (Some 1) (Bridge_forward (Some v) w),
          Consume (Some 1) (out),
          OrDone_go (Some c) (Some v) (OrDone_select)]\<rparr>"
          using assms range forward' i10 by (auto simp: sched OrDone_def make_chan_def go_def)
        show ?thesis
          by (intro low[OF Streamer_inv.draining[where g = "Str_hand (c') (zs) (it)" and c = "c" and v = "v" and b = "[]"
                  and od = "Some (OrDone_select)" and bpc = "Bridge_forward (Some v) w" and out = "out"]])
            (use s1 assms range forward' i10 in \<open>auto\<close>)
      next
        case i11
        have s1: "s' = s\<lparr>pool := [Streamer (Some 0) k (zs # it) (Streamer_hand (Some (c'))),
          Bridge_go (Some 0) (Some 1) (Bridge_forward (Some v) w),
          Consume (Some 1) (out),
          OrDone_go (Some c) (Some v) (OrDone_select)]\<rparr>"
          using assms range forward' i11 by (auto simp: sched OrDone_def make_chan_def go_def)
        show ?thesis
          by (intro low[OF Streamer_inv.draining[where g = "Str_hand (c') (zs) (it)" and c = "c" and v = "v" and b = "u # b'"
                  and od = "Some (OrDone_select)" and bpc = "Bridge_forward (Some v) w" and out = "out"]])
            (use s1 assms range forward' i11 in \<open>auto\<close>)
      next
        case i12
        have s1: "s' = s\<lparr>pool := [Bridge_go (Some 0) (Some 1) (Bridge_forward (Some v) w),
          Consume (Some 1) (out),
          OrDone_go (Some c) (Some v) (OrDone_select)]\<rparr>"
          using assms range forward' i12 by (auto simp: sched OrDone_def make_chan_def go_def)
        show ?thesis
          by (intro low[OF Streamer_inv.draining[where g = "Str_gone" and c = "c" and v = "v" and b = "[]"
                  and od = "Some (OrDone_select)" and bpc = "Bridge_forward (Some v) w" and out = "out"]])
            (use s1 assms range forward' i12 in \<open>auto\<close>)
      next
        case i13
        have s1: "s' = s\<lparr>pool := [Bridge_go (Some 0) (Some 1) (Bridge_forward (Some v) w),
          Consume (Some 1) (out),
          OrDone_go (Some c) (Some v) (OrDone_select)]\<rparr>"
          using assms range forward' i13 by (auto simp: sched OrDone_def make_chan_def go_def)
        show ?thesis
          by (intro low[OF Streamer_inv.draining[where g = "Str_gone" and c = "c" and v = "v" and b = "u # b'"
                  and od = "Some (OrDone_select)" and bpc = "Bridge_forward (Some v) w" and out = "out"]])
            (use s1 assms range forward' i13 in \<open>auto\<close>)
      qed
    next
      case return
      consider (i0) "g = Str_make []" "b = []"
        | (i2) zs it where "g = Str_make (zs # it)" "b = []"
        | (i4) c' zs it where "g = Str_hand c' zs it" "b = []"
        | (i6) "g = Str_gone" "b = []"
        using assms(12,13) return by (cases g rule: str_cases) auto
      then show ?thesis
      proof cases
        case i0
        have "s' = s\<lparr>heap := (heap s)(0 \<mapsto> \<lparr>buf = [], cap = 0, closed = True\<rparr>), pool := [Bridge_go (Some 0) (Some 1) (Bridge_range (Some v)),
          Consume (Some 1) (out),
          OrDone_go (Some c) (Some v) (OrDone_return)]\<rparr>
          \<or> s' = s\<lparr>heap := (heap s)(v \<mapsto> \<lparr>buf = [], cap = 0, closed = True\<rparr>), pool := [Streamer (Some 0) k ([]) Streamer_make,
          Bridge_go (Some 0) (Some 1) (Bridge_range (Some v)),
          Consume (Some 1) (out)]\<rparr>"
          using assms range return i0 by (auto simp: sched OrDone_def make_chan_def go_def)
        then show ?thesis
        proof (elim disjE)
          assume "s' = s\<lparr>heap := (heap s)(0 \<mapsto> \<lparr>buf = [], cap = 0, closed = True\<rparr>), pool := [Bridge_go (Some 0) (Some 1) (Bridge_range (Some v)),
          Consume (Some 1) (out),
          OrDone_go (Some c) (Some v) (OrDone_return)]\<rparr>"
          then show ?thesis
            by (intro low[OF Streamer_inv.draining[where g = "Str_gone" and c = "c" and v = "v" and b = "[]"
                  and od = "Some (OrDone_return)" and bpc = "Bridge_range (Some v)" and out = "out"]])
              (use assms range return i0 in \<open>auto\<close>)
        next
          assume "s' = s\<lparr>heap := (heap s)(v \<mapsto> \<lparr>buf = [], cap = 0, closed = True\<rparr>), pool := [Streamer (Some 0) k ([]) Streamer_make,
          Bridge_go (Some 0) (Some 1) (Bridge_range (Some v)),
          Consume (Some 1) (out)]\<rparr>"
          then show ?thesis
            by (intro low[OF Streamer_inv.draining[where g = "Str_make ([])" and c = "c" and v = "v" and b = "[]"
                  and od = "None" and bpc = "Bridge_range (Some v)" and out = "out"]])
              (use assms range return i0 in \<open>auto\<close>)
        qed
      next
        case i2
        have "s' = s\<lparr>heap := (heap s)(fresh s \<mapsto> \<lparr>buf = [], cap = k, closed = False\<rparr>), fresh := Suc (fresh s), pool := [Streamer (Some 0) k (zs # it) (Streamer_hand (Some (fresh s))),
          Bridge_go (Some 0) (Some 1) (Bridge_range (Some v)),
          Consume (Some 1) (out),
          OrDone_go (Some c) (Some v) (OrDone_return)]\<rparr>
          \<or> s' = s\<lparr>heap := (heap s)(v \<mapsto> \<lparr>buf = [], cap = 0, closed = True\<rparr>), pool := [Streamer (Some 0) k (zs # it) Streamer_make,
          Bridge_go (Some 0) (Some 1) (Bridge_range (Some v)),
          Consume (Some 1) (out)]\<rparr>"
          using assms range return i2 by (auto simp: sched OrDone_def make_chan_def go_def)
        then show ?thesis
        proof (elim disjE)
          assume "s' = s\<lparr>heap := (heap s)(fresh s \<mapsto> \<lparr>buf = [], cap = k, closed = False\<rparr>), fresh := Suc (fresh s), pool := [Streamer (Some 0) k (zs # it) (Streamer_hand (Some (fresh s))),
          Bridge_go (Some 0) (Some 1) (Bridge_range (Some v)),
          Consume (Some 1) (out),
          OrDone_go (Some c) (Some v) (OrDone_return)]\<rparr>"
          then show ?thesis
            by (intro low[OF Streamer_inv.draining[where g = "Str_hand (fresh s) (zs) (it)" and c = "c" and v = "v" and b = "[]"
                  and od = "Some (OrDone_return)" and bpc = "Bridge_range (Some v)" and out = "out"]])
              (use assms range return i2 in \<open>auto\<close>)
        next
          assume "s' = s\<lparr>heap := (heap s)(v \<mapsto> \<lparr>buf = [], cap = 0, closed = True\<rparr>), pool := [Streamer (Some 0) k (zs # it) Streamer_make,
          Bridge_go (Some 0) (Some 1) (Bridge_range (Some v)),
          Consume (Some 1) (out)]\<rparr>"
          then show ?thesis
            by (intro low[OF Streamer_inv.draining[where g = "Str_make (zs # it)" and c = "c" and v = "v" and b = "[]"
                  and od = "None" and bpc = "Bridge_range (Some v)" and out = "out"]])
              (use assms range return i2 in \<open>auto\<close>)
        qed
      next
        case i4
        have s1: "s' = s\<lparr>heap := (heap s)(v \<mapsto> \<lparr>buf = [], cap = 0, closed = True\<rparr>), pool := [Streamer (Some 0) k (zs # it) (Streamer_hand (Some (c'))),
          Bridge_go (Some 0) (Some 1) (Bridge_range (Some v)),
          Consume (Some 1) (out)]\<rparr>"
          using assms range return i4 by (auto simp: sched OrDone_def make_chan_def go_def)
        show ?thesis
          by (intro low[OF Streamer_inv.draining[where g = "Str_hand (c') (zs) (it)" and c = "c" and v = "v" and b = "[]"
                  and od = "None" and bpc = "Bridge_range (Some v)" and out = "out"]])
            (use s1 assms range return i4 in \<open>auto\<close>)
      next
        case i6
        have s1: "s' = s\<lparr>heap := (heap s)(v \<mapsto> \<lparr>buf = [], cap = 0, closed = True\<rparr>), pool := [Bridge_go (Some 0) (Some 1) (Bridge_range (Some v)),
          Consume (Some 1) (out)]\<rparr>"
          using assms range return i6 by (auto simp: sched OrDone_def make_chan_def go_def)
        show ?thesis
          by (intro low[OF Streamer_inv.draining[where g = "Str_gone" and c = "c" and v = "v" and b = "[]"
                  and od = "None" and bpc = "Bridge_range (Some v)" and out = "out"]])
            (use s1 assms range return i6 in \<open>auto\<close>)
      qed
    qed
  next
    case forward
    consider (gone) "od = None" | (select) "od = Some OrDone_select"
      | (forward') w where "od = Some (OrDone_forward w)" | (return) "od = Some OrDone_return"
      by (cases od rule: od_rank.cases) auto
    then show ?thesis
    proof cases
      case gone
      consider (i0) "g = Str_make []" "b = []"
        | (i2) zs it where "g = Str_make (zs # it)" "b = []"
        | (i4) c' zs it where "g = Str_hand c' zs it" "b = []"
        | (i6) "g = Str_gone" "b = []"
        using assms(12,13) gone by (cases g rule: str_cases) auto
      then show ?thesis
      proof cases
        case i0
        have "s' = s\<lparr>pool := [Streamer (Some 0) k ([]) Streamer_make,
          Bridge_go (Some 0) (Some 1) (Bridge_range (Some v)),
          Consume (Some 1) (out @ [y])]\<rparr>
          \<or> s' = s\<lparr>heap := (heap s)(0 \<mapsto> \<lparr>buf = [], cap = 0, closed = True\<rparr>), pool := [Bridge_go (Some 0) (Some 1) (Bridge_forward (Some v) y),
          Consume (Some 1) (out)]\<rparr>"
          using assms forward gone i0 by (auto simp: sched OrDone_def make_chan_def go_def)
        then show ?thesis
        proof (elim disjE)
          assume "s' = s\<lparr>pool := [Streamer (Some 0) k ([]) Streamer_make,
          Bridge_go (Some 0) (Some 1) (Bridge_range (Some v)),
          Consume (Some 1) (out @ [y])]\<rparr>"
          then show ?thesis
            by (intro low[OF Streamer_inv.draining[where g = "Str_make ([])" and c = "c" and v = "v" and b = "[]"
                  and od = "None" and bpc = "Bridge_range (Some v)" and out = "out @ [y]"]])
              (use assms forward gone i0 in \<open>auto\<close>)
        next
          assume "s' = s\<lparr>heap := (heap s)(0 \<mapsto> \<lparr>buf = [], cap = 0, closed = True\<rparr>), pool := [Bridge_go (Some 0) (Some 1) (Bridge_forward (Some v) y),
          Consume (Some 1) (out)]\<rparr>"
          then show ?thesis
            by (intro low[OF Streamer_inv.draining[where g = "Str_gone" and c = "c" and v = "v" and b = "[]"
                  and od = "None" and bpc = "Bridge_forward (Some v) y" and out = "out"]])
              (use assms forward gone i0 in \<open>auto\<close>)
        qed
      next
        case i2
        have "s' = s\<lparr>pool := [Streamer (Some 0) k (zs # it) Streamer_make,
          Bridge_go (Some 0) (Some 1) (Bridge_range (Some v)),
          Consume (Some 1) (out @ [y])]\<rparr>
          \<or> s' = s\<lparr>heap := (heap s)(fresh s \<mapsto> \<lparr>buf = [], cap = k, closed = False\<rparr>), fresh := Suc (fresh s), pool := [Streamer (Some 0) k (zs # it) (Streamer_hand (Some (fresh s))),
          Bridge_go (Some 0) (Some 1) (Bridge_forward (Some v) y),
          Consume (Some 1) (out)]\<rparr>"
          using assms forward gone i2 by (auto simp: sched OrDone_def make_chan_def go_def)
        then show ?thesis
        proof (elim disjE)
          assume "s' = s\<lparr>pool := [Streamer (Some 0) k (zs # it) Streamer_make,
          Bridge_go (Some 0) (Some 1) (Bridge_range (Some v)),
          Consume (Some 1) (out @ [y])]\<rparr>"
          then show ?thesis
            by (intro low[OF Streamer_inv.draining[where g = "Str_make (zs # it)" and c = "c" and v = "v" and b = "[]"
                  and od = "None" and bpc = "Bridge_range (Some v)" and out = "out @ [y]"]])
              (use assms forward gone i2 in \<open>auto\<close>)
        next
          assume "s' = s\<lparr>heap := (heap s)(fresh s \<mapsto> \<lparr>buf = [], cap = k, closed = False\<rparr>), fresh := Suc (fresh s), pool := [Streamer (Some 0) k (zs # it) (Streamer_hand (Some (fresh s))),
          Bridge_go (Some 0) (Some 1) (Bridge_forward (Some v) y),
          Consume (Some 1) (out)]\<rparr>"
          then show ?thesis
            by (intro low[OF Streamer_inv.draining[where g = "Str_hand (fresh s) (zs) (it)" and c = "c" and v = "v" and b = "[]"
                  and od = "None" and bpc = "Bridge_forward (Some v) y" and out = "out"]])
              (use assms forward gone i2 in \<open>auto\<close>)
        qed
      next
        case i4
        have s1: "s' = s\<lparr>pool := [Streamer (Some 0) k (zs # it) (Streamer_hand (Some (c'))),
          Bridge_go (Some 0) (Some 1) (Bridge_range (Some v)),
          Consume (Some 1) (out @ [y])]\<rparr>"
          using assms forward gone i4 by (auto simp: sched OrDone_def make_chan_def go_def)
        show ?thesis
          by (intro low[OF Streamer_inv.draining[where g = "Str_hand (c') (zs) (it)" and c = "c" and v = "v" and b = "[]"
                  and od = "None" and bpc = "Bridge_range (Some v)" and out = "out @ [y]"]])
            (use s1 assms forward gone i4 in \<open>auto\<close>)
      next
        case i6
        have s1: "s' = s\<lparr>pool := [Bridge_go (Some 0) (Some 1) (Bridge_range (Some v)),
          Consume (Some 1) (out @ [y])]\<rparr>"
          using assms forward gone i6 by (auto simp: sched OrDone_def make_chan_def go_def)
        show ?thesis
          by (intro low[OF Streamer_inv.draining[where g = "Str_gone" and c = "c" and v = "v" and b = "[]"
                  and od = "None" and bpc = "Bridge_range (Some v)" and out = "out @ [y]"]])
            (use s1 assms forward gone i6 in \<open>auto\<close>)
      qed
    next
      case select
      consider (i0) x r it where "g = Str_send (x # r) it" "b = []" "length b < k"
        | (i1) x r it where "g = Str_send (x # r) it" "b = []" "\<not> length b < k"
        | (i2) x r it u b' where "g = Str_send (x # r) it" "b = u # b'" "length b < k"
        | (i3) x r it u b' where "g = Str_send (x # r) it" "b = u # b'" "\<not> length b < k"
        | (i4) it where "g = Str_send [] it" "b = []"
        | (i5) it u b' where "g = Str_send [] it" "b = u # b'"
        | (i6) "g = Str_make []" "b = []"
        | (i7) u b' where "g = Str_make []" "b = u # b'"
        | (i8) zs it where "g = Str_make (zs # it)" "b = []"
        | (i9) zs it u b' where "g = Str_make (zs # it)" "b = u # b'"
        | (i10) c' zs it where "g = Str_hand c' zs it" "b = []"
        | (i11) c' zs it u b' where "g = Str_hand c' zs it" "b = u # b'"
        | (i12) "g = Str_gone" "b = []"
        | (i13) u b' where "g = Str_gone" "b = u # b'"
        by (cases g rule: str_cases; cases b; cases "length b < k") auto
      then show ?thesis
      proof cases
        case i0
        have "s' = s\<lparr>pool := [Streamer (Some 0) k (it) (Streamer_send (Some c) (x # r)),
          Bridge_go (Some 0) (Some 1) (Bridge_range (Some v)),
          Consume (Some 1) (out @ [y]),
          OrDone_go (Some c) (Some v) (OrDone_select)]\<rparr>
          \<or> s' = s\<lparr>heap := (heap s)(c \<mapsto> \<lparr>buf = [x], cap = k, closed = False\<rparr>), pool := [Streamer (Some 0) k (it) (Streamer_send (Some c) (r)),
          Bridge_go (Some 0) (Some 1) (Bridge_forward (Some v) y),
          Consume (Some 1) (out),
          OrDone_go (Some c) (Some v) (OrDone_select)]\<rparr>
          \<or> s' = s\<lparr>pool := [Streamer (Some 0) k (it) (Streamer_send (Some c) (r)),
          Bridge_go (Some 0) (Some 1) (Bridge_forward (Some v) y),
          Consume (Some 1) (out),
          OrDone_go (Some c) (Some v) (OrDone_forward x)]\<rparr>"
          using assms forward select i0 by (auto simp: sched OrDone_def make_chan_def go_def)
        then show ?thesis
        proof (elim disjE)
          assume "s' = s\<lparr>pool := [Streamer (Some 0) k (it) (Streamer_send (Some c) (x # r)),
          Bridge_go (Some 0) (Some 1) (Bridge_range (Some v)),
          Consume (Some 1) (out @ [y]),
          OrDone_go (Some c) (Some v) (OrDone_select)]\<rparr>"
          then show ?thesis
            by (intro low[OF Streamer_inv.draining[where g = "Str_send (x # r) (it)" and c = "c" and v = "v" and b = "[]"
                  and od = "Some (OrDone_select)" and bpc = "Bridge_range (Some v)" and out = "out @ [y]"]])
              (use assms forward select i0 in \<open>auto\<close>)
        next
          assume "s' = s\<lparr>heap := (heap s)(c \<mapsto> \<lparr>buf = [x], cap = k, closed = False\<rparr>), pool := [Streamer (Some 0) k (it) (Streamer_send (Some c) (r)),
          Bridge_go (Some 0) (Some 1) (Bridge_forward (Some v) y),
          Consume (Some 1) (out),
          OrDone_go (Some c) (Some v) (OrDone_select)]\<rparr>"
          then show ?thesis
            by (intro low[OF Streamer_inv.draining[where g = "Str_send (r) (it)" and c = "c" and v = "v" and b = "[x]"
                  and od = "Some (OrDone_select)" and bpc = "Bridge_forward (Some v) y" and out = "out"]])
              (use assms forward select i0 in \<open>auto\<close>)
        next
          assume "s' = s\<lparr>pool := [Streamer (Some 0) k (it) (Streamer_send (Some c) (r)),
          Bridge_go (Some 0) (Some 1) (Bridge_forward (Some v) y),
          Consume (Some 1) (out),
          OrDone_go (Some c) (Some v) (OrDone_forward x)]\<rparr>"
          then show ?thesis
            by (intro low[OF Streamer_inv.draining[where g = "Str_send (r) (it)" and c = "c" and v = "v" and b = "[]"
                  and od = "Some (OrDone_forward x)" and bpc = "Bridge_forward (Some v) y" and out = "out"]])
              (use assms forward select i0 in \<open>auto\<close>)
        qed
      next
        case i1
        have "s' = s\<lparr>pool := [Streamer (Some 0) k (it) (Streamer_send (Some c) (x # r)),
          Bridge_go (Some 0) (Some 1) (Bridge_range (Some v)),
          Consume (Some 1) (out @ [y]),
          OrDone_go (Some c) (Some v) (OrDone_select)]\<rparr>
          \<or> s' = s\<lparr>pool := [Streamer (Some 0) k (it) (Streamer_send (Some c) (r)),
          Bridge_go (Some 0) (Some 1) (Bridge_forward (Some v) y),
          Consume (Some 1) (out),
          OrDone_go (Some c) (Some v) (OrDone_forward x)]\<rparr>"
          using assms forward select i1 by (auto simp: sched OrDone_def make_chan_def go_def)
        then show ?thesis
        proof (elim disjE)
          assume "s' = s\<lparr>pool := [Streamer (Some 0) k (it) (Streamer_send (Some c) (x # r)),
          Bridge_go (Some 0) (Some 1) (Bridge_range (Some v)),
          Consume (Some 1) (out @ [y]),
          OrDone_go (Some c) (Some v) (OrDone_select)]\<rparr>"
          then show ?thesis
            by (intro low[OF Streamer_inv.draining[where g = "Str_send (x # r) (it)" and c = "c" and v = "v" and b = "[]"
                  and od = "Some (OrDone_select)" and bpc = "Bridge_range (Some v)" and out = "out @ [y]"]])
              (use assms forward select i1 in \<open>auto\<close>)
        next
          assume "s' = s\<lparr>pool := [Streamer (Some 0) k (it) (Streamer_send (Some c) (r)),
          Bridge_go (Some 0) (Some 1) (Bridge_forward (Some v) y),
          Consume (Some 1) (out),
          OrDone_go (Some c) (Some v) (OrDone_forward x)]\<rparr>"
          then show ?thesis
            by (intro low[OF Streamer_inv.draining[where g = "Str_send (r) (it)" and c = "c" and v = "v" and b = "[]"
                  and od = "Some (OrDone_forward x)" and bpc = "Bridge_forward (Some v) y" and out = "out"]])
              (use assms forward select i1 in \<open>auto\<close>)
        qed
      next
        case i2
        have "s' = s\<lparr>pool := [Streamer (Some 0) k (it) (Streamer_send (Some c) (x # r)),
          Bridge_go (Some 0) (Some 1) (Bridge_range (Some v)),
          Consume (Some 1) (out @ [y]),
          OrDone_go (Some c) (Some v) (OrDone_select)]\<rparr>
          \<or> s' = s\<lparr>heap := (heap s)(c \<mapsto> \<lparr>buf = u # b' @ [x], cap = k, closed = False\<rparr>), pool := [Streamer (Some 0) k (it) (Streamer_send (Some c) (r)),
          Bridge_go (Some 0) (Some 1) (Bridge_forward (Some v) y),
          Consume (Some 1) (out),
          OrDone_go (Some c) (Some v) (OrDone_select)]\<rparr>
          \<or> s' = s\<lparr>heap := (heap s)(c \<mapsto> \<lparr>buf = b', cap = k, closed = False\<rparr>), pool := [Streamer (Some 0) k (it) (Streamer_send (Some c) (x # r)),
          Bridge_go (Some 0) (Some 1) (Bridge_forward (Some v) y),
          Consume (Some 1) (out),
          OrDone_go (Some c) (Some v) (OrDone_forward u)]\<rparr>"
          using assms forward select i2 by (auto simp: sched OrDone_def make_chan_def go_def)
        then show ?thesis
        proof (elim disjE)
          assume "s' = s\<lparr>pool := [Streamer (Some 0) k (it) (Streamer_send (Some c) (x # r)),
          Bridge_go (Some 0) (Some 1) (Bridge_range (Some v)),
          Consume (Some 1) (out @ [y]),
          OrDone_go (Some c) (Some v) (OrDone_select)]\<rparr>"
          then show ?thesis
            by (intro low[OF Streamer_inv.draining[where g = "Str_send (x # r) (it)" and c = "c" and v = "v" and b = "u # b'"
                  and od = "Some (OrDone_select)" and bpc = "Bridge_range (Some v)" and out = "out @ [y]"]])
              (use assms forward select i2 in \<open>auto\<close>)
        next
          assume "s' = s\<lparr>heap := (heap s)(c \<mapsto> \<lparr>buf = u # b' @ [x], cap = k, closed = False\<rparr>), pool := [Streamer (Some 0) k (it) (Streamer_send (Some c) (r)),
          Bridge_go (Some 0) (Some 1) (Bridge_forward (Some v) y),
          Consume (Some 1) (out),
          OrDone_go (Some c) (Some v) (OrDone_select)]\<rparr>"
          then show ?thesis
            by (intro low[OF Streamer_inv.draining[where g = "Str_send (r) (it)" and c = "c" and v = "v" and b = "u # b' @ [x]"
                  and od = "Some (OrDone_select)" and bpc = "Bridge_forward (Some v) y" and out = "out"]])
              (use assms forward select i2 in \<open>auto\<close>)
        next
          assume "s' = s\<lparr>heap := (heap s)(c \<mapsto> \<lparr>buf = b', cap = k, closed = False\<rparr>), pool := [Streamer (Some 0) k (it) (Streamer_send (Some c) (x # r)),
          Bridge_go (Some 0) (Some 1) (Bridge_forward (Some v) y),
          Consume (Some 1) (out),
          OrDone_go (Some c) (Some v) (OrDone_forward u)]\<rparr>"
          then show ?thesis
            by (intro low[OF Streamer_inv.draining[where g = "Str_send (x # r) (it)" and c = "c" and v = "v" and b = "b'"
                  and od = "Some (OrDone_forward u)" and bpc = "Bridge_forward (Some v) y" and out = "out"]])
              (use assms forward select i2 in \<open>auto\<close>)
        qed
      next
        case i3
        have "s' = s\<lparr>pool := [Streamer (Some 0) k (it) (Streamer_send (Some c) (x # r)),
          Bridge_go (Some 0) (Some 1) (Bridge_range (Some v)),
          Consume (Some 1) (out @ [y]),
          OrDone_go (Some c) (Some v) (OrDone_select)]\<rparr>
          \<or> s' = s\<lparr>heap := (heap s)(c \<mapsto> \<lparr>buf = b', cap = k, closed = False\<rparr>), pool := [Streamer (Some 0) k (it) (Streamer_send (Some c) (x # r)),
          Bridge_go (Some 0) (Some 1) (Bridge_forward (Some v) y),
          Consume (Some 1) (out),
          OrDone_go (Some c) (Some v) (OrDone_forward u)]\<rparr>"
          using assms forward select i3 by (auto simp: sched OrDone_def make_chan_def go_def)
        then show ?thesis
        proof (elim disjE)
          assume "s' = s\<lparr>pool := [Streamer (Some 0) k (it) (Streamer_send (Some c) (x # r)),
          Bridge_go (Some 0) (Some 1) (Bridge_range (Some v)),
          Consume (Some 1) (out @ [y]),
          OrDone_go (Some c) (Some v) (OrDone_select)]\<rparr>"
          then show ?thesis
            by (intro low[OF Streamer_inv.draining[where g = "Str_send (x # r) (it)" and c = "c" and v = "v" and b = "u # b'"
                  and od = "Some (OrDone_select)" and bpc = "Bridge_range (Some v)" and out = "out @ [y]"]])
              (use assms forward select i3 in \<open>auto\<close>)
        next
          assume "s' = s\<lparr>heap := (heap s)(c \<mapsto> \<lparr>buf = b', cap = k, closed = False\<rparr>), pool := [Streamer (Some 0) k (it) (Streamer_send (Some c) (x # r)),
          Bridge_go (Some 0) (Some 1) (Bridge_forward (Some v) y),
          Consume (Some 1) (out),
          OrDone_go (Some c) (Some v) (OrDone_forward u)]\<rparr>"
          then show ?thesis
            by (intro low[OF Streamer_inv.draining[where g = "Str_send (x # r) (it)" and c = "c" and v = "v" and b = "b'"
                  and od = "Some (OrDone_forward u)" and bpc = "Bridge_forward (Some v) y" and out = "out"]])
              (use assms forward select i3 in \<open>auto\<close>)
        qed
      next
        case i4
        have "s' = s\<lparr>pool := [Streamer (Some 0) k (it) (Streamer_send (Some c) ([])),
          Bridge_go (Some 0) (Some 1) (Bridge_range (Some v)),
          Consume (Some 1) (out @ [y]),
          OrDone_go (Some c) (Some v) (OrDone_select)]\<rparr>
          \<or> s' = s\<lparr>heap := (heap s)(c \<mapsto> \<lparr>buf = [], cap = k, closed = True\<rparr>), pool := [Streamer (Some 0) k (it) Streamer_make,
          Bridge_go (Some 0) (Some 1) (Bridge_forward (Some v) y),
          Consume (Some 1) (out),
          OrDone_go (Some c) (Some v) (OrDone_select)]\<rparr>"
          using assms forward select i4 by (auto simp: sched OrDone_def make_chan_def go_def)
        then show ?thesis
        proof (elim disjE)
          assume "s' = s\<lparr>pool := [Streamer (Some 0) k (it) (Streamer_send (Some c) ([])),
          Bridge_go (Some 0) (Some 1) (Bridge_range (Some v)),
          Consume (Some 1) (out @ [y]),
          OrDone_go (Some c) (Some v) (OrDone_select)]\<rparr>"
          then show ?thesis
            by (intro low[OF Streamer_inv.draining[where g = "Str_send ([]) (it)" and c = "c" and v = "v" and b = "[]"
                  and od = "Some (OrDone_select)" and bpc = "Bridge_range (Some v)" and out = "out @ [y]"]])
              (use assms forward select i4 in \<open>auto\<close>)
        next
          assume "s' = s\<lparr>heap := (heap s)(c \<mapsto> \<lparr>buf = [], cap = k, closed = True\<rparr>), pool := [Streamer (Some 0) k (it) Streamer_make,
          Bridge_go (Some 0) (Some 1) (Bridge_forward (Some v) y),
          Consume (Some 1) (out),
          OrDone_go (Some c) (Some v) (OrDone_select)]\<rparr>"
          then show ?thesis
            by (intro low[OF Streamer_inv.draining[where g = "Str_make (it)" and c = "c" and v = "v" and b = "[]"
                  and od = "Some (OrDone_select)" and bpc = "Bridge_forward (Some v) y" and out = "out"]])
              (use assms forward select i4 in \<open>auto\<close>)
        qed
      next
        case i5
        have "s' = s\<lparr>pool := [Streamer (Some 0) k (it) (Streamer_send (Some c) ([])),
          Bridge_go (Some 0) (Some 1) (Bridge_range (Some v)),
          Consume (Some 1) (out @ [y]),
          OrDone_go (Some c) (Some v) (OrDone_select)]\<rparr>
          \<or> s' = s\<lparr>heap := (heap s)(c \<mapsto> \<lparr>buf = u # b', cap = k, closed = True\<rparr>), pool := [Streamer (Some 0) k (it) Streamer_make,
          Bridge_go (Some 0) (Some 1) (Bridge_forward (Some v) y),
          Consume (Some 1) (out),
          OrDone_go (Some c) (Some v) (OrDone_select)]\<rparr>
          \<or> s' = s\<lparr>heap := (heap s)(c \<mapsto> \<lparr>buf = b', cap = k, closed = False\<rparr>), pool := [Streamer (Some 0) k (it) (Streamer_send (Some c) ([])),
          Bridge_go (Some 0) (Some 1) (Bridge_forward (Some v) y),
          Consume (Some 1) (out),
          OrDone_go (Some c) (Some v) (OrDone_forward u)]\<rparr>"
          using assms forward select i5 by (auto simp: sched OrDone_def make_chan_def go_def)
        then show ?thesis
        proof (elim disjE)
          assume "s' = s\<lparr>pool := [Streamer (Some 0) k (it) (Streamer_send (Some c) ([])),
          Bridge_go (Some 0) (Some 1) (Bridge_range (Some v)),
          Consume (Some 1) (out @ [y]),
          OrDone_go (Some c) (Some v) (OrDone_select)]\<rparr>"
          then show ?thesis
            by (intro low[OF Streamer_inv.draining[where g = "Str_send ([]) (it)" and c = "c" and v = "v" and b = "u # b'"
                  and od = "Some (OrDone_select)" and bpc = "Bridge_range (Some v)" and out = "out @ [y]"]])
              (use assms forward select i5 in \<open>auto\<close>)
        next
          assume "s' = s\<lparr>heap := (heap s)(c \<mapsto> \<lparr>buf = u # b', cap = k, closed = True\<rparr>), pool := [Streamer (Some 0) k (it) Streamer_make,
          Bridge_go (Some 0) (Some 1) (Bridge_forward (Some v) y),
          Consume (Some 1) (out),
          OrDone_go (Some c) (Some v) (OrDone_select)]\<rparr>"
          then show ?thesis
            by (intro low[OF Streamer_inv.draining[where g = "Str_make (it)" and c = "c" and v = "v" and b = "u # b'"
                  and od = "Some (OrDone_select)" and bpc = "Bridge_forward (Some v) y" and out = "out"]])
              (use assms forward select i5 in \<open>auto\<close>)
        next
          assume "s' = s\<lparr>heap := (heap s)(c \<mapsto> \<lparr>buf = b', cap = k, closed = False\<rparr>), pool := [Streamer (Some 0) k (it) (Streamer_send (Some c) ([])),
          Bridge_go (Some 0) (Some 1) (Bridge_forward (Some v) y),
          Consume (Some 1) (out),
          OrDone_go (Some c) (Some v) (OrDone_forward u)]\<rparr>"
          then show ?thesis
            by (intro low[OF Streamer_inv.draining[where g = "Str_send ([]) (it)" and c = "c" and v = "v" and b = "b'"
                  and od = "Some (OrDone_forward u)" and bpc = "Bridge_forward (Some v) y" and out = "out"]])
              (use assms forward select i5 in \<open>auto\<close>)
        qed
      next
        case i6
        have "s' = s\<lparr>pool := [Streamer (Some 0) k ([]) Streamer_make,
          Bridge_go (Some 0) (Some 1) (Bridge_range (Some v)),
          Consume (Some 1) (out @ [y]),
          OrDone_go (Some c) (Some v) (OrDone_select)]\<rparr>
          \<or> s' = s\<lparr>heap := (heap s)(0 \<mapsto> \<lparr>buf = [], cap = 0, closed = True\<rparr>), pool := [Bridge_go (Some 0) (Some 1) (Bridge_forward (Some v) y),
          Consume (Some 1) (out),
          OrDone_go (Some c) (Some v) (OrDone_select)]\<rparr>
          \<or> s' = s\<lparr>pool := [Streamer (Some 0) k ([]) Streamer_make,
          Bridge_go (Some 0) (Some 1) (Bridge_forward (Some v) y),
          Consume (Some 1) (out),
          OrDone_go (Some c) (Some v) (OrDone_return)]\<rparr>"
          using assms forward select i6 by (auto simp: sched OrDone_def make_chan_def go_def)
        then show ?thesis
        proof (elim disjE)
          assume "s' = s\<lparr>pool := [Streamer (Some 0) k ([]) Streamer_make,
          Bridge_go (Some 0) (Some 1) (Bridge_range (Some v)),
          Consume (Some 1) (out @ [y]),
          OrDone_go (Some c) (Some v) (OrDone_select)]\<rparr>"
          then show ?thesis
            by (intro low[OF Streamer_inv.draining[where g = "Str_make ([])" and c = "c" and v = "v" and b = "[]"
                  and od = "Some (OrDone_select)" and bpc = "Bridge_range (Some v)" and out = "out @ [y]"]])
              (use assms forward select i6 in \<open>auto\<close>)
        next
          assume "s' = s\<lparr>heap := (heap s)(0 \<mapsto> \<lparr>buf = [], cap = 0, closed = True\<rparr>), pool := [Bridge_go (Some 0) (Some 1) (Bridge_forward (Some v) y),
          Consume (Some 1) (out),
          OrDone_go (Some c) (Some v) (OrDone_select)]\<rparr>"
          then show ?thesis
            by (intro low[OF Streamer_inv.draining[where g = "Str_gone" and c = "c" and v = "v" and b = "[]"
                  and od = "Some (OrDone_select)" and bpc = "Bridge_forward (Some v) y" and out = "out"]])
              (use assms forward select i6 in \<open>auto\<close>)
        next
          assume "s' = s\<lparr>pool := [Streamer (Some 0) k ([]) Streamer_make,
          Bridge_go (Some 0) (Some 1) (Bridge_forward (Some v) y),
          Consume (Some 1) (out),
          OrDone_go (Some c) (Some v) (OrDone_return)]\<rparr>"
          then show ?thesis
            by (intro low[OF Streamer_inv.draining[where g = "Str_make ([])" and c = "c" and v = "v" and b = "[]"
                  and od = "Some (OrDone_return)" and bpc = "Bridge_forward (Some v) y" and out = "out"]])
              (use assms forward select i6 in \<open>auto\<close>)
        qed
      next
        case i7
        have "s' = s\<lparr>pool := [Streamer (Some 0) k ([]) Streamer_make,
          Bridge_go (Some 0) (Some 1) (Bridge_range (Some v)),
          Consume (Some 1) (out @ [y]),
          OrDone_go (Some c) (Some v) (OrDone_select)]\<rparr>
          \<or> s' = s\<lparr>heap := (heap s)(0 \<mapsto> \<lparr>buf = [], cap = 0, closed = True\<rparr>), pool := [Bridge_go (Some 0) (Some 1) (Bridge_forward (Some v) y),
          Consume (Some 1) (out),
          OrDone_go (Some c) (Some v) (OrDone_select)]\<rparr>
          \<or> s' = s\<lparr>heap := (heap s)(c \<mapsto> \<lparr>buf = b', cap = k, closed = True\<rparr>), pool := [Streamer (Some 0) k ([]) Streamer_make,
          Bridge_go (Some 0) (Some 1) (Bridge_forward (Some v) y),
          Consume (Some 1) (out),
          OrDone_go (Some c) (Some v) (OrDone_forward u)]\<rparr>"
          using assms forward select i7 by (auto simp: sched OrDone_def make_chan_def go_def)
        then show ?thesis
        proof (elim disjE)
          assume "s' = s\<lparr>pool := [Streamer (Some 0) k ([]) Streamer_make,
          Bridge_go (Some 0) (Some 1) (Bridge_range (Some v)),
          Consume (Some 1) (out @ [y]),
          OrDone_go (Some c) (Some v) (OrDone_select)]\<rparr>"
          then show ?thesis
            by (intro low[OF Streamer_inv.draining[where g = "Str_make ([])" and c = "c" and v = "v" and b = "u # b'"
                  and od = "Some (OrDone_select)" and bpc = "Bridge_range (Some v)" and out = "out @ [y]"]])
              (use assms forward select i7 in \<open>auto\<close>)
        next
          assume "s' = s\<lparr>heap := (heap s)(0 \<mapsto> \<lparr>buf = [], cap = 0, closed = True\<rparr>), pool := [Bridge_go (Some 0) (Some 1) (Bridge_forward (Some v) y),
          Consume (Some 1) (out),
          OrDone_go (Some c) (Some v) (OrDone_select)]\<rparr>"
          then show ?thesis
            by (intro low[OF Streamer_inv.draining[where g = "Str_gone" and c = "c" and v = "v" and b = "u # b'"
                  and od = "Some (OrDone_select)" and bpc = "Bridge_forward (Some v) y" and out = "out"]])
              (use assms forward select i7 in \<open>auto\<close>)
        next
          assume "s' = s\<lparr>heap := (heap s)(c \<mapsto> \<lparr>buf = b', cap = k, closed = True\<rparr>), pool := [Streamer (Some 0) k ([]) Streamer_make,
          Bridge_go (Some 0) (Some 1) (Bridge_forward (Some v) y),
          Consume (Some 1) (out),
          OrDone_go (Some c) (Some v) (OrDone_forward u)]\<rparr>"
          then show ?thesis
            by (intro low[OF Streamer_inv.draining[where g = "Str_make ([])" and c = "c" and v = "v" and b = "b'"
                  and od = "Some (OrDone_forward u)" and bpc = "Bridge_forward (Some v) y" and out = "out"]])
              (use assms forward select i7 in \<open>auto\<close>)
        qed
      next
        case i8
        have "s' = s\<lparr>pool := [Streamer (Some 0) k (zs # it) Streamer_make,
          Bridge_go (Some 0) (Some 1) (Bridge_range (Some v)),
          Consume (Some 1) (out @ [y]),
          OrDone_go (Some c) (Some v) (OrDone_select)]\<rparr>
          \<or> s' = s\<lparr>heap := (heap s)(fresh s \<mapsto> \<lparr>buf = [], cap = k, closed = False\<rparr>), fresh := Suc (fresh s), pool := [Streamer (Some 0) k (zs # it) (Streamer_hand (Some (fresh s))),
          Bridge_go (Some 0) (Some 1) (Bridge_forward (Some v) y),
          Consume (Some 1) (out),
          OrDone_go (Some c) (Some v) (OrDone_select)]\<rparr>
          \<or> s' = s\<lparr>pool := [Streamer (Some 0) k (zs # it) Streamer_make,
          Bridge_go (Some 0) (Some 1) (Bridge_forward (Some v) y),
          Consume (Some 1) (out),
          OrDone_go (Some c) (Some v) (OrDone_return)]\<rparr>"
          using assms forward select i8 by (auto simp: sched OrDone_def make_chan_def go_def)
        then show ?thesis
        proof (elim disjE)
          assume "s' = s\<lparr>pool := [Streamer (Some 0) k (zs # it) Streamer_make,
          Bridge_go (Some 0) (Some 1) (Bridge_range (Some v)),
          Consume (Some 1) (out @ [y]),
          OrDone_go (Some c) (Some v) (OrDone_select)]\<rparr>"
          then show ?thesis
            by (intro low[OF Streamer_inv.draining[where g = "Str_make (zs # it)" and c = "c" and v = "v" and b = "[]"
                  and od = "Some (OrDone_select)" and bpc = "Bridge_range (Some v)" and out = "out @ [y]"]])
              (use assms forward select i8 in \<open>auto\<close>)
        next
          assume "s' = s\<lparr>heap := (heap s)(fresh s \<mapsto> \<lparr>buf = [], cap = k, closed = False\<rparr>), fresh := Suc (fresh s), pool := [Streamer (Some 0) k (zs # it) (Streamer_hand (Some (fresh s))),
          Bridge_go (Some 0) (Some 1) (Bridge_forward (Some v) y),
          Consume (Some 1) (out),
          OrDone_go (Some c) (Some v) (OrDone_select)]\<rparr>"
          then show ?thesis
            by (intro low[OF Streamer_inv.draining[where g = "Str_hand (fresh s) (zs) (it)" and c = "c" and v = "v" and b = "[]"
                  and od = "Some (OrDone_select)" and bpc = "Bridge_forward (Some v) y" and out = "out"]])
              (use assms forward select i8 in \<open>auto\<close>)
        next
          assume "s' = s\<lparr>pool := [Streamer (Some 0) k (zs # it) Streamer_make,
          Bridge_go (Some 0) (Some 1) (Bridge_forward (Some v) y),
          Consume (Some 1) (out),
          OrDone_go (Some c) (Some v) (OrDone_return)]\<rparr>"
          then show ?thesis
            by (intro low[OF Streamer_inv.draining[where g = "Str_make (zs # it)" and c = "c" and v = "v" and b = "[]"
                  and od = "Some (OrDone_return)" and bpc = "Bridge_forward (Some v) y" and out = "out"]])
              (use assms forward select i8 in \<open>auto\<close>)
        qed
      next
        case i9
        have "s' = s\<lparr>pool := [Streamer (Some 0) k (zs # it) Streamer_make,
          Bridge_go (Some 0) (Some 1) (Bridge_range (Some v)),
          Consume (Some 1) (out @ [y]),
          OrDone_go (Some c) (Some v) (OrDone_select)]\<rparr>
          \<or> s' = s\<lparr>heap := (heap s)(fresh s \<mapsto> \<lparr>buf = [], cap = k, closed = False\<rparr>), fresh := Suc (fresh s), pool := [Streamer (Some 0) k (zs # it) (Streamer_hand (Some (fresh s))),
          Bridge_go (Some 0) (Some 1) (Bridge_forward (Some v) y),
          Consume (Some 1) (out),
          OrDone_go (Some c) (Some v) (OrDone_select)]\<rparr>
          \<or> s' = s\<lparr>heap := (heap s)(c \<mapsto> \<lparr>buf = b', cap = k, closed = True\<rparr>), pool := [Streamer (Some 0) k (zs # it) Streamer_make,
          Bridge_go (Some 0) (Some 1) (Bridge_forward (Some v) y),
          Consume (Some 1) (out),
          OrDone_go (Some c) (Some v) (OrDone_forward u)]\<rparr>"
          using assms forward select i9 by (auto simp: sched OrDone_def make_chan_def go_def)
        then show ?thesis
        proof (elim disjE)
          assume "s' = s\<lparr>pool := [Streamer (Some 0) k (zs # it) Streamer_make,
          Bridge_go (Some 0) (Some 1) (Bridge_range (Some v)),
          Consume (Some 1) (out @ [y]),
          OrDone_go (Some c) (Some v) (OrDone_select)]\<rparr>"
          then show ?thesis
            by (intro low[OF Streamer_inv.draining[where g = "Str_make (zs # it)" and c = "c" and v = "v" and b = "u # b'"
                  and od = "Some (OrDone_select)" and bpc = "Bridge_range (Some v)" and out = "out @ [y]"]])
              (use assms forward select i9 in \<open>auto\<close>)
        next
          assume "s' = s\<lparr>heap := (heap s)(fresh s \<mapsto> \<lparr>buf = [], cap = k, closed = False\<rparr>), fresh := Suc (fresh s), pool := [Streamer (Some 0) k (zs # it) (Streamer_hand (Some (fresh s))),
          Bridge_go (Some 0) (Some 1) (Bridge_forward (Some v) y),
          Consume (Some 1) (out),
          OrDone_go (Some c) (Some v) (OrDone_select)]\<rparr>"
          then show ?thesis
            by (intro low[OF Streamer_inv.draining[where g = "Str_hand (fresh s) (zs) (it)" and c = "c" and v = "v" and b = "u # b'"
                  and od = "Some (OrDone_select)" and bpc = "Bridge_forward (Some v) y" and out = "out"]])
              (use assms forward select i9 in \<open>auto\<close>)
        next
          assume "s' = s\<lparr>heap := (heap s)(c \<mapsto> \<lparr>buf = b', cap = k, closed = True\<rparr>), pool := [Streamer (Some 0) k (zs # it) Streamer_make,
          Bridge_go (Some 0) (Some 1) (Bridge_forward (Some v) y),
          Consume (Some 1) (out),
          OrDone_go (Some c) (Some v) (OrDone_forward u)]\<rparr>"
          then show ?thesis
            by (intro low[OF Streamer_inv.draining[where g = "Str_make (zs # it)" and c = "c" and v = "v" and b = "b'"
                  and od = "Some (OrDone_forward u)" and bpc = "Bridge_forward (Some v) y" and out = "out"]])
              (use assms forward select i9 in \<open>auto\<close>)
        qed
      next
        case i10
        have "s' = s\<lparr>pool := [Streamer (Some 0) k (zs # it) (Streamer_hand (Some (c'))),
          Bridge_go (Some 0) (Some 1) (Bridge_range (Some v)),
          Consume (Some 1) (out @ [y]),
          OrDone_go (Some c) (Some v) (OrDone_select)]\<rparr>
          \<or> s' = s\<lparr>pool := [Streamer (Some 0) k (zs # it) (Streamer_hand (Some (c'))),
          Bridge_go (Some 0) (Some 1) (Bridge_forward (Some v) y),
          Consume (Some 1) (out),
          OrDone_go (Some c) (Some v) (OrDone_return)]\<rparr>"
          using assms forward select i10 by (auto simp: sched OrDone_def make_chan_def go_def)
        then show ?thesis
        proof (elim disjE)
          assume "s' = s\<lparr>pool := [Streamer (Some 0) k (zs # it) (Streamer_hand (Some (c'))),
          Bridge_go (Some 0) (Some 1) (Bridge_range (Some v)),
          Consume (Some 1) (out @ [y]),
          OrDone_go (Some c) (Some v) (OrDone_select)]\<rparr>"
          then show ?thesis
            by (intro low[OF Streamer_inv.draining[where g = "Str_hand (c') (zs) (it)" and c = "c" and v = "v" and b = "[]"
                  and od = "Some (OrDone_select)" and bpc = "Bridge_range (Some v)" and out = "out @ [y]"]])
              (use assms forward select i10 in \<open>auto\<close>)
        next
          assume "s' = s\<lparr>pool := [Streamer (Some 0) k (zs # it) (Streamer_hand (Some (c'))),
          Bridge_go (Some 0) (Some 1) (Bridge_forward (Some v) y),
          Consume (Some 1) (out),
          OrDone_go (Some c) (Some v) (OrDone_return)]\<rparr>"
          then show ?thesis
            by (intro low[OF Streamer_inv.draining[where g = "Str_hand (c') (zs) (it)" and c = "c" and v = "v" and b = "[]"
                  and od = "Some (OrDone_return)" and bpc = "Bridge_forward (Some v) y" and out = "out"]])
              (use assms forward select i10 in \<open>auto\<close>)
        qed
      next
        case i11
        have "s' = s\<lparr>pool := [Streamer (Some 0) k (zs # it) (Streamer_hand (Some (c'))),
          Bridge_go (Some 0) (Some 1) (Bridge_range (Some v)),
          Consume (Some 1) (out @ [y]),
          OrDone_go (Some c) (Some v) (OrDone_select)]\<rparr>
          \<or> s' = s\<lparr>heap := (heap s)(c \<mapsto> \<lparr>buf = b', cap = k, closed = True\<rparr>), pool := [Streamer (Some 0) k (zs # it) (Streamer_hand (Some (c'))),
          Bridge_go (Some 0) (Some 1) (Bridge_forward (Some v) y),
          Consume (Some 1) (out),
          OrDone_go (Some c) (Some v) (OrDone_forward u)]\<rparr>"
          using assms forward select i11 by (auto simp: sched OrDone_def make_chan_def go_def)
        then show ?thesis
        proof (elim disjE)
          assume "s' = s\<lparr>pool := [Streamer (Some 0) k (zs # it) (Streamer_hand (Some (c'))),
          Bridge_go (Some 0) (Some 1) (Bridge_range (Some v)),
          Consume (Some 1) (out @ [y]),
          OrDone_go (Some c) (Some v) (OrDone_select)]\<rparr>"
          then show ?thesis
            by (intro low[OF Streamer_inv.draining[where g = "Str_hand (c') (zs) (it)" and c = "c" and v = "v" and b = "u # b'"
                  and od = "Some (OrDone_select)" and bpc = "Bridge_range (Some v)" and out = "out @ [y]"]])
              (use assms forward select i11 in \<open>auto\<close>)
        next
          assume "s' = s\<lparr>heap := (heap s)(c \<mapsto> \<lparr>buf = b', cap = k, closed = True\<rparr>), pool := [Streamer (Some 0) k (zs # it) (Streamer_hand (Some (c'))),
          Bridge_go (Some 0) (Some 1) (Bridge_forward (Some v) y),
          Consume (Some 1) (out),
          OrDone_go (Some c) (Some v) (OrDone_forward u)]\<rparr>"
          then show ?thesis
            by (intro low[OF Streamer_inv.draining[where g = "Str_hand (c') (zs) (it)" and c = "c" and v = "v" and b = "b'"
                  and od = "Some (OrDone_forward u)" and bpc = "Bridge_forward (Some v) y" and out = "out"]])
              (use assms forward select i11 in \<open>auto\<close>)
        qed
      next
        case i12
        have "s' = s\<lparr>pool := [Bridge_go (Some 0) (Some 1) (Bridge_range (Some v)),
          Consume (Some 1) (out @ [y]),
          OrDone_go (Some c) (Some v) (OrDone_select)]\<rparr>
          \<or> s' = s\<lparr>pool := [Bridge_go (Some 0) (Some 1) (Bridge_forward (Some v) y),
          Consume (Some 1) (out),
          OrDone_go (Some c) (Some v) (OrDone_return)]\<rparr>"
          using assms forward select i12 by (auto simp: sched OrDone_def make_chan_def go_def)
        then show ?thesis
        proof (elim disjE)
          assume "s' = s\<lparr>pool := [Bridge_go (Some 0) (Some 1) (Bridge_range (Some v)),
          Consume (Some 1) (out @ [y]),
          OrDone_go (Some c) (Some v) (OrDone_select)]\<rparr>"
          then show ?thesis
            by (intro low[OF Streamer_inv.draining[where g = "Str_gone" and c = "c" and v = "v" and b = "[]"
                  and od = "Some (OrDone_select)" and bpc = "Bridge_range (Some v)" and out = "out @ [y]"]])
              (use assms forward select i12 in \<open>auto\<close>)
        next
          assume "s' = s\<lparr>pool := [Bridge_go (Some 0) (Some 1) (Bridge_forward (Some v) y),
          Consume (Some 1) (out),
          OrDone_go (Some c) (Some v) (OrDone_return)]\<rparr>"
          then show ?thesis
            by (intro low[OF Streamer_inv.draining[where g = "Str_gone" and c = "c" and v = "v" and b = "[]"
                  and od = "Some (OrDone_return)" and bpc = "Bridge_forward (Some v) y" and out = "out"]])
              (use assms forward select i12 in \<open>auto\<close>)
        qed
      next
        case i13
        have "s' = s\<lparr>pool := [Bridge_go (Some 0) (Some 1) (Bridge_range (Some v)),
          Consume (Some 1) (out @ [y]),
          OrDone_go (Some c) (Some v) (OrDone_select)]\<rparr>
          \<or> s' = s\<lparr>heap := (heap s)(c \<mapsto> \<lparr>buf = b', cap = k, closed = True\<rparr>), pool := [Bridge_go (Some 0) (Some 1) (Bridge_forward (Some v) y),
          Consume (Some 1) (out),
          OrDone_go (Some c) (Some v) (OrDone_forward u)]\<rparr>"
          using assms forward select i13 by (auto simp: sched OrDone_def make_chan_def go_def)
        then show ?thesis
        proof (elim disjE)
          assume "s' = s\<lparr>pool := [Bridge_go (Some 0) (Some 1) (Bridge_range (Some v)),
          Consume (Some 1) (out @ [y]),
          OrDone_go (Some c) (Some v) (OrDone_select)]\<rparr>"
          then show ?thesis
            by (intro low[OF Streamer_inv.draining[where g = "Str_gone" and c = "c" and v = "v" and b = "u # b'"
                  and od = "Some (OrDone_select)" and bpc = "Bridge_range (Some v)" and out = "out @ [y]"]])
              (use assms forward select i13 in \<open>auto\<close>)
        next
          assume "s' = s\<lparr>heap := (heap s)(c \<mapsto> \<lparr>buf = b', cap = k, closed = True\<rparr>), pool := [Bridge_go (Some 0) (Some 1) (Bridge_forward (Some v) y),
          Consume (Some 1) (out),
          OrDone_go (Some c) (Some v) (OrDone_forward u)]\<rparr>"
          then show ?thesis
            by (intro low[OF Streamer_inv.draining[where g = "Str_gone" and c = "c" and v = "v" and b = "b'"
                  and od = "Some (OrDone_forward u)" and bpc = "Bridge_forward (Some v) y" and out = "out"]])
              (use assms forward select i13 in \<open>auto\<close>)
        qed
      qed
    next
      case forward'
      consider (i0) x r it where "g = Str_send (x # r) it" "b = []" "length b < k"
        | (i1) x r it where "g = Str_send (x # r) it" "b = []" "\<not> length b < k"
        | (i2) x r it u b' where "g = Str_send (x # r) it" "b = u # b'" "length b < k"
        | (i3) x r it u b' where "g = Str_send (x # r) it" "b = u # b'" "\<not> length b < k"
        | (i4) it where "g = Str_send [] it" "b = []"
        | (i5) it u b' where "g = Str_send [] it" "b = u # b'"
        | (i6) "g = Str_make []" "b = []"
        | (i7) u b' where "g = Str_make []" "b = u # b'"
        | (i8) zs it where "g = Str_make (zs # it)" "b = []"
        | (i9) zs it u b' where "g = Str_make (zs # it)" "b = u # b'"
        | (i10) c' zs it where "g = Str_hand c' zs it" "b = []"
        | (i11) c' zs it u b' where "g = Str_hand c' zs it" "b = u # b'"
        | (i12) "g = Str_gone" "b = []"
        | (i13) u b' where "g = Str_gone" "b = u # b'"
        by (cases g rule: str_cases; cases b; cases "length b < k") auto
      then show ?thesis
      proof cases
        case i0
        have "s' = s\<lparr>pool := [Streamer (Some 0) k (it) (Streamer_send (Some c) (x # r)),
          Bridge_go (Some 0) (Some 1) (Bridge_range (Some v)),
          Consume (Some 1) (out @ [y]),
          OrDone_go (Some c) (Some v) (OrDone_forward w)]\<rparr>
          \<or> s' = s\<lparr>heap := (heap s)(c \<mapsto> \<lparr>buf = [x], cap = k, closed = False\<rparr>), pool := [Streamer (Some 0) k (it) (Streamer_send (Some c) (r)),
          Bridge_go (Some 0) (Some 1) (Bridge_forward (Some v) y),
          Consume (Some 1) (out),
          OrDone_go (Some c) (Some v) (OrDone_forward w)]\<rparr>"
          using assms forward forward' i0 by (auto simp: sched OrDone_def make_chan_def go_def)
        then show ?thesis
        proof (elim disjE)
          assume "s' = s\<lparr>pool := [Streamer (Some 0) k (it) (Streamer_send (Some c) (x # r)),
          Bridge_go (Some 0) (Some 1) (Bridge_range (Some v)),
          Consume (Some 1) (out @ [y]),
          OrDone_go (Some c) (Some v) (OrDone_forward w)]\<rparr>"
          then show ?thesis
            by (intro low[OF Streamer_inv.draining[where g = "Str_send (x # r) (it)" and c = "c" and v = "v" and b = "[]"
                  and od = "Some (OrDone_forward w)" and bpc = "Bridge_range (Some v)" and out = "out @ [y]"]])
              (use assms forward forward' i0 in \<open>auto\<close>)
        next
          assume "s' = s\<lparr>heap := (heap s)(c \<mapsto> \<lparr>buf = [x], cap = k, closed = False\<rparr>), pool := [Streamer (Some 0) k (it) (Streamer_send (Some c) (r)),
          Bridge_go (Some 0) (Some 1) (Bridge_forward (Some v) y),
          Consume (Some 1) (out),
          OrDone_go (Some c) (Some v) (OrDone_forward w)]\<rparr>"
          then show ?thesis
            by (intro low[OF Streamer_inv.draining[where g = "Str_send (r) (it)" and c = "c" and v = "v" and b = "[x]"
                  and od = "Some (OrDone_forward w)" and bpc = "Bridge_forward (Some v) y" and out = "out"]])
              (use assms forward forward' i0 in \<open>auto\<close>)
        qed
      next
        case i1
        have s1: "s' = s\<lparr>pool := [Streamer (Some 0) k (it) (Streamer_send (Some c) (x # r)),
          Bridge_go (Some 0) (Some 1) (Bridge_range (Some v)),
          Consume (Some 1) (out @ [y]),
          OrDone_go (Some c) (Some v) (OrDone_forward w)]\<rparr>"
          using assms forward forward' i1 by (auto simp: sched OrDone_def make_chan_def go_def)
        show ?thesis
          by (intro low[OF Streamer_inv.draining[where g = "Str_send (x # r) (it)" and c = "c" and v = "v" and b = "[]"
                  and od = "Some (OrDone_forward w)" and bpc = "Bridge_range (Some v)" and out = "out @ [y]"]])
            (use s1 assms forward forward' i1 in \<open>auto\<close>)
      next
        case i2
        have "s' = s\<lparr>pool := [Streamer (Some 0) k (it) (Streamer_send (Some c) (x # r)),
          Bridge_go (Some 0) (Some 1) (Bridge_range (Some v)),
          Consume (Some 1) (out @ [y]),
          OrDone_go (Some c) (Some v) (OrDone_forward w)]\<rparr>
          \<or> s' = s\<lparr>heap := (heap s)(c \<mapsto> \<lparr>buf = u # b' @ [x], cap = k, closed = False\<rparr>), pool := [Streamer (Some 0) k (it) (Streamer_send (Some c) (r)),
          Bridge_go (Some 0) (Some 1) (Bridge_forward (Some v) y),
          Consume (Some 1) (out),
          OrDone_go (Some c) (Some v) (OrDone_forward w)]\<rparr>"
          using assms forward forward' i2 by (auto simp: sched OrDone_def make_chan_def go_def)
        then show ?thesis
        proof (elim disjE)
          assume "s' = s\<lparr>pool := [Streamer (Some 0) k (it) (Streamer_send (Some c) (x # r)),
          Bridge_go (Some 0) (Some 1) (Bridge_range (Some v)),
          Consume (Some 1) (out @ [y]),
          OrDone_go (Some c) (Some v) (OrDone_forward w)]\<rparr>"
          then show ?thesis
            by (intro low[OF Streamer_inv.draining[where g = "Str_send (x # r) (it)" and c = "c" and v = "v" and b = "u # b'"
                  and od = "Some (OrDone_forward w)" and bpc = "Bridge_range (Some v)" and out = "out @ [y]"]])
              (use assms forward forward' i2 in \<open>auto\<close>)
        next
          assume "s' = s\<lparr>heap := (heap s)(c \<mapsto> \<lparr>buf = u # b' @ [x], cap = k, closed = False\<rparr>), pool := [Streamer (Some 0) k (it) (Streamer_send (Some c) (r)),
          Bridge_go (Some 0) (Some 1) (Bridge_forward (Some v) y),
          Consume (Some 1) (out),
          OrDone_go (Some c) (Some v) (OrDone_forward w)]\<rparr>"
          then show ?thesis
            by (intro low[OF Streamer_inv.draining[where g = "Str_send (r) (it)" and c = "c" and v = "v" and b = "u # b' @ [x]"
                  and od = "Some (OrDone_forward w)" and bpc = "Bridge_forward (Some v) y" and out = "out"]])
              (use assms forward forward' i2 in \<open>auto\<close>)
        qed
      next
        case i3
        have s1: "s' = s\<lparr>pool := [Streamer (Some 0) k (it) (Streamer_send (Some c) (x # r)),
          Bridge_go (Some 0) (Some 1) (Bridge_range (Some v)),
          Consume (Some 1) (out @ [y]),
          OrDone_go (Some c) (Some v) (OrDone_forward w)]\<rparr>"
          using assms forward forward' i3 by (auto simp: sched OrDone_def make_chan_def go_def)
        show ?thesis
          by (intro low[OF Streamer_inv.draining[where g = "Str_send (x # r) (it)" and c = "c" and v = "v" and b = "u # b'"
                  and od = "Some (OrDone_forward w)" and bpc = "Bridge_range (Some v)" and out = "out @ [y]"]])
            (use s1 assms forward forward' i3 in \<open>auto\<close>)
      next
        case i4
        have "s' = s\<lparr>pool := [Streamer (Some 0) k (it) (Streamer_send (Some c) ([])),
          Bridge_go (Some 0) (Some 1) (Bridge_range (Some v)),
          Consume (Some 1) (out @ [y]),
          OrDone_go (Some c) (Some v) (OrDone_forward w)]\<rparr>
          \<or> s' = s\<lparr>heap := (heap s)(c \<mapsto> \<lparr>buf = [], cap = k, closed = True\<rparr>), pool := [Streamer (Some 0) k (it) Streamer_make,
          Bridge_go (Some 0) (Some 1) (Bridge_forward (Some v) y),
          Consume (Some 1) (out),
          OrDone_go (Some c) (Some v) (OrDone_forward w)]\<rparr>"
          using assms forward forward' i4 by (auto simp: sched OrDone_def make_chan_def go_def)
        then show ?thesis
        proof (elim disjE)
          assume "s' = s\<lparr>pool := [Streamer (Some 0) k (it) (Streamer_send (Some c) ([])),
          Bridge_go (Some 0) (Some 1) (Bridge_range (Some v)),
          Consume (Some 1) (out @ [y]),
          OrDone_go (Some c) (Some v) (OrDone_forward w)]\<rparr>"
          then show ?thesis
            by (intro low[OF Streamer_inv.draining[where g = "Str_send ([]) (it)" and c = "c" and v = "v" and b = "[]"
                  and od = "Some (OrDone_forward w)" and bpc = "Bridge_range (Some v)" and out = "out @ [y]"]])
              (use assms forward forward' i4 in \<open>auto\<close>)
        next
          assume "s' = s\<lparr>heap := (heap s)(c \<mapsto> \<lparr>buf = [], cap = k, closed = True\<rparr>), pool := [Streamer (Some 0) k (it) Streamer_make,
          Bridge_go (Some 0) (Some 1) (Bridge_forward (Some v) y),
          Consume (Some 1) (out),
          OrDone_go (Some c) (Some v) (OrDone_forward w)]\<rparr>"
          then show ?thesis
            by (intro low[OF Streamer_inv.draining[where g = "Str_make (it)" and c = "c" and v = "v" and b = "[]"
                  and od = "Some (OrDone_forward w)" and bpc = "Bridge_forward (Some v) y" and out = "out"]])
              (use assms forward forward' i4 in \<open>auto\<close>)
        qed
      next
        case i5
        have "s' = s\<lparr>pool := [Streamer (Some 0) k (it) (Streamer_send (Some c) ([])),
          Bridge_go (Some 0) (Some 1) (Bridge_range (Some v)),
          Consume (Some 1) (out @ [y]),
          OrDone_go (Some c) (Some v) (OrDone_forward w)]\<rparr>
          \<or> s' = s\<lparr>heap := (heap s)(c \<mapsto> \<lparr>buf = u # b', cap = k, closed = True\<rparr>), pool := [Streamer (Some 0) k (it) Streamer_make,
          Bridge_go (Some 0) (Some 1) (Bridge_forward (Some v) y),
          Consume (Some 1) (out),
          OrDone_go (Some c) (Some v) (OrDone_forward w)]\<rparr>"
          using assms forward forward' i5 by (auto simp: sched OrDone_def make_chan_def go_def)
        then show ?thesis
        proof (elim disjE)
          assume "s' = s\<lparr>pool := [Streamer (Some 0) k (it) (Streamer_send (Some c) ([])),
          Bridge_go (Some 0) (Some 1) (Bridge_range (Some v)),
          Consume (Some 1) (out @ [y]),
          OrDone_go (Some c) (Some v) (OrDone_forward w)]\<rparr>"
          then show ?thesis
            by (intro low[OF Streamer_inv.draining[where g = "Str_send ([]) (it)" and c = "c" and v = "v" and b = "u # b'"
                  and od = "Some (OrDone_forward w)" and bpc = "Bridge_range (Some v)" and out = "out @ [y]"]])
              (use assms forward forward' i5 in \<open>auto\<close>)
        next
          assume "s' = s\<lparr>heap := (heap s)(c \<mapsto> \<lparr>buf = u # b', cap = k, closed = True\<rparr>), pool := [Streamer (Some 0) k (it) Streamer_make,
          Bridge_go (Some 0) (Some 1) (Bridge_forward (Some v) y),
          Consume (Some 1) (out),
          OrDone_go (Some c) (Some v) (OrDone_forward w)]\<rparr>"
          then show ?thesis
            by (intro low[OF Streamer_inv.draining[where g = "Str_make (it)" and c = "c" and v = "v" and b = "u # b'"
                  and od = "Some (OrDone_forward w)" and bpc = "Bridge_forward (Some v) y" and out = "out"]])
              (use assms forward forward' i5 in \<open>auto\<close>)
        qed
      next
        case i6
        have "s' = s\<lparr>pool := [Streamer (Some 0) k ([]) Streamer_make,
          Bridge_go (Some 0) (Some 1) (Bridge_range (Some v)),
          Consume (Some 1) (out @ [y]),
          OrDone_go (Some c) (Some v) (OrDone_forward w)]\<rparr>
          \<or> s' = s\<lparr>heap := (heap s)(0 \<mapsto> \<lparr>buf = [], cap = 0, closed = True\<rparr>), pool := [Bridge_go (Some 0) (Some 1) (Bridge_forward (Some v) y),
          Consume (Some 1) (out),
          OrDone_go (Some c) (Some v) (OrDone_forward w)]\<rparr>"
          using assms forward forward' i6 by (auto simp: sched OrDone_def make_chan_def go_def)
        then show ?thesis
        proof (elim disjE)
          assume "s' = s\<lparr>pool := [Streamer (Some 0) k ([]) Streamer_make,
          Bridge_go (Some 0) (Some 1) (Bridge_range (Some v)),
          Consume (Some 1) (out @ [y]),
          OrDone_go (Some c) (Some v) (OrDone_forward w)]\<rparr>"
          then show ?thesis
            by (intro low[OF Streamer_inv.draining[where g = "Str_make ([])" and c = "c" and v = "v" and b = "[]"
                  and od = "Some (OrDone_forward w)" and bpc = "Bridge_range (Some v)" and out = "out @ [y]"]])
              (use assms forward forward' i6 in \<open>auto\<close>)
        next
          assume "s' = s\<lparr>heap := (heap s)(0 \<mapsto> \<lparr>buf = [], cap = 0, closed = True\<rparr>), pool := [Bridge_go (Some 0) (Some 1) (Bridge_forward (Some v) y),
          Consume (Some 1) (out),
          OrDone_go (Some c) (Some v) (OrDone_forward w)]\<rparr>"
          then show ?thesis
            by (intro low[OF Streamer_inv.draining[where g = "Str_gone" and c = "c" and v = "v" and b = "[]"
                  and od = "Some (OrDone_forward w)" and bpc = "Bridge_forward (Some v) y" and out = "out"]])
              (use assms forward forward' i6 in \<open>auto\<close>)
        qed
      next
        case i7
        have "s' = s\<lparr>pool := [Streamer (Some 0) k ([]) Streamer_make,
          Bridge_go (Some 0) (Some 1) (Bridge_range (Some v)),
          Consume (Some 1) (out @ [y]),
          OrDone_go (Some c) (Some v) (OrDone_forward w)]\<rparr>
          \<or> s' = s\<lparr>heap := (heap s)(0 \<mapsto> \<lparr>buf = [], cap = 0, closed = True\<rparr>), pool := [Bridge_go (Some 0) (Some 1) (Bridge_forward (Some v) y),
          Consume (Some 1) (out),
          OrDone_go (Some c) (Some v) (OrDone_forward w)]\<rparr>"
          using assms forward forward' i7 by (auto simp: sched OrDone_def make_chan_def go_def)
        then show ?thesis
        proof (elim disjE)
          assume "s' = s\<lparr>pool := [Streamer (Some 0) k ([]) Streamer_make,
          Bridge_go (Some 0) (Some 1) (Bridge_range (Some v)),
          Consume (Some 1) (out @ [y]),
          OrDone_go (Some c) (Some v) (OrDone_forward w)]\<rparr>"
          then show ?thesis
            by (intro low[OF Streamer_inv.draining[where g = "Str_make ([])" and c = "c" and v = "v" and b = "u # b'"
                  and od = "Some (OrDone_forward w)" and bpc = "Bridge_range (Some v)" and out = "out @ [y]"]])
              (use assms forward forward' i7 in \<open>auto\<close>)
        next
          assume "s' = s\<lparr>heap := (heap s)(0 \<mapsto> \<lparr>buf = [], cap = 0, closed = True\<rparr>), pool := [Bridge_go (Some 0) (Some 1) (Bridge_forward (Some v) y),
          Consume (Some 1) (out),
          OrDone_go (Some c) (Some v) (OrDone_forward w)]\<rparr>"
          then show ?thesis
            by (intro low[OF Streamer_inv.draining[where g = "Str_gone" and c = "c" and v = "v" and b = "u # b'"
                  and od = "Some (OrDone_forward w)" and bpc = "Bridge_forward (Some v) y" and out = "out"]])
              (use assms forward forward' i7 in \<open>auto\<close>)
        qed
      next
        case i8
        have "s' = s\<lparr>pool := [Streamer (Some 0) k (zs # it) Streamer_make,
          Bridge_go (Some 0) (Some 1) (Bridge_range (Some v)),
          Consume (Some 1) (out @ [y]),
          OrDone_go (Some c) (Some v) (OrDone_forward w)]\<rparr>
          \<or> s' = s\<lparr>heap := (heap s)(fresh s \<mapsto> \<lparr>buf = [], cap = k, closed = False\<rparr>), fresh := Suc (fresh s), pool := [Streamer (Some 0) k (zs # it) (Streamer_hand (Some (fresh s))),
          Bridge_go (Some 0) (Some 1) (Bridge_forward (Some v) y),
          Consume (Some 1) (out),
          OrDone_go (Some c) (Some v) (OrDone_forward w)]\<rparr>"
          using assms forward forward' i8 by (auto simp: sched OrDone_def make_chan_def go_def)
        then show ?thesis
        proof (elim disjE)
          assume "s' = s\<lparr>pool := [Streamer (Some 0) k (zs # it) Streamer_make,
          Bridge_go (Some 0) (Some 1) (Bridge_range (Some v)),
          Consume (Some 1) (out @ [y]),
          OrDone_go (Some c) (Some v) (OrDone_forward w)]\<rparr>"
          then show ?thesis
            by (intro low[OF Streamer_inv.draining[where g = "Str_make (zs # it)" and c = "c" and v = "v" and b = "[]"
                  and od = "Some (OrDone_forward w)" and bpc = "Bridge_range (Some v)" and out = "out @ [y]"]])
              (use assms forward forward' i8 in \<open>auto\<close>)
        next
          assume "s' = s\<lparr>heap := (heap s)(fresh s \<mapsto> \<lparr>buf = [], cap = k, closed = False\<rparr>), fresh := Suc (fresh s), pool := [Streamer (Some 0) k (zs # it) (Streamer_hand (Some (fresh s))),
          Bridge_go (Some 0) (Some 1) (Bridge_forward (Some v) y),
          Consume (Some 1) (out),
          OrDone_go (Some c) (Some v) (OrDone_forward w)]\<rparr>"
          then show ?thesis
            by (intro low[OF Streamer_inv.draining[where g = "Str_hand (fresh s) (zs) (it)" and c = "c" and v = "v" and b = "[]"
                  and od = "Some (OrDone_forward w)" and bpc = "Bridge_forward (Some v) y" and out = "out"]])
              (use assms forward forward' i8 in \<open>auto\<close>)
        qed
      next
        case i9
        have "s' = s\<lparr>pool := [Streamer (Some 0) k (zs # it) Streamer_make,
          Bridge_go (Some 0) (Some 1) (Bridge_range (Some v)),
          Consume (Some 1) (out @ [y]),
          OrDone_go (Some c) (Some v) (OrDone_forward w)]\<rparr>
          \<or> s' = s\<lparr>heap := (heap s)(fresh s \<mapsto> \<lparr>buf = [], cap = k, closed = False\<rparr>), fresh := Suc (fresh s), pool := [Streamer (Some 0) k (zs # it) (Streamer_hand (Some (fresh s))),
          Bridge_go (Some 0) (Some 1) (Bridge_forward (Some v) y),
          Consume (Some 1) (out),
          OrDone_go (Some c) (Some v) (OrDone_forward w)]\<rparr>"
          using assms forward forward' i9 by (auto simp: sched OrDone_def make_chan_def go_def)
        then show ?thesis
        proof (elim disjE)
          assume "s' = s\<lparr>pool := [Streamer (Some 0) k (zs # it) Streamer_make,
          Bridge_go (Some 0) (Some 1) (Bridge_range (Some v)),
          Consume (Some 1) (out @ [y]),
          OrDone_go (Some c) (Some v) (OrDone_forward w)]\<rparr>"
          then show ?thesis
            by (intro low[OF Streamer_inv.draining[where g = "Str_make (zs # it)" and c = "c" and v = "v" and b = "u # b'"
                  and od = "Some (OrDone_forward w)" and bpc = "Bridge_range (Some v)" and out = "out @ [y]"]])
              (use assms forward forward' i9 in \<open>auto\<close>)
        next
          assume "s' = s\<lparr>heap := (heap s)(fresh s \<mapsto> \<lparr>buf = [], cap = k, closed = False\<rparr>), fresh := Suc (fresh s), pool := [Streamer (Some 0) k (zs # it) (Streamer_hand (Some (fresh s))),
          Bridge_go (Some 0) (Some 1) (Bridge_forward (Some v) y),
          Consume (Some 1) (out),
          OrDone_go (Some c) (Some v) (OrDone_forward w)]\<rparr>"
          then show ?thesis
            by (intro low[OF Streamer_inv.draining[where g = "Str_hand (fresh s) (zs) (it)" and c = "c" and v = "v" and b = "u # b'"
                  and od = "Some (OrDone_forward w)" and bpc = "Bridge_forward (Some v) y" and out = "out"]])
              (use assms forward forward' i9 in \<open>auto\<close>)
        qed
      next
        case i10
        have s1: "s' = s\<lparr>pool := [Streamer (Some 0) k (zs # it) (Streamer_hand (Some (c'))),
          Bridge_go (Some 0) (Some 1) (Bridge_range (Some v)),
          Consume (Some 1) (out @ [y]),
          OrDone_go (Some c) (Some v) (OrDone_forward w)]\<rparr>"
          using assms forward forward' i10 by (auto simp: sched OrDone_def make_chan_def go_def)
        show ?thesis
          by (intro low[OF Streamer_inv.draining[where g = "Str_hand (c') (zs) (it)" and c = "c" and v = "v" and b = "[]"
                  and od = "Some (OrDone_forward w)" and bpc = "Bridge_range (Some v)" and out = "out @ [y]"]])
            (use s1 assms forward forward' i10 in \<open>auto\<close>)
      next
        case i11
        have s1: "s' = s\<lparr>pool := [Streamer (Some 0) k (zs # it) (Streamer_hand (Some (c'))),
          Bridge_go (Some 0) (Some 1) (Bridge_range (Some v)),
          Consume (Some 1) (out @ [y]),
          OrDone_go (Some c) (Some v) (OrDone_forward w)]\<rparr>"
          using assms forward forward' i11 by (auto simp: sched OrDone_def make_chan_def go_def)
        show ?thesis
          by (intro low[OF Streamer_inv.draining[where g = "Str_hand (c') (zs) (it)" and c = "c" and v = "v" and b = "u # b'"
                  and od = "Some (OrDone_forward w)" and bpc = "Bridge_range (Some v)" and out = "out @ [y]"]])
            (use s1 assms forward forward' i11 in \<open>auto\<close>)
      next
        case i12
        have s1: "s' = s\<lparr>pool := [Bridge_go (Some 0) (Some 1) (Bridge_range (Some v)),
          Consume (Some 1) (out @ [y]),
          OrDone_go (Some c) (Some v) (OrDone_forward w)]\<rparr>"
          using assms forward forward' i12 by (auto simp: sched OrDone_def make_chan_def go_def)
        show ?thesis
          by (intro low[OF Streamer_inv.draining[where g = "Str_gone" and c = "c" and v = "v" and b = "[]"
                  and od = "Some (OrDone_forward w)" and bpc = "Bridge_range (Some v)" and out = "out @ [y]"]])
            (use s1 assms forward forward' i12 in \<open>auto\<close>)
      next
        case i13
        have s1: "s' = s\<lparr>pool := [Bridge_go (Some 0) (Some 1) (Bridge_range (Some v)),
          Consume (Some 1) (out @ [y]),
          OrDone_go (Some c) (Some v) (OrDone_forward w)]\<rparr>"
          using assms forward forward' i13 by (auto simp: sched OrDone_def make_chan_def go_def)
        show ?thesis
          by (intro low[OF Streamer_inv.draining[where g = "Str_gone" and c = "c" and v = "v" and b = "u # b'"
                  and od = "Some (OrDone_forward w)" and bpc = "Bridge_range (Some v)" and out = "out @ [y]"]])
            (use s1 assms forward forward' i13 in \<open>auto\<close>)
      qed
    next
      case return
      consider (i0) "g = Str_make []" "b = []"
        | (i2) zs it where "g = Str_make (zs # it)" "b = []"
        | (i4) c' zs it where "g = Str_hand c' zs it" "b = []"
        | (i6) "g = Str_gone" "b = []"
        using assms(12,13) return by (cases g rule: str_cases) auto
      then show ?thesis
      proof cases
        case i0
        have "s' = s\<lparr>pool := [Streamer (Some 0) k ([]) Streamer_make,
          Bridge_go (Some 0) (Some 1) (Bridge_range (Some v)),
          Consume (Some 1) (out @ [y]),
          OrDone_go (Some c) (Some v) (OrDone_return)]\<rparr>
          \<or> s' = s\<lparr>heap := (heap s)(0 \<mapsto> \<lparr>buf = [], cap = 0, closed = True\<rparr>), pool := [Bridge_go (Some 0) (Some 1) (Bridge_forward (Some v) y),
          Consume (Some 1) (out),
          OrDone_go (Some c) (Some v) (OrDone_return)]\<rparr>
          \<or> s' = s\<lparr>heap := (heap s)(v \<mapsto> \<lparr>buf = [], cap = 0, closed = True\<rparr>), pool := [Streamer (Some 0) k ([]) Streamer_make,
          Bridge_go (Some 0) (Some 1) (Bridge_forward (Some v) y),
          Consume (Some 1) (out)]\<rparr>"
          using assms forward return i0 by (auto simp: sched OrDone_def make_chan_def go_def)
        then show ?thesis
        proof (elim disjE)
          assume "s' = s\<lparr>pool := [Streamer (Some 0) k ([]) Streamer_make,
          Bridge_go (Some 0) (Some 1) (Bridge_range (Some v)),
          Consume (Some 1) (out @ [y]),
          OrDone_go (Some c) (Some v) (OrDone_return)]\<rparr>"
          then show ?thesis
            by (intro low[OF Streamer_inv.draining[where g = "Str_make ([])" and c = "c" and v = "v" and b = "[]"
                  and od = "Some (OrDone_return)" and bpc = "Bridge_range (Some v)" and out = "out @ [y]"]])
              (use assms forward return i0 in \<open>auto\<close>)
        next
          assume "s' = s\<lparr>heap := (heap s)(0 \<mapsto> \<lparr>buf = [], cap = 0, closed = True\<rparr>), pool := [Bridge_go (Some 0) (Some 1) (Bridge_forward (Some v) y),
          Consume (Some 1) (out),
          OrDone_go (Some c) (Some v) (OrDone_return)]\<rparr>"
          then show ?thesis
            by (intro low[OF Streamer_inv.draining[where g = "Str_gone" and c = "c" and v = "v" and b = "[]"
                  and od = "Some (OrDone_return)" and bpc = "Bridge_forward (Some v) y" and out = "out"]])
              (use assms forward return i0 in \<open>auto\<close>)
        next
          assume "s' = s\<lparr>heap := (heap s)(v \<mapsto> \<lparr>buf = [], cap = 0, closed = True\<rparr>), pool := [Streamer (Some 0) k ([]) Streamer_make,
          Bridge_go (Some 0) (Some 1) (Bridge_forward (Some v) y),
          Consume (Some 1) (out)]\<rparr>"
          then show ?thesis
            by (intro low[OF Streamer_inv.draining[where g = "Str_make ([])" and c = "c" and v = "v" and b = "[]"
                  and od = "None" and bpc = "Bridge_forward (Some v) y" and out = "out"]])
              (use assms forward return i0 in \<open>auto\<close>)
        qed
      next
        case i2
        have "s' = s\<lparr>pool := [Streamer (Some 0) k (zs # it) Streamer_make,
          Bridge_go (Some 0) (Some 1) (Bridge_range (Some v)),
          Consume (Some 1) (out @ [y]),
          OrDone_go (Some c) (Some v) (OrDone_return)]\<rparr>
          \<or> s' = s\<lparr>heap := (heap s)(fresh s \<mapsto> \<lparr>buf = [], cap = k, closed = False\<rparr>), fresh := Suc (fresh s), pool := [Streamer (Some 0) k (zs # it) (Streamer_hand (Some (fresh s))),
          Bridge_go (Some 0) (Some 1) (Bridge_forward (Some v) y),
          Consume (Some 1) (out),
          OrDone_go (Some c) (Some v) (OrDone_return)]\<rparr>
          \<or> s' = s\<lparr>heap := (heap s)(v \<mapsto> \<lparr>buf = [], cap = 0, closed = True\<rparr>), pool := [Streamer (Some 0) k (zs # it) Streamer_make,
          Bridge_go (Some 0) (Some 1) (Bridge_forward (Some v) y),
          Consume (Some 1) (out)]\<rparr>"
          using assms forward return i2 by (auto simp: sched OrDone_def make_chan_def go_def)
        then show ?thesis
        proof (elim disjE)
          assume "s' = s\<lparr>pool := [Streamer (Some 0) k (zs # it) Streamer_make,
          Bridge_go (Some 0) (Some 1) (Bridge_range (Some v)),
          Consume (Some 1) (out @ [y]),
          OrDone_go (Some c) (Some v) (OrDone_return)]\<rparr>"
          then show ?thesis
            by (intro low[OF Streamer_inv.draining[where g = "Str_make (zs # it)" and c = "c" and v = "v" and b = "[]"
                  and od = "Some (OrDone_return)" and bpc = "Bridge_range (Some v)" and out = "out @ [y]"]])
              (use assms forward return i2 in \<open>auto\<close>)
        next
          assume "s' = s\<lparr>heap := (heap s)(fresh s \<mapsto> \<lparr>buf = [], cap = k, closed = False\<rparr>), fresh := Suc (fresh s), pool := [Streamer (Some 0) k (zs # it) (Streamer_hand (Some (fresh s))),
          Bridge_go (Some 0) (Some 1) (Bridge_forward (Some v) y),
          Consume (Some 1) (out),
          OrDone_go (Some c) (Some v) (OrDone_return)]\<rparr>"
          then show ?thesis
            by (intro low[OF Streamer_inv.draining[where g = "Str_hand (fresh s) (zs) (it)" and c = "c" and v = "v" and b = "[]"
                  and od = "Some (OrDone_return)" and bpc = "Bridge_forward (Some v) y" and out = "out"]])
              (use assms forward return i2 in \<open>auto\<close>)
        next
          assume "s' = s\<lparr>heap := (heap s)(v \<mapsto> \<lparr>buf = [], cap = 0, closed = True\<rparr>), pool := [Streamer (Some 0) k (zs # it) Streamer_make,
          Bridge_go (Some 0) (Some 1) (Bridge_forward (Some v) y),
          Consume (Some 1) (out)]\<rparr>"
          then show ?thesis
            by (intro low[OF Streamer_inv.draining[where g = "Str_make (zs # it)" and c = "c" and v = "v" and b = "[]"
                  and od = "None" and bpc = "Bridge_forward (Some v) y" and out = "out"]])
              (use assms forward return i2 in \<open>auto\<close>)
        qed
      next
        case i4
        have "s' = s\<lparr>pool := [Streamer (Some 0) k (zs # it) (Streamer_hand (Some (c'))),
          Bridge_go (Some 0) (Some 1) (Bridge_range (Some v)),
          Consume (Some 1) (out @ [y]),
          OrDone_go (Some c) (Some v) (OrDone_return)]\<rparr>
          \<or> s' = s\<lparr>heap := (heap s)(v \<mapsto> \<lparr>buf = [], cap = 0, closed = True\<rparr>), pool := [Streamer (Some 0) k (zs # it) (Streamer_hand (Some (c'))),
          Bridge_go (Some 0) (Some 1) (Bridge_forward (Some v) y),
          Consume (Some 1) (out)]\<rparr>"
          using assms forward return i4 by (auto simp: sched OrDone_def make_chan_def go_def)
        then show ?thesis
        proof (elim disjE)
          assume "s' = s\<lparr>pool := [Streamer (Some 0) k (zs # it) (Streamer_hand (Some (c'))),
          Bridge_go (Some 0) (Some 1) (Bridge_range (Some v)),
          Consume (Some 1) (out @ [y]),
          OrDone_go (Some c) (Some v) (OrDone_return)]\<rparr>"
          then show ?thesis
            by (intro low[OF Streamer_inv.draining[where g = "Str_hand (c') (zs) (it)" and c = "c" and v = "v" and b = "[]"
                  and od = "Some (OrDone_return)" and bpc = "Bridge_range (Some v)" and out = "out @ [y]"]])
              (use assms forward return i4 in \<open>auto\<close>)
        next
          assume "s' = s\<lparr>heap := (heap s)(v \<mapsto> \<lparr>buf = [], cap = 0, closed = True\<rparr>), pool := [Streamer (Some 0) k (zs # it) (Streamer_hand (Some (c'))),
          Bridge_go (Some 0) (Some 1) (Bridge_forward (Some v) y),
          Consume (Some 1) (out)]\<rparr>"
          then show ?thesis
            by (intro low[OF Streamer_inv.draining[where g = "Str_hand (c') (zs) (it)" and c = "c" and v = "v" and b = "[]"
                  and od = "None" and bpc = "Bridge_forward (Some v) y" and out = "out"]])
              (use assms forward return i4 in \<open>auto\<close>)
        qed
      next
        case i6
        have "s' = s\<lparr>pool := [Bridge_go (Some 0) (Some 1) (Bridge_range (Some v)),
          Consume (Some 1) (out @ [y]),
          OrDone_go (Some c) (Some v) (OrDone_return)]\<rparr>
          \<or> s' = s\<lparr>heap := (heap s)(v \<mapsto> \<lparr>buf = [], cap = 0, closed = True\<rparr>), pool := [Bridge_go (Some 0) (Some 1) (Bridge_forward (Some v) y),
          Consume (Some 1) (out)]\<rparr>"
          using assms forward return i6 by (auto simp: sched OrDone_def make_chan_def go_def)
        then show ?thesis
        proof (elim disjE)
          assume "s' = s\<lparr>pool := [Bridge_go (Some 0) (Some 1) (Bridge_range (Some v)),
          Consume (Some 1) (out @ [y]),
          OrDone_go (Some c) (Some v) (OrDone_return)]\<rparr>"
          then show ?thesis
            by (intro low[OF Streamer_inv.draining[where g = "Str_gone" and c = "c" and v = "v" and b = "[]"
                  and od = "Some (OrDone_return)" and bpc = "Bridge_range (Some v)" and out = "out @ [y]"]])
              (use assms forward return i6 in \<open>auto\<close>)
        next
          assume "s' = s\<lparr>heap := (heap s)(v \<mapsto> \<lparr>buf = [], cap = 0, closed = True\<rparr>), pool := [Bridge_go (Some 0) (Some 1) (Bridge_forward (Some v) y),
          Consume (Some 1) (out)]\<rparr>"
          then show ?thesis
            by (intro low[OF Streamer_inv.draining[where g = "Str_gone" and c = "c" and v = "v" and b = "[]"
                  and od = "None" and bpc = "Bridge_forward (Some v) y" and out = "out"]])
              (use assms forward return i6 in \<open>auto\<close>)
        qed
      qed
    qed
  qed
qed

lemma Streamer_inv_step:
  assumes "Streamer_inv k xss n s" "s' \<in> set (succs s)"
  shows "\<exists>n'<n. Streamer_inv k xss n' s'"
  using assms(1)
proof (cases rule: Streamer_inv.cases)
  case (selecting g out)
  then show ?thesis using Streamer_inv_step_selecting[of s k g out xss s'] assms(2) by simp
next
  case (calling c b g out)
  then show ?thesis using Streamer_inv_step_calling[of s c b k g out xss s'] assms(2) by simp
next
  case (draining c b g v od bpc out)
  then show ?thesis
    using Streamer_inv_step_draining[of s c b k g v od bpc out xss s'] assms(2) by simp
next
  case returning
  have s1: "s' = s\<lparr>heap := (heap s)(1 \<mapsto> \<lparr>buf = [], cap = 0, closed = True\<rparr>),
      pool := [Consume (Some 1) (concat xss)]\<rparr>"
    using returning assms(2) by (auto simp: sched)
  show ?thesis
    by (intro lowerI[where I = "Streamer_inv k xss", OF Streamer_inv.closing])
      (use s1 returning in auto)
next
  case closing
  have s1: "s' = s\<lparr>pool := [Consumed (Some 1) (concat xss)]\<rparr>"
    using closing assms(2) by (auto simp: sched)
  show ?thesis
    by (intro lowerI[where I = "Streamer_inv k xss", OF Streamer_inv.finished])
      (use s1 closing in auto)
next
  case finished
  then show ?thesis using assms(2) by (simp add: sched)
qed

lemma Streamer_inv_stuck:
  assumes "Streamer_inv k xss n s" "succs s = []"
  shows "delivered (Some 1) (concat xss) s"
  using assms(1)
proof (cases rule: Streamer_inv.cases)
  case (selecting g out)
  then have "succs s \<noteq> []"
    by (cases g rule: str_cases) (auto simp: sched make_chan_def)
  then show ?thesis using assms(2) by simp
next
  case (calling c b g out)
  then have "succs s \<noteq> []"
    by (cases g rule: str_cases) (auto simp: sched OrDone_def make_chan_def go_def)
  then show ?thesis using assms(2) by simp
next
  case (draining c b g v od bpc out)
  have "succs s \<noteq> []"
    using draining
    by (cases g rule: str_cases; cases od rule: od_rank.cases; cases bpc; cases b)
      (auto simp: sched make_chan_def)
  then show ?thesis using assms(2) by simp
next
  case returning
  then have "succs s \<noteq> []" by (simp add: sched)
  then show ?thesis using assms(2) by simp
next
  case closing
  then have "succs s \<noteq> []" by (simp add: sched)
  then show ?thesis using assms(2) by simp
next
  case finished
  then show ?thesis by (simp add: delivered_def)
qed

lemma Streamer_program_eq:
  "Streamer_program k xss =
     (Some 1,
      \<lparr>heap = [0 \<mapsto> \<lparr>buf = [], cap = 0, closed = False\<rparr>,
               1 \<mapsto> \<lparr>buf = [], cap = 0, closed = False\<rparr>],
       fresh = 2,
       pool = [Streamer (Some 0) k xss Streamer_make, Bridge_go (Some 0) (Some 1) Bridge_select,
               Consume (Some 1) []],
       cancelled = False, wgs = [], calls = [], panicked = False\<rparr>)"
  by (simp add: Streamer_program_def Bridge_def allocs numeral_2_eq_2)

lemma Streamer_inv_start: "\<exists>n. Streamer_inv k xss n (snd (Streamer_program k xss))"
  by (rule exI, rule Streamer_inv.selecting[where g = "Str_make xss" and out = "[]"])
    (simp_all add: Streamer_program_eq)

lemma Streamer_delivers:
  "inevitably (delivered (fst (Streamer_program k xss)) (concat xss))
     (snd (Streamer_program k xss))"
proof -
  obtain n0 where "Streamer_inv k xss n0 (snd (Streamer_program k xss))"
    using Streamer_inv_start by blast
  then have "inevitably (delivered (Some 1) (concat xss)) (snd (Streamer_program k xss))"
    by (rule inevitably_ranked[where I = "Streamer_inv k xss",
          OF _ Streamer_inv_step Streamer_inv_stuck])
  then show ?thesis by (simp add: Streamer_program_eq)
qed

subsection \<open>The flattened stream\<close>

lemma bridge_example_values:
  "concat (map (\<lambda>i. [Val (int i)]) [0..<10]) =
     [Val 0, Val 1, Val 2, Val 3, Val 4, Val 5, Val 6, Val 7, Val 8, Val 9]"
  by code_simp

text \<open>
  C5: with the context never cancelled, every run of \<open>Bridge\<close> over a stream of streams
  ends, whatever the order in which the goroutines take their steps, and the caller has
  then received every value of the first inner stream in order, then every value of the
  second, and so on, and has seen the output closed. This holds for the three callers:
  the one of the repository's example, whose goroutine sends the inner streams, each
  filled and closed, on an outer channel without buffer while \<open>Bridge\<close> runs
  (\<open>genVals_program\<close>); the one whose goroutine sends every inner stream, a channel of any
  capacity \<open>k\<close>, on the outer channel first and feeds and closes it afterwards, while
  \<open>Bridge\<close> reads it (\<open>Streamer_program\<close>); and the one that has filled and closed all its
  streams before the call (\<open>Bridge_program\<close>). The example of the repository, ten inner
  streams that carry 0 to 9, yields 0, 1, ..., 9.
\<close>

theorem Bridge_flattens:
  "inevitably (delivered (fst (genVals_program items)) (concat items))
     (snd (genVals_program items)) \<and>
   inevitably (delivered (fst (Streamer_program k xss)) (concat xss))
     (snd (Streamer_program k xss)) \<and>
   inevitably (delivered (fst (Bridge_program yss)) (concat yss))
     (snd (Bridge_program yss))"
  using genVals_delivers Streamer_delivers Bridge_program_delivers by blast

theorem Bridge_example_0_to_9:
  "inevitably
     (delivered (fst bridge_example)
        [Val 0, Val 1, Val 2, Val 3, Val 4, Val 5, Val 6, Val 7, Val 8, Val 9])
     (snd bridge_example)"
  using Bridge_flattens[where items = "map (\<lambda>i. [Val (int i)]) [0..<10]"
      and xss = "[] :: int val list list" and yss = "[] :: int val list list" and k = 0]
  unfolding bridge_example_def bridge_example_values by (rule conjunct1)

section \<open>Tee\<close>

lemma pr_rank_Some [simp]: "pr_rank (Some r) = 6 * length r + 1"
  by (cases r) simp_all

lemma Tee_inv_step_teeing:
  assumes "\<not> cancelled s" "\<not> panicked s"
    "heap s 0 = Some \<lparr>buf = b, cap = k, closed = (pr = None)\<rparr>"
    "heap s 1 = Some \<lparr>buf = [], cap = 0, closed = False\<rparr>"
    "heap s 2 = Some \<lparr>buf = [], cap = 0, closed = False\<rparr>"
    "heap s 3 = Some \<lparr>buf = [], cap = 0, closed = (od = None)\<rparr>"
    "od_drained od \<Longrightarrow> b = []" "od_drained od \<Longrightarrow> pr = None"
    "pool s = pr_pool pr @ [Tee_go (Some 0) (Some 1) (Some 2) tpc,
               Consume (Some 1) outl, Consume (Some 2) outr]
              @ od_pool (Some 0) (Some 3) od"
    "tee_reads tpc"
    "outl @ tee_left tpc @ od_holds od @ b @ pr_rest pr = xs"
    "outr @ tee_right tpc @ od_holds od @ b @ pr_rest pr = xs"
    "s' \<in> set (succs s)"
  shows "\<exists>n'<pr_rank pr + 5 * length b + 2 * od_rank od + tee_rank tpc + 4. Tee_inv k xs n' s'"
proof -
  note low = lowerI[where I = "Tee_inv k xs" and s' = s'
      and n = "pr_rank pr + 5 * length b + 2 * od_rank od + tee_rank tpc + 4"]
  consider (range) "tpc = Tee_range (Some 3)"
    | (both) v where "tpc = Tee_select (Some 3) v 0 (Some 1) (Some 2)"
    | (ldone) v where "tpc = Tee_select (Some 3) v 1 None (Some 2)"
    | (rdone) v where "tpc = Tee_select (Some 3) v 1 (Some 1) None"
    using assms(10) by (cases tpc) auto
  then show ?thesis
  proof cases
    case range
    consider (gone) "od = None" | (select) "od = Some OrDone_select"
      | (forward) w where "od = Some (OrDone_forward w)" | (return) "od = Some OrDone_return"
      by (cases od rule: od_rank.cases) auto
    then show ?thesis
    proof cases
      case gone
      consider (ia) "pr = None" "b = []"
        using assms(7,8) gone by auto
      then show ?thesis
      proof cases
        case ia
        have s1: "s' = s\<lparr>pool := [Tee_go (Some 0) (Some 1) (Some 2) Tee_close_right, Consume (Some 1) outl, Consume (Some 2) outr]\<rparr>"
          using assms range gone ia by (auto simp: sched)
        show ?thesis
          by (intro low[OF Tee_inv.closing[where tpc = "Some Tee_close_right" and l = False and r = False]])
            (use s1 assms range gone ia in \<open>auto\<close>)
      qed
    next
      case select
      consider (i0) "pr = None" "b = []"
        | (i1) u b' where "pr = None" "b = u # b'"
        | (i2) "pr = Some []" "b = []"
        | (i3) u b' where "pr = Some []" "b = u # b'"
        | (i4) x r where "pr = Some (x # r)" "b = []" "length b < k"
        | (i5) x r where "pr = Some (x # r)" "b = []" "\<not> length b < k"
        | (i6) x r u b' where "pr = Some (x # r)" "b = u # b'" "length b < k"
        | (i7) x r u b' where "pr = Some (x # r)" "b = u # b'" "\<not> length b < k"
        by (cases pr rule: pr_rank.cases; cases b; cases "length b < k") auto
      then show ?thesis
      proof cases
        case i0
        have s1: "s' = s\<lparr>pool := [Tee_go (Some 0) (Some 1) (Some 2) (Tee_range (Some 3)),
          Consume (Some 1) (outl),
          Consume (Some 2) (outr),
          OrDone_go (Some 0) (Some 3) (OrDone_return)]\<rparr>"
          using assms range select i0 by (auto simp: sched)
        show ?thesis
          by (intro low[OF Tee_inv.teeing[where b = "[]" and pr = "None" and od = "Some (OrDone_return)"
                  and tpc = "Tee_range (Some 3)" and outl = "outl" and outr = "outr"]])
            (use s1 assms range select i0 in \<open>auto\<close>)
      next
        case i1
        have s1: "s' = s\<lparr>heap := (heap s)(0 \<mapsto> \<lparr>buf = b', cap = k, closed = True\<rparr>), pool := [Tee_go (Some 0) (Some 1) (Some 2) (Tee_range (Some 3)),
          Consume (Some 1) (outl),
          Consume (Some 2) (outr),
          OrDone_go (Some 0) (Some 3) (OrDone_forward u)]\<rparr>"
          using assms range select i1 by (auto simp: sched)
        show ?thesis
          by (intro low[OF Tee_inv.teeing[where b = "b'" and pr = "None" and od = "Some (OrDone_forward u)"
                  and tpc = "Tee_range (Some 3)" and outl = "outl" and outr = "outr"]])
            (use s1 assms range select i1 in \<open>auto\<close>)
      next
        case i2
        have s1: "s' = s\<lparr>heap := (heap s)(0 \<mapsto> \<lparr>buf = [], cap = k, closed = True\<rparr>), pool := [Tee_go (Some 0) (Some 1) (Some 2) (Tee_range (Some 3)),
          Consume (Some 1) (outl),
          Consume (Some 2) (outr),
          OrDone_go (Some 0) (Some 3) (OrDone_select)]\<rparr>"
          using assms range select i2 by (auto simp: sched)
        show ?thesis
          by (intro low[OF Tee_inv.teeing[where b = "[]" and pr = "None" and od = "Some (OrDone_select)"
                  and tpc = "Tee_range (Some 3)" and outl = "outl" and outr = "outr"]])
            (use s1 assms range select i2 in \<open>auto\<close>)
      next
        case i3
        have "s' = s\<lparr>heap := (heap s)(0 \<mapsto> \<lparr>buf = u # b', cap = k, closed = True\<rparr>), pool := [Tee_go (Some 0) (Some 1) (Some 2) (Tee_range (Some 3)),
          Consume (Some 1) (outl),
          Consume (Some 2) (outr),
          OrDone_go (Some 0) (Some 3) (OrDone_select)]\<rparr>
          \<or> s' = s\<lparr>heap := (heap s)(0 \<mapsto> \<lparr>buf = b', cap = k, closed = False\<rparr>), pool := [Produce (Some 0) ([]),
          Tee_go (Some 0) (Some 1) (Some 2) (Tee_range (Some 3)),
          Consume (Some 1) (outl),
          Consume (Some 2) (outr),
          OrDone_go (Some 0) (Some 3) (OrDone_forward u)]\<rparr>"
          using assms range select i3 by (auto simp: sched)
        then show ?thesis
        proof (elim disjE)
          assume "s' = s\<lparr>heap := (heap s)(0 \<mapsto> \<lparr>buf = u # b', cap = k, closed = True\<rparr>), pool := [Tee_go (Some 0) (Some 1) (Some 2) (Tee_range (Some 3)),
          Consume (Some 1) (outl),
          Consume (Some 2) (outr),
          OrDone_go (Some 0) (Some 3) (OrDone_select)]\<rparr>"
          then show ?thesis
            by (intro low[OF Tee_inv.teeing[where b = "u # b'" and pr = "None" and od = "Some (OrDone_select)"
                  and tpc = "Tee_range (Some 3)" and outl = "outl" and outr = "outr"]])
              (use assms range select i3 in \<open>auto\<close>)
        next
          assume "s' = s\<lparr>heap := (heap s)(0 \<mapsto> \<lparr>buf = b', cap = k, closed = False\<rparr>), pool := [Produce (Some 0) ([]),
          Tee_go (Some 0) (Some 1) (Some 2) (Tee_range (Some 3)),
          Consume (Some 1) (outl),
          Consume (Some 2) (outr),
          OrDone_go (Some 0) (Some 3) (OrDone_forward u)]\<rparr>"
          then show ?thesis
            by (intro low[OF Tee_inv.teeing[where b = "b'" and pr = "Some ([])" and od = "Some (OrDone_forward u)"
                  and tpc = "Tee_range (Some 3)" and outl = "outl" and outr = "outr"]])
              (use assms range select i3 in \<open>auto\<close>)
        qed
      next
        case i4
        have "s' = s\<lparr>heap := (heap s)(0 \<mapsto> \<lparr>buf = [x], cap = k, closed = False\<rparr>), pool := [Produce (Some 0) (r),
          Tee_go (Some 0) (Some 1) (Some 2) (Tee_range (Some 3)),
          Consume (Some 1) (outl),
          Consume (Some 2) (outr),
          OrDone_go (Some 0) (Some 3) (OrDone_select)]\<rparr>
          \<or> s' = s\<lparr>pool := [Produce (Some 0) (r),
          Tee_go (Some 0) (Some 1) (Some 2) (Tee_range (Some 3)),
          Consume (Some 1) (outl),
          Consume (Some 2) (outr),
          OrDone_go (Some 0) (Some 3) (OrDone_forward x)]\<rparr>"
          using assms range select i4 by (auto simp: sched)
        then show ?thesis
        proof (elim disjE)
          assume "s' = s\<lparr>heap := (heap s)(0 \<mapsto> \<lparr>buf = [x], cap = k, closed = False\<rparr>), pool := [Produce (Some 0) (r),
          Tee_go (Some 0) (Some 1) (Some 2) (Tee_range (Some 3)),
          Consume (Some 1) (outl),
          Consume (Some 2) (outr),
          OrDone_go (Some 0) (Some 3) (OrDone_select)]\<rparr>"
          then show ?thesis
            by (intro low[OF Tee_inv.teeing[where b = "[x]" and pr = "Some (r)" and od = "Some (OrDone_select)"
                  and tpc = "Tee_range (Some 3)" and outl = "outl" and outr = "outr"]])
              (use assms range select i4 in \<open>auto\<close>)
        next
          assume "s' = s\<lparr>pool := [Produce (Some 0) (r),
          Tee_go (Some 0) (Some 1) (Some 2) (Tee_range (Some 3)),
          Consume (Some 1) (outl),
          Consume (Some 2) (outr),
          OrDone_go (Some 0) (Some 3) (OrDone_forward x)]\<rparr>"
          then show ?thesis
            by (intro low[OF Tee_inv.teeing[where b = "[]" and pr = "Some (r)" and od = "Some (OrDone_forward x)"
                  and tpc = "Tee_range (Some 3)" and outl = "outl" and outr = "outr"]])
              (use assms range select i4 in \<open>auto\<close>)
        qed
      next
        case i5
        have s1: "s' = s\<lparr>pool := [Produce (Some 0) (r),
          Tee_go (Some 0) (Some 1) (Some 2) (Tee_range (Some 3)),
          Consume (Some 1) (outl),
          Consume (Some 2) (outr),
          OrDone_go (Some 0) (Some 3) (OrDone_forward x)]\<rparr>"
          using assms range select i5 by (auto simp: sched)
        show ?thesis
          by (intro low[OF Tee_inv.teeing[where b = "[]" and pr = "Some (r)" and od = "Some (OrDone_forward x)"
                  and tpc = "Tee_range (Some 3)" and outl = "outl" and outr = "outr"]])
            (use s1 assms range select i5 in \<open>auto\<close>)
      next
        case i6
        have "s' = s\<lparr>heap := (heap s)(0 \<mapsto> \<lparr>buf = u # b' @ [x], cap = k, closed = False\<rparr>), pool := [Produce (Some 0) (r),
          Tee_go (Some 0) (Some 1) (Some 2) (Tee_range (Some 3)),
          Consume (Some 1) (outl),
          Consume (Some 2) (outr),
          OrDone_go (Some 0) (Some 3) (OrDone_select)]\<rparr>
          \<or> s' = s\<lparr>heap := (heap s)(0 \<mapsto> \<lparr>buf = b', cap = k, closed = False\<rparr>), pool := [Produce (Some 0) (x # r),
          Tee_go (Some 0) (Some 1) (Some 2) (Tee_range (Some 3)),
          Consume (Some 1) (outl),
          Consume (Some 2) (outr),
          OrDone_go (Some 0) (Some 3) (OrDone_forward u)]\<rparr>"
          using assms range select i6 by (auto simp: sched)
        then show ?thesis
        proof (elim disjE)
          assume "s' = s\<lparr>heap := (heap s)(0 \<mapsto> \<lparr>buf = u # b' @ [x], cap = k, closed = False\<rparr>), pool := [Produce (Some 0) (r),
          Tee_go (Some 0) (Some 1) (Some 2) (Tee_range (Some 3)),
          Consume (Some 1) (outl),
          Consume (Some 2) (outr),
          OrDone_go (Some 0) (Some 3) (OrDone_select)]\<rparr>"
          then show ?thesis
            by (intro low[OF Tee_inv.teeing[where b = "u # b' @ [x]" and pr = "Some (r)" and od = "Some (OrDone_select)"
                  and tpc = "Tee_range (Some 3)" and outl = "outl" and outr = "outr"]])
              (use assms range select i6 in \<open>auto\<close>)
        next
          assume "s' = s\<lparr>heap := (heap s)(0 \<mapsto> \<lparr>buf = b', cap = k, closed = False\<rparr>), pool := [Produce (Some 0) (x # r),
          Tee_go (Some 0) (Some 1) (Some 2) (Tee_range (Some 3)),
          Consume (Some 1) (outl),
          Consume (Some 2) (outr),
          OrDone_go (Some 0) (Some 3) (OrDone_forward u)]\<rparr>"
          then show ?thesis
            by (intro low[OF Tee_inv.teeing[where b = "b'" and pr = "Some (x # r)" and od = "Some (OrDone_forward u)"
                  and tpc = "Tee_range (Some 3)" and outl = "outl" and outr = "outr"]])
              (use assms range select i6 in \<open>auto\<close>)
        qed
      next
        case i7
        have s1: "s' = s\<lparr>heap := (heap s)(0 \<mapsto> \<lparr>buf = b', cap = k, closed = False\<rparr>), pool := [Produce (Some 0) (x # r),
          Tee_go (Some 0) (Some 1) (Some 2) (Tee_range (Some 3)),
          Consume (Some 1) (outl),
          Consume (Some 2) (outr),
          OrDone_go (Some 0) (Some 3) (OrDone_forward u)]\<rparr>"
          using assms range select i7 by (auto simp: sched)
        show ?thesis
          by (intro low[OF Tee_inv.teeing[where b = "b'" and pr = "Some (x # r)" and od = "Some (OrDone_forward u)"
                  and tpc = "Tee_range (Some 3)" and outl = "outl" and outr = "outr"]])
            (use s1 assms range select i7 in \<open>auto\<close>)
      qed
    next
      case forward
      consider (i0) "pr = None" "b = []"
        | (i1) u b' where "pr = None" "b = u # b'"
        | (i2) "pr = Some []" "b = []"
        | (i3) u b' where "pr = Some []" "b = u # b'"
        | (i4) x r where "pr = Some (x # r)" "b = []" "length b < k"
        | (i5) x r where "pr = Some (x # r)" "b = []" "\<not> length b < k"
        | (i6) x r u b' where "pr = Some (x # r)" "b = u # b'" "length b < k"
        | (i7) x r u b' where "pr = Some (x # r)" "b = u # b'" "\<not> length b < k"
        by (cases pr rule: pr_rank.cases; cases b; cases "length b < k") auto
      then show ?thesis
      proof cases
        case i0
        have s1: "s' = s\<lparr>pool := [Tee_go (Some 0) (Some 1) (Some 2) (Tee_select (Some 3) w 0 (Some 1) (Some 2)),
          Consume (Some 1) (outl),
          Consume (Some 2) (outr),
          OrDone_go (Some 0) (Some 3) (OrDone_select)]\<rparr>"
          using assms range forward i0 by (auto simp: sched)
        show ?thesis
          by (intro low[OF Tee_inv.teeing[where b = "[]" and pr = "None" and od = "Some (OrDone_select)"
                  and tpc = "Tee_select (Some 3) w 0 (Some 1) (Some 2)" and outl = "outl" and outr = "outr"]])
            (use s1 assms range forward i0 in \<open>auto\<close>)
      next
        case i1
        have s1: "s' = s\<lparr>pool := [Tee_go (Some 0) (Some 1) (Some 2) (Tee_select (Some 3) w 0 (Some 1) (Some 2)),
          Consume (Some 1) (outl),
          Consume (Some 2) (outr),
          OrDone_go (Some 0) (Some 3) (OrDone_select)]\<rparr>"
          using assms range forward i1 by (auto simp: sched)
        show ?thesis
          by (intro low[OF Tee_inv.teeing[where b = "u # b'" and pr = "None" and od = "Some (OrDone_select)"
                  and tpc = "Tee_select (Some 3) w 0 (Some 1) (Some 2)" and outl = "outl" and outr = "outr"]])
            (use s1 assms range forward i1 in \<open>auto\<close>)
      next
        case i2
        have "s' = s\<lparr>pool := [Produce (Some 0) ([]),
          Tee_go (Some 0) (Some 1) (Some 2) (Tee_select (Some 3) w 0 (Some 1) (Some 2)),
          Consume (Some 1) (outl),
          Consume (Some 2) (outr),
          OrDone_go (Some 0) (Some 3) (OrDone_select)]\<rparr>
          \<or> s' = s\<lparr>heap := (heap s)(0 \<mapsto> \<lparr>buf = [], cap = k, closed = True\<rparr>), pool := [Tee_go (Some 0) (Some 1) (Some 2) (Tee_range (Some 3)),
          Consume (Some 1) (outl),
          Consume (Some 2) (outr),
          OrDone_go (Some 0) (Some 3) (OrDone_forward w)]\<rparr>"
          using assms range forward i2 by (auto simp: sched)
        then show ?thesis
        proof (elim disjE)
          assume "s' = s\<lparr>pool := [Produce (Some 0) ([]),
          Tee_go (Some 0) (Some 1) (Some 2) (Tee_select (Some 3) w 0 (Some 1) (Some 2)),
          Consume (Some 1) (outl),
          Consume (Some 2) (outr),
          OrDone_go (Some 0) (Some 3) (OrDone_select)]\<rparr>"
          then show ?thesis
            by (intro low[OF Tee_inv.teeing[where b = "[]" and pr = "Some ([])" and od = "Some (OrDone_select)"
                  and tpc = "Tee_select (Some 3) w 0 (Some 1) (Some 2)" and outl = "outl" and outr = "outr"]])
              (use assms range forward i2 in \<open>auto\<close>)
        next
          assume "s' = s\<lparr>heap := (heap s)(0 \<mapsto> \<lparr>buf = [], cap = k, closed = True\<rparr>), pool := [Tee_go (Some 0) (Some 1) (Some 2) (Tee_range (Some 3)),
          Consume (Some 1) (outl),
          Consume (Some 2) (outr),
          OrDone_go (Some 0) (Some 3) (OrDone_forward w)]\<rparr>"
          then show ?thesis
            by (intro low[OF Tee_inv.teeing[where b = "[]" and pr = "None" and od = "Some (OrDone_forward w)"
                  and tpc = "Tee_range (Some 3)" and outl = "outl" and outr = "outr"]])
              (use assms range forward i2 in \<open>auto\<close>)
        qed
      next
        case i3
        have "s' = s\<lparr>pool := [Produce (Some 0) ([]),
          Tee_go (Some 0) (Some 1) (Some 2) (Tee_select (Some 3) w 0 (Some 1) (Some 2)),
          Consume (Some 1) (outl),
          Consume (Some 2) (outr),
          OrDone_go (Some 0) (Some 3) (OrDone_select)]\<rparr>
          \<or> s' = s\<lparr>heap := (heap s)(0 \<mapsto> \<lparr>buf = u # b', cap = k, closed = True\<rparr>), pool := [Tee_go (Some 0) (Some 1) (Some 2) (Tee_range (Some 3)),
          Consume (Some 1) (outl),
          Consume (Some 2) (outr),
          OrDone_go (Some 0) (Some 3) (OrDone_forward w)]\<rparr>"
          using assms range forward i3 by (auto simp: sched)
        then show ?thesis
        proof (elim disjE)
          assume "s' = s\<lparr>pool := [Produce (Some 0) ([]),
          Tee_go (Some 0) (Some 1) (Some 2) (Tee_select (Some 3) w 0 (Some 1) (Some 2)),
          Consume (Some 1) (outl),
          Consume (Some 2) (outr),
          OrDone_go (Some 0) (Some 3) (OrDone_select)]\<rparr>"
          then show ?thesis
            by (intro low[OF Tee_inv.teeing[where b = "u # b'" and pr = "Some ([])" and od = "Some (OrDone_select)"
                  and tpc = "Tee_select (Some 3) w 0 (Some 1) (Some 2)" and outl = "outl" and outr = "outr"]])
              (use assms range forward i3 in \<open>auto\<close>)
        next
          assume "s' = s\<lparr>heap := (heap s)(0 \<mapsto> \<lparr>buf = u # b', cap = k, closed = True\<rparr>), pool := [Tee_go (Some 0) (Some 1) (Some 2) (Tee_range (Some 3)),
          Consume (Some 1) (outl),
          Consume (Some 2) (outr),
          OrDone_go (Some 0) (Some 3) (OrDone_forward w)]\<rparr>"
          then show ?thesis
            by (intro low[OF Tee_inv.teeing[where b = "u # b'" and pr = "None" and od = "Some (OrDone_forward w)"
                  and tpc = "Tee_range (Some 3)" and outl = "outl" and outr = "outr"]])
              (use assms range forward i3 in \<open>auto\<close>)
        qed
      next
        case i4
        have "s' = s\<lparr>pool := [Produce (Some 0) (x # r),
          Tee_go (Some 0) (Some 1) (Some 2) (Tee_select (Some 3) w 0 (Some 1) (Some 2)),
          Consume (Some 1) (outl),
          Consume (Some 2) (outr),
          OrDone_go (Some 0) (Some 3) (OrDone_select)]\<rparr>
          \<or> s' = s\<lparr>heap := (heap s)(0 \<mapsto> \<lparr>buf = [x], cap = k, closed = False\<rparr>), pool := [Produce (Some 0) (r),
          Tee_go (Some 0) (Some 1) (Some 2) (Tee_range (Some 3)),
          Consume (Some 1) (outl),
          Consume (Some 2) (outr),
          OrDone_go (Some 0) (Some 3) (OrDone_forward w)]\<rparr>"
          using assms range forward i4 by (auto simp: sched)
        then show ?thesis
        proof (elim disjE)
          assume "s' = s\<lparr>pool := [Produce (Some 0) (x # r),
          Tee_go (Some 0) (Some 1) (Some 2) (Tee_select (Some 3) w 0 (Some 1) (Some 2)),
          Consume (Some 1) (outl),
          Consume (Some 2) (outr),
          OrDone_go (Some 0) (Some 3) (OrDone_select)]\<rparr>"
          then show ?thesis
            by (intro low[OF Tee_inv.teeing[where b = "[]" and pr = "Some (x # r)" and od = "Some (OrDone_select)"
                  and tpc = "Tee_select (Some 3) w 0 (Some 1) (Some 2)" and outl = "outl" and outr = "outr"]])
              (use assms range forward i4 in \<open>auto\<close>)
        next
          assume "s' = s\<lparr>heap := (heap s)(0 \<mapsto> \<lparr>buf = [x], cap = k, closed = False\<rparr>), pool := [Produce (Some 0) (r),
          Tee_go (Some 0) (Some 1) (Some 2) (Tee_range (Some 3)),
          Consume (Some 1) (outl),
          Consume (Some 2) (outr),
          OrDone_go (Some 0) (Some 3) (OrDone_forward w)]\<rparr>"
          then show ?thesis
            by (intro low[OF Tee_inv.teeing[where b = "[x]" and pr = "Some (r)" and od = "Some (OrDone_forward w)"
                  and tpc = "Tee_range (Some 3)" and outl = "outl" and outr = "outr"]])
              (use assms range forward i4 in \<open>auto\<close>)
        qed
      next
        case i5
        have s1: "s' = s\<lparr>pool := [Produce (Some 0) (x # r),
          Tee_go (Some 0) (Some 1) (Some 2) (Tee_select (Some 3) w 0 (Some 1) (Some 2)),
          Consume (Some 1) (outl),
          Consume (Some 2) (outr),
          OrDone_go (Some 0) (Some 3) (OrDone_select)]\<rparr>"
          using assms range forward i5 by (auto simp: sched)
        show ?thesis
          by (intro low[OF Tee_inv.teeing[where b = "[]" and pr = "Some (x # r)" and od = "Some (OrDone_select)"
                  and tpc = "Tee_select (Some 3) w 0 (Some 1) (Some 2)" and outl = "outl" and outr = "outr"]])
            (use s1 assms range forward i5 in \<open>auto\<close>)
      next
        case i6
        have "s' = s\<lparr>pool := [Produce (Some 0) (x # r),
          Tee_go (Some 0) (Some 1) (Some 2) (Tee_select (Some 3) w 0 (Some 1) (Some 2)),
          Consume (Some 1) (outl),
          Consume (Some 2) (outr),
          OrDone_go (Some 0) (Some 3) (OrDone_select)]\<rparr>
          \<or> s' = s\<lparr>heap := (heap s)(0 \<mapsto> \<lparr>buf = u # b' @ [x], cap = k, closed = False\<rparr>), pool := [Produce (Some 0) (r),
          Tee_go (Some 0) (Some 1) (Some 2) (Tee_range (Some 3)),
          Consume (Some 1) (outl),
          Consume (Some 2) (outr),
          OrDone_go (Some 0) (Some 3) (OrDone_forward w)]\<rparr>"
          using assms range forward i6 by (auto simp: sched)
        then show ?thesis
        proof (elim disjE)
          assume "s' = s\<lparr>pool := [Produce (Some 0) (x # r),
          Tee_go (Some 0) (Some 1) (Some 2) (Tee_select (Some 3) w 0 (Some 1) (Some 2)),
          Consume (Some 1) (outl),
          Consume (Some 2) (outr),
          OrDone_go (Some 0) (Some 3) (OrDone_select)]\<rparr>"
          then show ?thesis
            by (intro low[OF Tee_inv.teeing[where b = "u # b'" and pr = "Some (x # r)" and od = "Some (OrDone_select)"
                  and tpc = "Tee_select (Some 3) w 0 (Some 1) (Some 2)" and outl = "outl" and outr = "outr"]])
              (use assms range forward i6 in \<open>auto\<close>)
        next
          assume "s' = s\<lparr>heap := (heap s)(0 \<mapsto> \<lparr>buf = u # b' @ [x], cap = k, closed = False\<rparr>), pool := [Produce (Some 0) (r),
          Tee_go (Some 0) (Some 1) (Some 2) (Tee_range (Some 3)),
          Consume (Some 1) (outl),
          Consume (Some 2) (outr),
          OrDone_go (Some 0) (Some 3) (OrDone_forward w)]\<rparr>"
          then show ?thesis
            by (intro low[OF Tee_inv.teeing[where b = "u # b' @ [x]" and pr = "Some (r)" and od = "Some (OrDone_forward w)"
                  and tpc = "Tee_range (Some 3)" and outl = "outl" and outr = "outr"]])
              (use assms range forward i6 in \<open>auto\<close>)
        qed
      next
        case i7
        have s1: "s' = s\<lparr>pool := [Produce (Some 0) (x # r),
          Tee_go (Some 0) (Some 1) (Some 2) (Tee_select (Some 3) w 0 (Some 1) (Some 2)),
          Consume (Some 1) (outl),
          Consume (Some 2) (outr),
          OrDone_go (Some 0) (Some 3) (OrDone_select)]\<rparr>"
          using assms range forward i7 by (auto simp: sched)
        show ?thesis
          by (intro low[OF Tee_inv.teeing[where b = "u # b'" and pr = "Some (x # r)" and od = "Some (OrDone_select)"
                  and tpc = "Tee_select (Some 3) w 0 (Some 1) (Some 2)" and outl = "outl" and outr = "outr"]])
            (use s1 assms range forward i7 in \<open>auto\<close>)
      qed
    next
      case return
      consider (ia) "pr = None" "b = []"
        using assms(7,8) return by auto
      then show ?thesis
      proof cases
        case ia
        have s1: "s' = s\<lparr>heap := (heap s)(3 \<mapsto> \<lparr>buf = [], cap = 0, closed = True\<rparr>), pool := [Tee_go (Some 0) (Some 1) (Some 2) (Tee_range (Some 3)),
          Consume (Some 1) (outl),
          Consume (Some 2) (outr)]\<rparr>"
          using assms range return ia by (auto simp: sched)
        show ?thesis
          by (intro low[OF Tee_inv.teeing[where b = "[]" and pr = "None" and od = "None"
                  and tpc = "Tee_range (Some 3)" and outl = "outl" and outr = "outr"]])
            (use s1 assms range return ia in \<open>auto\<close>)
      qed
    qed
  next
    case both
    consider (gone) "od = None" | (select) "od = Some OrDone_select"
      | (forward) w where "od = Some (OrDone_forward w)" | (return) "od = Some OrDone_return"
      by (cases od rule: od_rank.cases) auto
    then show ?thesis
    proof cases
      case gone
      consider (ia) "pr = None" "b = []"
        using assms(7,8) gone by auto
      then show ?thesis
      proof cases
        case ia
        have "s' = s\<lparr>pool := [Tee_go (Some 0) (Some 1) (Some 2) (Tee_select (Some 3) v 1 None (Some 2)),
          Consume (Some 1) (outl @ [v]),
          Consume (Some 2) (outr)]\<rparr>
          \<or> s' = s\<lparr>pool := [Tee_go (Some 0) (Some 1) (Some 2) (Tee_select (Some 3) v 1 (Some 1) None),
          Consume (Some 1) (outl),
          Consume (Some 2) (outr @ [v])]\<rparr>"
          using assms both gone ia by (auto simp: sched)
        then show ?thesis
        proof (elim disjE)
          assume "s' = s\<lparr>pool := [Tee_go (Some 0) (Some 1) (Some 2) (Tee_select (Some 3) v 1 None (Some 2)),
          Consume (Some 1) (outl @ [v]),
          Consume (Some 2) (outr)]\<rparr>"
          then show ?thesis
            by (intro low[OF Tee_inv.teeing[where b = "[]" and pr = "None" and od = "None"
                  and tpc = "Tee_select (Some 3) v 1 None (Some 2)" and outl = "outl @ [v]" and outr = "outr"]])
              (use assms both gone ia in \<open>auto\<close>)
        next
          assume "s' = s\<lparr>pool := [Tee_go (Some 0) (Some 1) (Some 2) (Tee_select (Some 3) v 1 (Some 1) None),
          Consume (Some 1) (outl),
          Consume (Some 2) (outr @ [v])]\<rparr>"
          then show ?thesis
            by (intro low[OF Tee_inv.teeing[where b = "[]" and pr = "None" and od = "None"
                  and tpc = "Tee_select (Some 3) v 1 (Some 1) None" and outl = "outl" and outr = "outr @ [v]"]])
              (use assms both gone ia in \<open>auto\<close>)
        qed
      qed
    next
      case select
      consider (i0) "pr = None" "b = []"
        | (i1) u b' where "pr = None" "b = u # b'"
        | (i2) "pr = Some []" "b = []"
        | (i3) u b' where "pr = Some []" "b = u # b'"
        | (i4) x r where "pr = Some (x # r)" "b = []" "length b < k"
        | (i5) x r where "pr = Some (x # r)" "b = []" "\<not> length b < k"
        | (i6) x r u b' where "pr = Some (x # r)" "b = u # b'" "length b < k"
        | (i7) x r u b' where "pr = Some (x # r)" "b = u # b'" "\<not> length b < k"
        by (cases pr rule: pr_rank.cases; cases b; cases "length b < k") auto
      then show ?thesis
      proof cases
        case i0
        have "s' = s\<lparr>pool := [Tee_go (Some 0) (Some 1) (Some 2) (Tee_select (Some 3) v 1 None (Some 2)),
          Consume (Some 1) (outl @ [v]),
          Consume (Some 2) (outr),
          OrDone_go (Some 0) (Some 3) (OrDone_select)]\<rparr>
          \<or> s' = s\<lparr>pool := [Tee_go (Some 0) (Some 1) (Some 2) (Tee_select (Some 3) v 1 (Some 1) None),
          Consume (Some 1) (outl),
          Consume (Some 2) (outr @ [v]),
          OrDone_go (Some 0) (Some 3) (OrDone_select)]\<rparr>
          \<or> s' = s\<lparr>pool := [Tee_go (Some 0) (Some 1) (Some 2) (Tee_select (Some 3) v 0 (Some 1) (Some 2)),
          Consume (Some 1) (outl),
          Consume (Some 2) (outr),
          OrDone_go (Some 0) (Some 3) (OrDone_return)]\<rparr>"
          using assms both select i0 by (auto simp: sched)
        then show ?thesis
        proof (elim disjE)
          assume "s' = s\<lparr>pool := [Tee_go (Some 0) (Some 1) (Some 2) (Tee_select (Some 3) v 1 None (Some 2)),
          Consume (Some 1) (outl @ [v]),
          Consume (Some 2) (outr),
          OrDone_go (Some 0) (Some 3) (OrDone_select)]\<rparr>"
          then show ?thesis
            by (intro low[OF Tee_inv.teeing[where b = "[]" and pr = "None" and od = "Some (OrDone_select)"
                  and tpc = "Tee_select (Some 3) v 1 None (Some 2)" and outl = "outl @ [v]" and outr = "outr"]])
              (use assms both select i0 in \<open>auto\<close>)
        next
          assume "s' = s\<lparr>pool := [Tee_go (Some 0) (Some 1) (Some 2) (Tee_select (Some 3) v 1 (Some 1) None),
          Consume (Some 1) (outl),
          Consume (Some 2) (outr @ [v]),
          OrDone_go (Some 0) (Some 3) (OrDone_select)]\<rparr>"
          then show ?thesis
            by (intro low[OF Tee_inv.teeing[where b = "[]" and pr = "None" and od = "Some (OrDone_select)"
                  and tpc = "Tee_select (Some 3) v 1 (Some 1) None" and outl = "outl" and outr = "outr @ [v]"]])
              (use assms both select i0 in \<open>auto\<close>)
        next
          assume "s' = s\<lparr>pool := [Tee_go (Some 0) (Some 1) (Some 2) (Tee_select (Some 3) v 0 (Some 1) (Some 2)),
          Consume (Some 1) (outl),
          Consume (Some 2) (outr),
          OrDone_go (Some 0) (Some 3) (OrDone_return)]\<rparr>"
          then show ?thesis
            by (intro low[OF Tee_inv.teeing[where b = "[]" and pr = "None" and od = "Some (OrDone_return)"
                  and tpc = "Tee_select (Some 3) v 0 (Some 1) (Some 2)" and outl = "outl" and outr = "outr"]])
              (use assms both select i0 in \<open>auto\<close>)
        qed
      next
        case i1
        have "s' = s\<lparr>pool := [Tee_go (Some 0) (Some 1) (Some 2) (Tee_select (Some 3) v 1 None (Some 2)),
          Consume (Some 1) (outl @ [v]),
          Consume (Some 2) (outr),
          OrDone_go (Some 0) (Some 3) (OrDone_select)]\<rparr>
          \<or> s' = s\<lparr>pool := [Tee_go (Some 0) (Some 1) (Some 2) (Tee_select (Some 3) v 1 (Some 1) None),
          Consume (Some 1) (outl),
          Consume (Some 2) (outr @ [v]),
          OrDone_go (Some 0) (Some 3) (OrDone_select)]\<rparr>
          \<or> s' = s\<lparr>heap := (heap s)(0 \<mapsto> \<lparr>buf = b', cap = k, closed = True\<rparr>), pool := [Tee_go (Some 0) (Some 1) (Some 2) (Tee_select (Some 3) v 0 (Some 1) (Some 2)),
          Consume (Some 1) (outl),
          Consume (Some 2) (outr),
          OrDone_go (Some 0) (Some 3) (OrDone_forward u)]\<rparr>"
          using assms both select i1 by (auto simp: sched)
        then show ?thesis
        proof (elim disjE)
          assume "s' = s\<lparr>pool := [Tee_go (Some 0) (Some 1) (Some 2) (Tee_select (Some 3) v 1 None (Some 2)),
          Consume (Some 1) (outl @ [v]),
          Consume (Some 2) (outr),
          OrDone_go (Some 0) (Some 3) (OrDone_select)]\<rparr>"
          then show ?thesis
            by (intro low[OF Tee_inv.teeing[where b = "u # b'" and pr = "None" and od = "Some (OrDone_select)"
                  and tpc = "Tee_select (Some 3) v 1 None (Some 2)" and outl = "outl @ [v]" and outr = "outr"]])
              (use assms both select i1 in \<open>auto\<close>)
        next
          assume "s' = s\<lparr>pool := [Tee_go (Some 0) (Some 1) (Some 2) (Tee_select (Some 3) v 1 (Some 1) None),
          Consume (Some 1) (outl),
          Consume (Some 2) (outr @ [v]),
          OrDone_go (Some 0) (Some 3) (OrDone_select)]\<rparr>"
          then show ?thesis
            by (intro low[OF Tee_inv.teeing[where b = "u # b'" and pr = "None" and od = "Some (OrDone_select)"
                  and tpc = "Tee_select (Some 3) v 1 (Some 1) None" and outl = "outl" and outr = "outr @ [v]"]])
              (use assms both select i1 in \<open>auto\<close>)
        next
          assume "s' = s\<lparr>heap := (heap s)(0 \<mapsto> \<lparr>buf = b', cap = k, closed = True\<rparr>), pool := [Tee_go (Some 0) (Some 1) (Some 2) (Tee_select (Some 3) v 0 (Some 1) (Some 2)),
          Consume (Some 1) (outl),
          Consume (Some 2) (outr),
          OrDone_go (Some 0) (Some 3) (OrDone_forward u)]\<rparr>"
          then show ?thesis
            by (intro low[OF Tee_inv.teeing[where b = "b'" and pr = "None" and od = "Some (OrDone_forward u)"
                  and tpc = "Tee_select (Some 3) v 0 (Some 1) (Some 2)" and outl = "outl" and outr = "outr"]])
              (use assms both select i1 in \<open>auto\<close>)
        qed
      next
        case i2
        have "s' = s\<lparr>pool := [Produce (Some 0) ([]),
          Tee_go (Some 0) (Some 1) (Some 2) (Tee_select (Some 3) v 1 None (Some 2)),
          Consume (Some 1) (outl @ [v]),
          Consume (Some 2) (outr),
          OrDone_go (Some 0) (Some 3) (OrDone_select)]\<rparr>
          \<or> s' = s\<lparr>pool := [Produce (Some 0) ([]),
          Tee_go (Some 0) (Some 1) (Some 2) (Tee_select (Some 3) v 1 (Some 1) None),
          Consume (Some 1) (outl),
          Consume (Some 2) (outr @ [v]),
          OrDone_go (Some 0) (Some 3) (OrDone_select)]\<rparr>
          \<or> s' = s\<lparr>heap := (heap s)(0 \<mapsto> \<lparr>buf = [], cap = k, closed = True\<rparr>), pool := [Tee_go (Some 0) (Some 1) (Some 2) (Tee_select (Some 3) v 0 (Some 1) (Some 2)),
          Consume (Some 1) (outl),
          Consume (Some 2) (outr),
          OrDone_go (Some 0) (Some 3) (OrDone_select)]\<rparr>"
          using assms both select i2 by (auto simp: sched)
        then show ?thesis
        proof (elim disjE)
          assume "s' = s\<lparr>pool := [Produce (Some 0) ([]),
          Tee_go (Some 0) (Some 1) (Some 2) (Tee_select (Some 3) v 1 None (Some 2)),
          Consume (Some 1) (outl @ [v]),
          Consume (Some 2) (outr),
          OrDone_go (Some 0) (Some 3) (OrDone_select)]\<rparr>"
          then show ?thesis
            by (intro low[OF Tee_inv.teeing[where b = "[]" and pr = "Some ([])" and od = "Some (OrDone_select)"
                  and tpc = "Tee_select (Some 3) v 1 None (Some 2)" and outl = "outl @ [v]" and outr = "outr"]])
              (use assms both select i2 in \<open>auto\<close>)
        next
          assume "s' = s\<lparr>pool := [Produce (Some 0) ([]),
          Tee_go (Some 0) (Some 1) (Some 2) (Tee_select (Some 3) v 1 (Some 1) None),
          Consume (Some 1) (outl),
          Consume (Some 2) (outr @ [v]),
          OrDone_go (Some 0) (Some 3) (OrDone_select)]\<rparr>"
          then show ?thesis
            by (intro low[OF Tee_inv.teeing[where b = "[]" and pr = "Some ([])" and od = "Some (OrDone_select)"
                  and tpc = "Tee_select (Some 3) v 1 (Some 1) None" and outl = "outl" and outr = "outr @ [v]"]])
              (use assms both select i2 in \<open>auto\<close>)
        next
          assume "s' = s\<lparr>heap := (heap s)(0 \<mapsto> \<lparr>buf = [], cap = k, closed = True\<rparr>), pool := [Tee_go (Some 0) (Some 1) (Some 2) (Tee_select (Some 3) v 0 (Some 1) (Some 2)),
          Consume (Some 1) (outl),
          Consume (Some 2) (outr),
          OrDone_go (Some 0) (Some 3) (OrDone_select)]\<rparr>"
          then show ?thesis
            by (intro low[OF Tee_inv.teeing[where b = "[]" and pr = "None" and od = "Some (OrDone_select)"
                  and tpc = "Tee_select (Some 3) v 0 (Some 1) (Some 2)" and outl = "outl" and outr = "outr"]])
              (use assms both select i2 in \<open>auto\<close>)
        qed
      next
        case i3
        have "s' = s\<lparr>pool := [Produce (Some 0) ([]),
          Tee_go (Some 0) (Some 1) (Some 2) (Tee_select (Some 3) v 1 None (Some 2)),
          Consume (Some 1) (outl @ [v]),
          Consume (Some 2) (outr),
          OrDone_go (Some 0) (Some 3) (OrDone_select)]\<rparr>
          \<or> s' = s\<lparr>pool := [Produce (Some 0) ([]),
          Tee_go (Some 0) (Some 1) (Some 2) (Tee_select (Some 3) v 1 (Some 1) None),
          Consume (Some 1) (outl),
          Consume (Some 2) (outr @ [v]),
          OrDone_go (Some 0) (Some 3) (OrDone_select)]\<rparr>
          \<or> s' = s\<lparr>heap := (heap s)(0 \<mapsto> \<lparr>buf = u # b', cap = k, closed = True\<rparr>), pool := [Tee_go (Some 0) (Some 1) (Some 2) (Tee_select (Some 3) v 0 (Some 1) (Some 2)),
          Consume (Some 1) (outl),
          Consume (Some 2) (outr),
          OrDone_go (Some 0) (Some 3) (OrDone_select)]\<rparr>
          \<or> s' = s\<lparr>heap := (heap s)(0 \<mapsto> \<lparr>buf = b', cap = k, closed = False\<rparr>), pool := [Produce (Some 0) ([]),
          Tee_go (Some 0) (Some 1) (Some 2) (Tee_select (Some 3) v 0 (Some 1) (Some 2)),
          Consume (Some 1) (outl),
          Consume (Some 2) (outr),
          OrDone_go (Some 0) (Some 3) (OrDone_forward u)]\<rparr>"
          using assms both select i3 by (auto simp: sched)
        then show ?thesis
        proof (elim disjE)
          assume "s' = s\<lparr>pool := [Produce (Some 0) ([]),
          Tee_go (Some 0) (Some 1) (Some 2) (Tee_select (Some 3) v 1 None (Some 2)),
          Consume (Some 1) (outl @ [v]),
          Consume (Some 2) (outr),
          OrDone_go (Some 0) (Some 3) (OrDone_select)]\<rparr>"
          then show ?thesis
            by (intro low[OF Tee_inv.teeing[where b = "u # b'" and pr = "Some ([])" and od = "Some (OrDone_select)"
                  and tpc = "Tee_select (Some 3) v 1 None (Some 2)" and outl = "outl @ [v]" and outr = "outr"]])
              (use assms both select i3 in \<open>auto\<close>)
        next
          assume "s' = s\<lparr>pool := [Produce (Some 0) ([]),
          Tee_go (Some 0) (Some 1) (Some 2) (Tee_select (Some 3) v 1 (Some 1) None),
          Consume (Some 1) (outl),
          Consume (Some 2) (outr @ [v]),
          OrDone_go (Some 0) (Some 3) (OrDone_select)]\<rparr>"
          then show ?thesis
            by (intro low[OF Tee_inv.teeing[where b = "u # b'" and pr = "Some ([])" and od = "Some (OrDone_select)"
                  and tpc = "Tee_select (Some 3) v 1 (Some 1) None" and outl = "outl" and outr = "outr @ [v]"]])
              (use assms both select i3 in \<open>auto\<close>)
        next
          assume "s' = s\<lparr>heap := (heap s)(0 \<mapsto> \<lparr>buf = u # b', cap = k, closed = True\<rparr>), pool := [Tee_go (Some 0) (Some 1) (Some 2) (Tee_select (Some 3) v 0 (Some 1) (Some 2)),
          Consume (Some 1) (outl),
          Consume (Some 2) (outr),
          OrDone_go (Some 0) (Some 3) (OrDone_select)]\<rparr>"
          then show ?thesis
            by (intro low[OF Tee_inv.teeing[where b = "u # b'" and pr = "None" and od = "Some (OrDone_select)"
                  and tpc = "Tee_select (Some 3) v 0 (Some 1) (Some 2)" and outl = "outl" and outr = "outr"]])
              (use assms both select i3 in \<open>auto\<close>)
        next
          assume "s' = s\<lparr>heap := (heap s)(0 \<mapsto> \<lparr>buf = b', cap = k, closed = False\<rparr>), pool := [Produce (Some 0) ([]),
          Tee_go (Some 0) (Some 1) (Some 2) (Tee_select (Some 3) v 0 (Some 1) (Some 2)),
          Consume (Some 1) (outl),
          Consume (Some 2) (outr),
          OrDone_go (Some 0) (Some 3) (OrDone_forward u)]\<rparr>"
          then show ?thesis
            by (intro low[OF Tee_inv.teeing[where b = "b'" and pr = "Some ([])" and od = "Some (OrDone_forward u)"
                  and tpc = "Tee_select (Some 3) v 0 (Some 1) (Some 2)" and outl = "outl" and outr = "outr"]])
              (use assms both select i3 in \<open>auto\<close>)
        qed
      next
        case i4
        have "s' = s\<lparr>pool := [Produce (Some 0) (x # r),
          Tee_go (Some 0) (Some 1) (Some 2) (Tee_select (Some 3) v 1 None (Some 2)),
          Consume (Some 1) (outl @ [v]),
          Consume (Some 2) (outr),
          OrDone_go (Some 0) (Some 3) (OrDone_select)]\<rparr>
          \<or> s' = s\<lparr>pool := [Produce (Some 0) (x # r),
          Tee_go (Some 0) (Some 1) (Some 2) (Tee_select (Some 3) v 1 (Some 1) None),
          Consume (Some 1) (outl),
          Consume (Some 2) (outr @ [v]),
          OrDone_go (Some 0) (Some 3) (OrDone_select)]\<rparr>
          \<or> s' = s\<lparr>heap := (heap s)(0 \<mapsto> \<lparr>buf = [x], cap = k, closed = False\<rparr>), pool := [Produce (Some 0) (r),
          Tee_go (Some 0) (Some 1) (Some 2) (Tee_select (Some 3) v 0 (Some 1) (Some 2)),
          Consume (Some 1) (outl),
          Consume (Some 2) (outr),
          OrDone_go (Some 0) (Some 3) (OrDone_select)]\<rparr>
          \<or> s' = s\<lparr>pool := [Produce (Some 0) (r),
          Tee_go (Some 0) (Some 1) (Some 2) (Tee_select (Some 3) v 0 (Some 1) (Some 2)),
          Consume (Some 1) (outl),
          Consume (Some 2) (outr),
          OrDone_go (Some 0) (Some 3) (OrDone_forward x)]\<rparr>"
          using assms both select i4 by (auto simp: sched)
        then show ?thesis
        proof (elim disjE)
          assume "s' = s\<lparr>pool := [Produce (Some 0) (x # r),
          Tee_go (Some 0) (Some 1) (Some 2) (Tee_select (Some 3) v 1 None (Some 2)),
          Consume (Some 1) (outl @ [v]),
          Consume (Some 2) (outr),
          OrDone_go (Some 0) (Some 3) (OrDone_select)]\<rparr>"
          then show ?thesis
            by (intro low[OF Tee_inv.teeing[where b = "[]" and pr = "Some (x # r)" and od = "Some (OrDone_select)"
                  and tpc = "Tee_select (Some 3) v 1 None (Some 2)" and outl = "outl @ [v]" and outr = "outr"]])
              (use assms both select i4 in \<open>auto\<close>)
        next
          assume "s' = s\<lparr>pool := [Produce (Some 0) (x # r),
          Tee_go (Some 0) (Some 1) (Some 2) (Tee_select (Some 3) v 1 (Some 1) None),
          Consume (Some 1) (outl),
          Consume (Some 2) (outr @ [v]),
          OrDone_go (Some 0) (Some 3) (OrDone_select)]\<rparr>"
          then show ?thesis
            by (intro low[OF Tee_inv.teeing[where b = "[]" and pr = "Some (x # r)" and od = "Some (OrDone_select)"
                  and tpc = "Tee_select (Some 3) v 1 (Some 1) None" and outl = "outl" and outr = "outr @ [v]"]])
              (use assms both select i4 in \<open>auto\<close>)
        next
          assume "s' = s\<lparr>heap := (heap s)(0 \<mapsto> \<lparr>buf = [x], cap = k, closed = False\<rparr>), pool := [Produce (Some 0) (r),
          Tee_go (Some 0) (Some 1) (Some 2) (Tee_select (Some 3) v 0 (Some 1) (Some 2)),
          Consume (Some 1) (outl),
          Consume (Some 2) (outr),
          OrDone_go (Some 0) (Some 3) (OrDone_select)]\<rparr>"
          then show ?thesis
            by (intro low[OF Tee_inv.teeing[where b = "[x]" and pr = "Some (r)" and od = "Some (OrDone_select)"
                  and tpc = "Tee_select (Some 3) v 0 (Some 1) (Some 2)" and outl = "outl" and outr = "outr"]])
              (use assms both select i4 in \<open>auto\<close>)
        next
          assume "s' = s\<lparr>pool := [Produce (Some 0) (r),
          Tee_go (Some 0) (Some 1) (Some 2) (Tee_select (Some 3) v 0 (Some 1) (Some 2)),
          Consume (Some 1) (outl),
          Consume (Some 2) (outr),
          OrDone_go (Some 0) (Some 3) (OrDone_forward x)]\<rparr>"
          then show ?thesis
            by (intro low[OF Tee_inv.teeing[where b = "[]" and pr = "Some (r)" and od = "Some (OrDone_forward x)"
                  and tpc = "Tee_select (Some 3) v 0 (Some 1) (Some 2)" and outl = "outl" and outr = "outr"]])
              (use assms both select i4 in \<open>auto\<close>)
        qed
      next
        case i5
        have "s' = s\<lparr>pool := [Produce (Some 0) (x # r),
          Tee_go (Some 0) (Some 1) (Some 2) (Tee_select (Some 3) v 1 None (Some 2)),
          Consume (Some 1) (outl @ [v]),
          Consume (Some 2) (outr),
          OrDone_go (Some 0) (Some 3) (OrDone_select)]\<rparr>
          \<or> s' = s\<lparr>pool := [Produce (Some 0) (x # r),
          Tee_go (Some 0) (Some 1) (Some 2) (Tee_select (Some 3) v 1 (Some 1) None),
          Consume (Some 1) (outl),
          Consume (Some 2) (outr @ [v]),
          OrDone_go (Some 0) (Some 3) (OrDone_select)]\<rparr>
          \<or> s' = s\<lparr>pool := [Produce (Some 0) (r),
          Tee_go (Some 0) (Some 1) (Some 2) (Tee_select (Some 3) v 0 (Some 1) (Some 2)),
          Consume (Some 1) (outl),
          Consume (Some 2) (outr),
          OrDone_go (Some 0) (Some 3) (OrDone_forward x)]\<rparr>"
          using assms both select i5 by (auto simp: sched)
        then show ?thesis
        proof (elim disjE)
          assume "s' = s\<lparr>pool := [Produce (Some 0) (x # r),
          Tee_go (Some 0) (Some 1) (Some 2) (Tee_select (Some 3) v 1 None (Some 2)),
          Consume (Some 1) (outl @ [v]),
          Consume (Some 2) (outr),
          OrDone_go (Some 0) (Some 3) (OrDone_select)]\<rparr>"
          then show ?thesis
            by (intro low[OF Tee_inv.teeing[where b = "[]" and pr = "Some (x # r)" and od = "Some (OrDone_select)"
                  and tpc = "Tee_select (Some 3) v 1 None (Some 2)" and outl = "outl @ [v]" and outr = "outr"]])
              (use assms both select i5 in \<open>auto\<close>)
        next
          assume "s' = s\<lparr>pool := [Produce (Some 0) (x # r),
          Tee_go (Some 0) (Some 1) (Some 2) (Tee_select (Some 3) v 1 (Some 1) None),
          Consume (Some 1) (outl),
          Consume (Some 2) (outr @ [v]),
          OrDone_go (Some 0) (Some 3) (OrDone_select)]\<rparr>"
          then show ?thesis
            by (intro low[OF Tee_inv.teeing[where b = "[]" and pr = "Some (x # r)" and od = "Some (OrDone_select)"
                  and tpc = "Tee_select (Some 3) v 1 (Some 1) None" and outl = "outl" and outr = "outr @ [v]"]])
              (use assms both select i5 in \<open>auto\<close>)
        next
          assume "s' = s\<lparr>pool := [Produce (Some 0) (r),
          Tee_go (Some 0) (Some 1) (Some 2) (Tee_select (Some 3) v 0 (Some 1) (Some 2)),
          Consume (Some 1) (outl),
          Consume (Some 2) (outr),
          OrDone_go (Some 0) (Some 3) (OrDone_forward x)]\<rparr>"
          then show ?thesis
            by (intro low[OF Tee_inv.teeing[where b = "[]" and pr = "Some (r)" and od = "Some (OrDone_forward x)"
                  and tpc = "Tee_select (Some 3) v 0 (Some 1) (Some 2)" and outl = "outl" and outr = "outr"]])
              (use assms both select i5 in \<open>auto\<close>)
        qed
      next
        case i6
        have "s' = s\<lparr>pool := [Produce (Some 0) (x # r),
          Tee_go (Some 0) (Some 1) (Some 2) (Tee_select (Some 3) v 1 None (Some 2)),
          Consume (Some 1) (outl @ [v]),
          Consume (Some 2) (outr),
          OrDone_go (Some 0) (Some 3) (OrDone_select)]\<rparr>
          \<or> s' = s\<lparr>pool := [Produce (Some 0) (x # r),
          Tee_go (Some 0) (Some 1) (Some 2) (Tee_select (Some 3) v 1 (Some 1) None),
          Consume (Some 1) (outl),
          Consume (Some 2) (outr @ [v]),
          OrDone_go (Some 0) (Some 3) (OrDone_select)]\<rparr>
          \<or> s' = s\<lparr>heap := (heap s)(0 \<mapsto> \<lparr>buf = u # b' @ [x], cap = k, closed = False\<rparr>), pool := [Produce (Some 0) (r),
          Tee_go (Some 0) (Some 1) (Some 2) (Tee_select (Some 3) v 0 (Some 1) (Some 2)),
          Consume (Some 1) (outl),
          Consume (Some 2) (outr),
          OrDone_go (Some 0) (Some 3) (OrDone_select)]\<rparr>
          \<or> s' = s\<lparr>heap := (heap s)(0 \<mapsto> \<lparr>buf = b', cap = k, closed = False\<rparr>), pool := [Produce (Some 0) (x # r),
          Tee_go (Some 0) (Some 1) (Some 2) (Tee_select (Some 3) v 0 (Some 1) (Some 2)),
          Consume (Some 1) (outl),
          Consume (Some 2) (outr),
          OrDone_go (Some 0) (Some 3) (OrDone_forward u)]\<rparr>"
          using assms both select i6 by (auto simp: sched)
        then show ?thesis
        proof (elim disjE)
          assume "s' = s\<lparr>pool := [Produce (Some 0) (x # r),
          Tee_go (Some 0) (Some 1) (Some 2) (Tee_select (Some 3) v 1 None (Some 2)),
          Consume (Some 1) (outl @ [v]),
          Consume (Some 2) (outr),
          OrDone_go (Some 0) (Some 3) (OrDone_select)]\<rparr>"
          then show ?thesis
            by (intro low[OF Tee_inv.teeing[where b = "u # b'" and pr = "Some (x # r)" and od = "Some (OrDone_select)"
                  and tpc = "Tee_select (Some 3) v 1 None (Some 2)" and outl = "outl @ [v]" and outr = "outr"]])
              (use assms both select i6 in \<open>auto\<close>)
        next
          assume "s' = s\<lparr>pool := [Produce (Some 0) (x # r),
          Tee_go (Some 0) (Some 1) (Some 2) (Tee_select (Some 3) v 1 (Some 1) None),
          Consume (Some 1) (outl),
          Consume (Some 2) (outr @ [v]),
          OrDone_go (Some 0) (Some 3) (OrDone_select)]\<rparr>"
          then show ?thesis
            by (intro low[OF Tee_inv.teeing[where b = "u # b'" and pr = "Some (x # r)" and od = "Some (OrDone_select)"
                  and tpc = "Tee_select (Some 3) v 1 (Some 1) None" and outl = "outl" and outr = "outr @ [v]"]])
              (use assms both select i6 in \<open>auto\<close>)
        next
          assume "s' = s\<lparr>heap := (heap s)(0 \<mapsto> \<lparr>buf = u # b' @ [x], cap = k, closed = False\<rparr>), pool := [Produce (Some 0) (r),
          Tee_go (Some 0) (Some 1) (Some 2) (Tee_select (Some 3) v 0 (Some 1) (Some 2)),
          Consume (Some 1) (outl),
          Consume (Some 2) (outr),
          OrDone_go (Some 0) (Some 3) (OrDone_select)]\<rparr>"
          then show ?thesis
            by (intro low[OF Tee_inv.teeing[where b = "u # b' @ [x]" and pr = "Some (r)" and od = "Some (OrDone_select)"
                  and tpc = "Tee_select (Some 3) v 0 (Some 1) (Some 2)" and outl = "outl" and outr = "outr"]])
              (use assms both select i6 in \<open>auto\<close>)
        next
          assume "s' = s\<lparr>heap := (heap s)(0 \<mapsto> \<lparr>buf = b', cap = k, closed = False\<rparr>), pool := [Produce (Some 0) (x # r),
          Tee_go (Some 0) (Some 1) (Some 2) (Tee_select (Some 3) v 0 (Some 1) (Some 2)),
          Consume (Some 1) (outl),
          Consume (Some 2) (outr),
          OrDone_go (Some 0) (Some 3) (OrDone_forward u)]\<rparr>"
          then show ?thesis
            by (intro low[OF Tee_inv.teeing[where b = "b'" and pr = "Some (x # r)" and od = "Some (OrDone_forward u)"
                  and tpc = "Tee_select (Some 3) v 0 (Some 1) (Some 2)" and outl = "outl" and outr = "outr"]])
              (use assms both select i6 in \<open>auto\<close>)
        qed
      next
        case i7
        have "s' = s\<lparr>pool := [Produce (Some 0) (x # r),
          Tee_go (Some 0) (Some 1) (Some 2) (Tee_select (Some 3) v 1 None (Some 2)),
          Consume (Some 1) (outl @ [v]),
          Consume (Some 2) (outr),
          OrDone_go (Some 0) (Some 3) (OrDone_select)]\<rparr>
          \<or> s' = s\<lparr>pool := [Produce (Some 0) (x # r),
          Tee_go (Some 0) (Some 1) (Some 2) (Tee_select (Some 3) v 1 (Some 1) None),
          Consume (Some 1) (outl),
          Consume (Some 2) (outr @ [v]),
          OrDone_go (Some 0) (Some 3) (OrDone_select)]\<rparr>
          \<or> s' = s\<lparr>heap := (heap s)(0 \<mapsto> \<lparr>buf = b', cap = k, closed = False\<rparr>), pool := [Produce (Some 0) (x # r),
          Tee_go (Some 0) (Some 1) (Some 2) (Tee_select (Some 3) v 0 (Some 1) (Some 2)),
          Consume (Some 1) (outl),
          Consume (Some 2) (outr),
          OrDone_go (Some 0) (Some 3) (OrDone_forward u)]\<rparr>"
          using assms both select i7 by (auto simp: sched)
        then show ?thesis
        proof (elim disjE)
          assume "s' = s\<lparr>pool := [Produce (Some 0) (x # r),
          Tee_go (Some 0) (Some 1) (Some 2) (Tee_select (Some 3) v 1 None (Some 2)),
          Consume (Some 1) (outl @ [v]),
          Consume (Some 2) (outr),
          OrDone_go (Some 0) (Some 3) (OrDone_select)]\<rparr>"
          then show ?thesis
            by (intro low[OF Tee_inv.teeing[where b = "u # b'" and pr = "Some (x # r)" and od = "Some (OrDone_select)"
                  and tpc = "Tee_select (Some 3) v 1 None (Some 2)" and outl = "outl @ [v]" and outr = "outr"]])
              (use assms both select i7 in \<open>auto\<close>)
        next
          assume "s' = s\<lparr>pool := [Produce (Some 0) (x # r),
          Tee_go (Some 0) (Some 1) (Some 2) (Tee_select (Some 3) v 1 (Some 1) None),
          Consume (Some 1) (outl),
          Consume (Some 2) (outr @ [v]),
          OrDone_go (Some 0) (Some 3) (OrDone_select)]\<rparr>"
          then show ?thesis
            by (intro low[OF Tee_inv.teeing[where b = "u # b'" and pr = "Some (x # r)" and od = "Some (OrDone_select)"
                  and tpc = "Tee_select (Some 3) v 1 (Some 1) None" and outl = "outl" and outr = "outr @ [v]"]])
              (use assms both select i7 in \<open>auto\<close>)
        next
          assume "s' = s\<lparr>heap := (heap s)(0 \<mapsto> \<lparr>buf = b', cap = k, closed = False\<rparr>), pool := [Produce (Some 0) (x # r),
          Tee_go (Some 0) (Some 1) (Some 2) (Tee_select (Some 3) v 0 (Some 1) (Some 2)),
          Consume (Some 1) (outl),
          Consume (Some 2) (outr),
          OrDone_go (Some 0) (Some 3) (OrDone_forward u)]\<rparr>"
          then show ?thesis
            by (intro low[OF Tee_inv.teeing[where b = "b'" and pr = "Some (x # r)" and od = "Some (OrDone_forward u)"
                  and tpc = "Tee_select (Some 3) v 0 (Some 1) (Some 2)" and outl = "outl" and outr = "outr"]])
              (use assms both select i7 in \<open>auto\<close>)
        qed
      qed
    next
      case forward
      consider (i0) "pr = None" "b = []"
        | (i1) u b' where "pr = None" "b = u # b'"
        | (i2) "pr = Some []" "b = []"
        | (i3) u b' where "pr = Some []" "b = u # b'"
        | (i4) x r where "pr = Some (x # r)" "b = []" "length b < k"
        | (i5) x r where "pr = Some (x # r)" "b = []" "\<not> length b < k"
        | (i6) x r u b' where "pr = Some (x # r)" "b = u # b'" "length b < k"
        | (i7) x r u b' where "pr = Some (x # r)" "b = u # b'" "\<not> length b < k"
        by (cases pr rule: pr_rank.cases; cases b; cases "length b < k") auto
      then show ?thesis
      proof cases
        case i0
        have "s' = s\<lparr>pool := [Tee_go (Some 0) (Some 1) (Some 2) (Tee_select (Some 3) v 1 None (Some 2)),
          Consume (Some 1) (outl @ [v]),
          Consume (Some 2) (outr),
          OrDone_go (Some 0) (Some 3) (OrDone_forward w)]\<rparr>
          \<or> s' = s\<lparr>pool := [Tee_go (Some 0) (Some 1) (Some 2) (Tee_select (Some 3) v 1 (Some 1) None),
          Consume (Some 1) (outl),
          Consume (Some 2) (outr @ [v]),
          OrDone_go (Some 0) (Some 3) (OrDone_forward w)]\<rparr>"
          using assms both forward i0 by (auto simp: sched)
        then show ?thesis
        proof (elim disjE)
          assume "s' = s\<lparr>pool := [Tee_go (Some 0) (Some 1) (Some 2) (Tee_select (Some 3) v 1 None (Some 2)),
          Consume (Some 1) (outl @ [v]),
          Consume (Some 2) (outr),
          OrDone_go (Some 0) (Some 3) (OrDone_forward w)]\<rparr>"
          then show ?thesis
            by (intro low[OF Tee_inv.teeing[where b = "[]" and pr = "None" and od = "Some (OrDone_forward w)"
                  and tpc = "Tee_select (Some 3) v 1 None (Some 2)" and outl = "outl @ [v]" and outr = "outr"]])
              (use assms both forward i0 in \<open>auto\<close>)
        next
          assume "s' = s\<lparr>pool := [Tee_go (Some 0) (Some 1) (Some 2) (Tee_select (Some 3) v 1 (Some 1) None),
          Consume (Some 1) (outl),
          Consume (Some 2) (outr @ [v]),
          OrDone_go (Some 0) (Some 3) (OrDone_forward w)]\<rparr>"
          then show ?thesis
            by (intro low[OF Tee_inv.teeing[where b = "[]" and pr = "None" and od = "Some (OrDone_forward w)"
                  and tpc = "Tee_select (Some 3) v 1 (Some 1) None" and outl = "outl" and outr = "outr @ [v]"]])
              (use assms both forward i0 in \<open>auto\<close>)
        qed
      next
        case i1
        have "s' = s\<lparr>pool := [Tee_go (Some 0) (Some 1) (Some 2) (Tee_select (Some 3) v 1 None (Some 2)),
          Consume (Some 1) (outl @ [v]),
          Consume (Some 2) (outr),
          OrDone_go (Some 0) (Some 3) (OrDone_forward w)]\<rparr>
          \<or> s' = s\<lparr>pool := [Tee_go (Some 0) (Some 1) (Some 2) (Tee_select (Some 3) v 1 (Some 1) None),
          Consume (Some 1) (outl),
          Consume (Some 2) (outr @ [v]),
          OrDone_go (Some 0) (Some 3) (OrDone_forward w)]\<rparr>"
          using assms both forward i1 by (auto simp: sched)
        then show ?thesis
        proof (elim disjE)
          assume "s' = s\<lparr>pool := [Tee_go (Some 0) (Some 1) (Some 2) (Tee_select (Some 3) v 1 None (Some 2)),
          Consume (Some 1) (outl @ [v]),
          Consume (Some 2) (outr),
          OrDone_go (Some 0) (Some 3) (OrDone_forward w)]\<rparr>"
          then show ?thesis
            by (intro low[OF Tee_inv.teeing[where b = "u # b'" and pr = "None" and od = "Some (OrDone_forward w)"
                  and tpc = "Tee_select (Some 3) v 1 None (Some 2)" and outl = "outl @ [v]" and outr = "outr"]])
              (use assms both forward i1 in \<open>auto\<close>)
        next
          assume "s' = s\<lparr>pool := [Tee_go (Some 0) (Some 1) (Some 2) (Tee_select (Some 3) v 1 (Some 1) None),
          Consume (Some 1) (outl),
          Consume (Some 2) (outr @ [v]),
          OrDone_go (Some 0) (Some 3) (OrDone_forward w)]\<rparr>"
          then show ?thesis
            by (intro low[OF Tee_inv.teeing[where b = "u # b'" and pr = "None" and od = "Some (OrDone_forward w)"
                  and tpc = "Tee_select (Some 3) v 1 (Some 1) None" and outl = "outl" and outr = "outr @ [v]"]])
              (use assms both forward i1 in \<open>auto\<close>)
        qed
      next
        case i2
        have "s' = s\<lparr>pool := [Produce (Some 0) ([]),
          Tee_go (Some 0) (Some 1) (Some 2) (Tee_select (Some 3) v 1 None (Some 2)),
          Consume (Some 1) (outl @ [v]),
          Consume (Some 2) (outr),
          OrDone_go (Some 0) (Some 3) (OrDone_forward w)]\<rparr>
          \<or> s' = s\<lparr>pool := [Produce (Some 0) ([]),
          Tee_go (Some 0) (Some 1) (Some 2) (Tee_select (Some 3) v 1 (Some 1) None),
          Consume (Some 1) (outl),
          Consume (Some 2) (outr @ [v]),
          OrDone_go (Some 0) (Some 3) (OrDone_forward w)]\<rparr>
          \<or> s' = s\<lparr>heap := (heap s)(0 \<mapsto> \<lparr>buf = [], cap = k, closed = True\<rparr>), pool := [Tee_go (Some 0) (Some 1) (Some 2) (Tee_select (Some 3) v 0 (Some 1) (Some 2)),
          Consume (Some 1) (outl),
          Consume (Some 2) (outr),
          OrDone_go (Some 0) (Some 3) (OrDone_forward w)]\<rparr>"
          using assms both forward i2 by (auto simp: sched)
        then show ?thesis
        proof (elim disjE)
          assume "s' = s\<lparr>pool := [Produce (Some 0) ([]),
          Tee_go (Some 0) (Some 1) (Some 2) (Tee_select (Some 3) v 1 None (Some 2)),
          Consume (Some 1) (outl @ [v]),
          Consume (Some 2) (outr),
          OrDone_go (Some 0) (Some 3) (OrDone_forward w)]\<rparr>"
          then show ?thesis
            by (intro low[OF Tee_inv.teeing[where b = "[]" and pr = "Some ([])" and od = "Some (OrDone_forward w)"
                  and tpc = "Tee_select (Some 3) v 1 None (Some 2)" and outl = "outl @ [v]" and outr = "outr"]])
              (use assms both forward i2 in \<open>auto\<close>)
        next
          assume "s' = s\<lparr>pool := [Produce (Some 0) ([]),
          Tee_go (Some 0) (Some 1) (Some 2) (Tee_select (Some 3) v 1 (Some 1) None),
          Consume (Some 1) (outl),
          Consume (Some 2) (outr @ [v]),
          OrDone_go (Some 0) (Some 3) (OrDone_forward w)]\<rparr>"
          then show ?thesis
            by (intro low[OF Tee_inv.teeing[where b = "[]" and pr = "Some ([])" and od = "Some (OrDone_forward w)"
                  and tpc = "Tee_select (Some 3) v 1 (Some 1) None" and outl = "outl" and outr = "outr @ [v]"]])
              (use assms both forward i2 in \<open>auto\<close>)
        next
          assume "s' = s\<lparr>heap := (heap s)(0 \<mapsto> \<lparr>buf = [], cap = k, closed = True\<rparr>), pool := [Tee_go (Some 0) (Some 1) (Some 2) (Tee_select (Some 3) v 0 (Some 1) (Some 2)),
          Consume (Some 1) (outl),
          Consume (Some 2) (outr),
          OrDone_go (Some 0) (Some 3) (OrDone_forward w)]\<rparr>"
          then show ?thesis
            by (intro low[OF Tee_inv.teeing[where b = "[]" and pr = "None" and od = "Some (OrDone_forward w)"
                  and tpc = "Tee_select (Some 3) v 0 (Some 1) (Some 2)" and outl = "outl" and outr = "outr"]])
              (use assms both forward i2 in \<open>auto\<close>)
        qed
      next
        case i3
        have "s' = s\<lparr>pool := [Produce (Some 0) ([]),
          Tee_go (Some 0) (Some 1) (Some 2) (Tee_select (Some 3) v 1 None (Some 2)),
          Consume (Some 1) (outl @ [v]),
          Consume (Some 2) (outr),
          OrDone_go (Some 0) (Some 3) (OrDone_forward w)]\<rparr>
          \<or> s' = s\<lparr>pool := [Produce (Some 0) ([]),
          Tee_go (Some 0) (Some 1) (Some 2) (Tee_select (Some 3) v 1 (Some 1) None),
          Consume (Some 1) (outl),
          Consume (Some 2) (outr @ [v]),
          OrDone_go (Some 0) (Some 3) (OrDone_forward w)]\<rparr>
          \<or> s' = s\<lparr>heap := (heap s)(0 \<mapsto> \<lparr>buf = u # b', cap = k, closed = True\<rparr>), pool := [Tee_go (Some 0) (Some 1) (Some 2) (Tee_select (Some 3) v 0 (Some 1) (Some 2)),
          Consume (Some 1) (outl),
          Consume (Some 2) (outr),
          OrDone_go (Some 0) (Some 3) (OrDone_forward w)]\<rparr>"
          using assms both forward i3 by (auto simp: sched)
        then show ?thesis
        proof (elim disjE)
          assume "s' = s\<lparr>pool := [Produce (Some 0) ([]),
          Tee_go (Some 0) (Some 1) (Some 2) (Tee_select (Some 3) v 1 None (Some 2)),
          Consume (Some 1) (outl @ [v]),
          Consume (Some 2) (outr),
          OrDone_go (Some 0) (Some 3) (OrDone_forward w)]\<rparr>"
          then show ?thesis
            by (intro low[OF Tee_inv.teeing[where b = "u # b'" and pr = "Some ([])" and od = "Some (OrDone_forward w)"
                  and tpc = "Tee_select (Some 3) v 1 None (Some 2)" and outl = "outl @ [v]" and outr = "outr"]])
              (use assms both forward i3 in \<open>auto\<close>)
        next
          assume "s' = s\<lparr>pool := [Produce (Some 0) ([]),
          Tee_go (Some 0) (Some 1) (Some 2) (Tee_select (Some 3) v 1 (Some 1) None),
          Consume (Some 1) (outl),
          Consume (Some 2) (outr @ [v]),
          OrDone_go (Some 0) (Some 3) (OrDone_forward w)]\<rparr>"
          then show ?thesis
            by (intro low[OF Tee_inv.teeing[where b = "u # b'" and pr = "Some ([])" and od = "Some (OrDone_forward w)"
                  and tpc = "Tee_select (Some 3) v 1 (Some 1) None" and outl = "outl" and outr = "outr @ [v]"]])
              (use assms both forward i3 in \<open>auto\<close>)
        next
          assume "s' = s\<lparr>heap := (heap s)(0 \<mapsto> \<lparr>buf = u # b', cap = k, closed = True\<rparr>), pool := [Tee_go (Some 0) (Some 1) (Some 2) (Tee_select (Some 3) v 0 (Some 1) (Some 2)),
          Consume (Some 1) (outl),
          Consume (Some 2) (outr),
          OrDone_go (Some 0) (Some 3) (OrDone_forward w)]\<rparr>"
          then show ?thesis
            by (intro low[OF Tee_inv.teeing[where b = "u # b'" and pr = "None" and od = "Some (OrDone_forward w)"
                  and tpc = "Tee_select (Some 3) v 0 (Some 1) (Some 2)" and outl = "outl" and outr = "outr"]])
              (use assms both forward i3 in \<open>auto\<close>)
        qed
      next
        case i4
        have "s' = s\<lparr>pool := [Produce (Some 0) (x # r),
          Tee_go (Some 0) (Some 1) (Some 2) (Tee_select (Some 3) v 1 None (Some 2)),
          Consume (Some 1) (outl @ [v]),
          Consume (Some 2) (outr),
          OrDone_go (Some 0) (Some 3) (OrDone_forward w)]\<rparr>
          \<or> s' = s\<lparr>pool := [Produce (Some 0) (x # r),
          Tee_go (Some 0) (Some 1) (Some 2) (Tee_select (Some 3) v 1 (Some 1) None),
          Consume (Some 1) (outl),
          Consume (Some 2) (outr @ [v]),
          OrDone_go (Some 0) (Some 3) (OrDone_forward w)]\<rparr>
          \<or> s' = s\<lparr>heap := (heap s)(0 \<mapsto> \<lparr>buf = [x], cap = k, closed = False\<rparr>), pool := [Produce (Some 0) (r),
          Tee_go (Some 0) (Some 1) (Some 2) (Tee_select (Some 3) v 0 (Some 1) (Some 2)),
          Consume (Some 1) (outl),
          Consume (Some 2) (outr),
          OrDone_go (Some 0) (Some 3) (OrDone_forward w)]\<rparr>"
          using assms both forward i4 by (auto simp: sched)
        then show ?thesis
        proof (elim disjE)
          assume "s' = s\<lparr>pool := [Produce (Some 0) (x # r),
          Tee_go (Some 0) (Some 1) (Some 2) (Tee_select (Some 3) v 1 None (Some 2)),
          Consume (Some 1) (outl @ [v]),
          Consume (Some 2) (outr),
          OrDone_go (Some 0) (Some 3) (OrDone_forward w)]\<rparr>"
          then show ?thesis
            by (intro low[OF Tee_inv.teeing[where b = "[]" and pr = "Some (x # r)" and od = "Some (OrDone_forward w)"
                  and tpc = "Tee_select (Some 3) v 1 None (Some 2)" and outl = "outl @ [v]" and outr = "outr"]])
              (use assms both forward i4 in \<open>auto\<close>)
        next
          assume "s' = s\<lparr>pool := [Produce (Some 0) (x # r),
          Tee_go (Some 0) (Some 1) (Some 2) (Tee_select (Some 3) v 1 (Some 1) None),
          Consume (Some 1) (outl),
          Consume (Some 2) (outr @ [v]),
          OrDone_go (Some 0) (Some 3) (OrDone_forward w)]\<rparr>"
          then show ?thesis
            by (intro low[OF Tee_inv.teeing[where b = "[]" and pr = "Some (x # r)" and od = "Some (OrDone_forward w)"
                  and tpc = "Tee_select (Some 3) v 1 (Some 1) None" and outl = "outl" and outr = "outr @ [v]"]])
              (use assms both forward i4 in \<open>auto\<close>)
        next
          assume "s' = s\<lparr>heap := (heap s)(0 \<mapsto> \<lparr>buf = [x], cap = k, closed = False\<rparr>), pool := [Produce (Some 0) (r),
          Tee_go (Some 0) (Some 1) (Some 2) (Tee_select (Some 3) v 0 (Some 1) (Some 2)),
          Consume (Some 1) (outl),
          Consume (Some 2) (outr),
          OrDone_go (Some 0) (Some 3) (OrDone_forward w)]\<rparr>"
          then show ?thesis
            by (intro low[OF Tee_inv.teeing[where b = "[x]" and pr = "Some (r)" and od = "Some (OrDone_forward w)"
                  and tpc = "Tee_select (Some 3) v 0 (Some 1) (Some 2)" and outl = "outl" and outr = "outr"]])
              (use assms both forward i4 in \<open>auto\<close>)
        qed
      next
        case i5
        have "s' = s\<lparr>pool := [Produce (Some 0) (x # r),
          Tee_go (Some 0) (Some 1) (Some 2) (Tee_select (Some 3) v 1 None (Some 2)),
          Consume (Some 1) (outl @ [v]),
          Consume (Some 2) (outr),
          OrDone_go (Some 0) (Some 3) (OrDone_forward w)]\<rparr>
          \<or> s' = s\<lparr>pool := [Produce (Some 0) (x # r),
          Tee_go (Some 0) (Some 1) (Some 2) (Tee_select (Some 3) v 1 (Some 1) None),
          Consume (Some 1) (outl),
          Consume (Some 2) (outr @ [v]),
          OrDone_go (Some 0) (Some 3) (OrDone_forward w)]\<rparr>"
          using assms both forward i5 by (auto simp: sched)
        then show ?thesis
        proof (elim disjE)
          assume "s' = s\<lparr>pool := [Produce (Some 0) (x # r),
          Tee_go (Some 0) (Some 1) (Some 2) (Tee_select (Some 3) v 1 None (Some 2)),
          Consume (Some 1) (outl @ [v]),
          Consume (Some 2) (outr),
          OrDone_go (Some 0) (Some 3) (OrDone_forward w)]\<rparr>"
          then show ?thesis
            by (intro low[OF Tee_inv.teeing[where b = "[]" and pr = "Some (x # r)" and od = "Some (OrDone_forward w)"
                  and tpc = "Tee_select (Some 3) v 1 None (Some 2)" and outl = "outl @ [v]" and outr = "outr"]])
              (use assms both forward i5 in \<open>auto\<close>)
        next
          assume "s' = s\<lparr>pool := [Produce (Some 0) (x # r),
          Tee_go (Some 0) (Some 1) (Some 2) (Tee_select (Some 3) v 1 (Some 1) None),
          Consume (Some 1) (outl),
          Consume (Some 2) (outr @ [v]),
          OrDone_go (Some 0) (Some 3) (OrDone_forward w)]\<rparr>"
          then show ?thesis
            by (intro low[OF Tee_inv.teeing[where b = "[]" and pr = "Some (x # r)" and od = "Some (OrDone_forward w)"
                  and tpc = "Tee_select (Some 3) v 1 (Some 1) None" and outl = "outl" and outr = "outr @ [v]"]])
              (use assms both forward i5 in \<open>auto\<close>)
        qed
      next
        case i6
        have "s' = s\<lparr>pool := [Produce (Some 0) (x # r),
          Tee_go (Some 0) (Some 1) (Some 2) (Tee_select (Some 3) v 1 None (Some 2)),
          Consume (Some 1) (outl @ [v]),
          Consume (Some 2) (outr),
          OrDone_go (Some 0) (Some 3) (OrDone_forward w)]\<rparr>
          \<or> s' = s\<lparr>pool := [Produce (Some 0) (x # r),
          Tee_go (Some 0) (Some 1) (Some 2) (Tee_select (Some 3) v 1 (Some 1) None),
          Consume (Some 1) (outl),
          Consume (Some 2) (outr @ [v]),
          OrDone_go (Some 0) (Some 3) (OrDone_forward w)]\<rparr>
          \<or> s' = s\<lparr>heap := (heap s)(0 \<mapsto> \<lparr>buf = u # b' @ [x], cap = k, closed = False\<rparr>), pool := [Produce (Some 0) (r),
          Tee_go (Some 0) (Some 1) (Some 2) (Tee_select (Some 3) v 0 (Some 1) (Some 2)),
          Consume (Some 1) (outl),
          Consume (Some 2) (outr),
          OrDone_go (Some 0) (Some 3) (OrDone_forward w)]\<rparr>"
          using assms both forward i6 by (auto simp: sched)
        then show ?thesis
        proof (elim disjE)
          assume "s' = s\<lparr>pool := [Produce (Some 0) (x # r),
          Tee_go (Some 0) (Some 1) (Some 2) (Tee_select (Some 3) v 1 None (Some 2)),
          Consume (Some 1) (outl @ [v]),
          Consume (Some 2) (outr),
          OrDone_go (Some 0) (Some 3) (OrDone_forward w)]\<rparr>"
          then show ?thesis
            by (intro low[OF Tee_inv.teeing[where b = "u # b'" and pr = "Some (x # r)" and od = "Some (OrDone_forward w)"
                  and tpc = "Tee_select (Some 3) v 1 None (Some 2)" and outl = "outl @ [v]" and outr = "outr"]])
              (use assms both forward i6 in \<open>auto\<close>)
        next
          assume "s' = s\<lparr>pool := [Produce (Some 0) (x # r),
          Tee_go (Some 0) (Some 1) (Some 2) (Tee_select (Some 3) v 1 (Some 1) None),
          Consume (Some 1) (outl),
          Consume (Some 2) (outr @ [v]),
          OrDone_go (Some 0) (Some 3) (OrDone_forward w)]\<rparr>"
          then show ?thesis
            by (intro low[OF Tee_inv.teeing[where b = "u # b'" and pr = "Some (x # r)" and od = "Some (OrDone_forward w)"
                  and tpc = "Tee_select (Some 3) v 1 (Some 1) None" and outl = "outl" and outr = "outr @ [v]"]])
              (use assms both forward i6 in \<open>auto\<close>)
        next
          assume "s' = s\<lparr>heap := (heap s)(0 \<mapsto> \<lparr>buf = u # b' @ [x], cap = k, closed = False\<rparr>), pool := [Produce (Some 0) (r),
          Tee_go (Some 0) (Some 1) (Some 2) (Tee_select (Some 3) v 0 (Some 1) (Some 2)),
          Consume (Some 1) (outl),
          Consume (Some 2) (outr),
          OrDone_go (Some 0) (Some 3) (OrDone_forward w)]\<rparr>"
          then show ?thesis
            by (intro low[OF Tee_inv.teeing[where b = "u # b' @ [x]" and pr = "Some (r)" and od = "Some (OrDone_forward w)"
                  and tpc = "Tee_select (Some 3) v 0 (Some 1) (Some 2)" and outl = "outl" and outr = "outr"]])
              (use assms both forward i6 in \<open>auto\<close>)
        qed
      next
        case i7
        have "s' = s\<lparr>pool := [Produce (Some 0) (x # r),
          Tee_go (Some 0) (Some 1) (Some 2) (Tee_select (Some 3) v 1 None (Some 2)),
          Consume (Some 1) (outl @ [v]),
          Consume (Some 2) (outr),
          OrDone_go (Some 0) (Some 3) (OrDone_forward w)]\<rparr>
          \<or> s' = s\<lparr>pool := [Produce (Some 0) (x # r),
          Tee_go (Some 0) (Some 1) (Some 2) (Tee_select (Some 3) v 1 (Some 1) None),
          Consume (Some 1) (outl),
          Consume (Some 2) (outr @ [v]),
          OrDone_go (Some 0) (Some 3) (OrDone_forward w)]\<rparr>"
          using assms both forward i7 by (auto simp: sched)
        then show ?thesis
        proof (elim disjE)
          assume "s' = s\<lparr>pool := [Produce (Some 0) (x # r),
          Tee_go (Some 0) (Some 1) (Some 2) (Tee_select (Some 3) v 1 None (Some 2)),
          Consume (Some 1) (outl @ [v]),
          Consume (Some 2) (outr),
          OrDone_go (Some 0) (Some 3) (OrDone_forward w)]\<rparr>"
          then show ?thesis
            by (intro low[OF Tee_inv.teeing[where b = "u # b'" and pr = "Some (x # r)" and od = "Some (OrDone_forward w)"
                  and tpc = "Tee_select (Some 3) v 1 None (Some 2)" and outl = "outl @ [v]" and outr = "outr"]])
              (use assms both forward i7 in \<open>auto\<close>)
        next
          assume "s' = s\<lparr>pool := [Produce (Some 0) (x # r),
          Tee_go (Some 0) (Some 1) (Some 2) (Tee_select (Some 3) v 1 (Some 1) None),
          Consume (Some 1) (outl),
          Consume (Some 2) (outr @ [v]),
          OrDone_go (Some 0) (Some 3) (OrDone_forward w)]\<rparr>"
          then show ?thesis
            by (intro low[OF Tee_inv.teeing[where b = "u # b'" and pr = "Some (x # r)" and od = "Some (OrDone_forward w)"
                  and tpc = "Tee_select (Some 3) v 1 (Some 1) None" and outl = "outl" and outr = "outr @ [v]"]])
              (use assms both forward i7 in \<open>auto\<close>)
        qed
      qed
    next
      case return
      consider (ia) "pr = None" "b = []"
        using assms(7,8) return by auto
      then show ?thesis
      proof cases
        case ia
        have "s' = s\<lparr>pool := [Tee_go (Some 0) (Some 1) (Some 2) (Tee_select (Some 3) v 1 None (Some 2)),
          Consume (Some 1) (outl @ [v]),
          Consume (Some 2) (outr),
          OrDone_go (Some 0) (Some 3) (OrDone_return)]\<rparr>
          \<or> s' = s\<lparr>pool := [Tee_go (Some 0) (Some 1) (Some 2) (Tee_select (Some 3) v 1 (Some 1) None),
          Consume (Some 1) (outl),
          Consume (Some 2) (outr @ [v]),
          OrDone_go (Some 0) (Some 3) (OrDone_return)]\<rparr>
          \<or> s' = s\<lparr>heap := (heap s)(3 \<mapsto> \<lparr>buf = [], cap = 0, closed = True\<rparr>), pool := [Tee_go (Some 0) (Some 1) (Some 2) (Tee_select (Some 3) v 0 (Some 1) (Some 2)),
          Consume (Some 1) (outl),
          Consume (Some 2) (outr)]\<rparr>"
          using assms both return ia by (auto simp: sched)
        then show ?thesis
        proof (elim disjE)
          assume "s' = s\<lparr>pool := [Tee_go (Some 0) (Some 1) (Some 2) (Tee_select (Some 3) v 1 None (Some 2)),
          Consume (Some 1) (outl @ [v]),
          Consume (Some 2) (outr),
          OrDone_go (Some 0) (Some 3) (OrDone_return)]\<rparr>"
          then show ?thesis
            by (intro low[OF Tee_inv.teeing[where b = "[]" and pr = "None" and od = "Some (OrDone_return)"
                  and tpc = "Tee_select (Some 3) v 1 None (Some 2)" and outl = "outl @ [v]" and outr = "outr"]])
              (use assms both return ia in \<open>auto\<close>)
        next
          assume "s' = s\<lparr>pool := [Tee_go (Some 0) (Some 1) (Some 2) (Tee_select (Some 3) v 1 (Some 1) None),
          Consume (Some 1) (outl),
          Consume (Some 2) (outr @ [v]),
          OrDone_go (Some 0) (Some 3) (OrDone_return)]\<rparr>"
          then show ?thesis
            by (intro low[OF Tee_inv.teeing[where b = "[]" and pr = "None" and od = "Some (OrDone_return)"
                  and tpc = "Tee_select (Some 3) v 1 (Some 1) None" and outl = "outl" and outr = "outr @ [v]"]])
              (use assms both return ia in \<open>auto\<close>)
        next
          assume "s' = s\<lparr>heap := (heap s)(3 \<mapsto> \<lparr>buf = [], cap = 0, closed = True\<rparr>), pool := [Tee_go (Some 0) (Some 1) (Some 2) (Tee_select (Some 3) v 0 (Some 1) (Some 2)),
          Consume (Some 1) (outl),
          Consume (Some 2) (outr)]\<rparr>"
          then show ?thesis
            by (intro low[OF Tee_inv.teeing[where b = "[]" and pr = "None" and od = "None"
                  and tpc = "Tee_select (Some 3) v 0 (Some 1) (Some 2)" and outl = "outl" and outr = "outr"]])
              (use assms both return ia in \<open>auto\<close>)
        qed
      qed
    qed
  next
    case ldone
    consider (gone) "od = None" | (select) "od = Some OrDone_select"
      | (forward) w where "od = Some (OrDone_forward w)" | (return) "od = Some OrDone_return"
      by (cases od rule: od_rank.cases) auto
    then show ?thesis
    proof cases
      case gone
      consider (ia) "pr = None" "b = []"
        using assms(7,8) gone by auto
      then show ?thesis
      proof cases
        case ia
        have s1: "s' = s\<lparr>pool := [Tee_go (Some 0) (Some 1) (Some 2) (Tee_range (Some 3)),
          Consume (Some 1) (outl),
          Consume (Some 2) (outr @ [v])]\<rparr>"
          using assms ldone gone ia by (auto simp: sched)
        show ?thesis
          by (intro low[OF Tee_inv.teeing[where b = "[]" and pr = "None" and od = "None"
                  and tpc = "Tee_range (Some 3)" and outl = "outl" and outr = "outr @ [v]"]])
            (use s1 assms ldone gone ia in \<open>auto\<close>)
      qed
    next
      case select
      consider (i0) "pr = None" "b = []"
        | (i1) u b' where "pr = None" "b = u # b'"
        | (i2) "pr = Some []" "b = []"
        | (i3) u b' where "pr = Some []" "b = u # b'"
        | (i4) x r where "pr = Some (x # r)" "b = []" "length b < k"
        | (i5) x r where "pr = Some (x # r)" "b = []" "\<not> length b < k"
        | (i6) x r u b' where "pr = Some (x # r)" "b = u # b'" "length b < k"
        | (i7) x r u b' where "pr = Some (x # r)" "b = u # b'" "\<not> length b < k"
        by (cases pr rule: pr_rank.cases; cases b; cases "length b < k") auto
      then show ?thesis
      proof cases
        case i0
        have "s' = s\<lparr>pool := [Tee_go (Some 0) (Some 1) (Some 2) (Tee_range (Some 3)),
          Consume (Some 1) (outl),
          Consume (Some 2) (outr @ [v]),
          OrDone_go (Some 0) (Some 3) (OrDone_select)]\<rparr>
          \<or> s' = s\<lparr>pool := [Tee_go (Some 0) (Some 1) (Some 2) (Tee_select (Some 3) v 1 None (Some 2)),
          Consume (Some 1) (outl),
          Consume (Some 2) (outr),
          OrDone_go (Some 0) (Some 3) (OrDone_return)]\<rparr>"
          using assms ldone select i0 by (auto simp: sched)
        then show ?thesis
        proof (elim disjE)
          assume "s' = s\<lparr>pool := [Tee_go (Some 0) (Some 1) (Some 2) (Tee_range (Some 3)),
          Consume (Some 1) (outl),
          Consume (Some 2) (outr @ [v]),
          OrDone_go (Some 0) (Some 3) (OrDone_select)]\<rparr>"
          then show ?thesis
            by (intro low[OF Tee_inv.teeing[where b = "[]" and pr = "None" and od = "Some (OrDone_select)"
                  and tpc = "Tee_range (Some 3)" and outl = "outl" and outr = "outr @ [v]"]])
              (use assms ldone select i0 in \<open>auto\<close>)
        next
          assume "s' = s\<lparr>pool := [Tee_go (Some 0) (Some 1) (Some 2) (Tee_select (Some 3) v 1 None (Some 2)),
          Consume (Some 1) (outl),
          Consume (Some 2) (outr),
          OrDone_go (Some 0) (Some 3) (OrDone_return)]\<rparr>"
          then show ?thesis
            by (intro low[OF Tee_inv.teeing[where b = "[]" and pr = "None" and od = "Some (OrDone_return)"
                  and tpc = "Tee_select (Some 3) v 1 None (Some 2)" and outl = "outl" and outr = "outr"]])
              (use assms ldone select i0 in \<open>auto\<close>)
        qed
      next
        case i1
        have "s' = s\<lparr>pool := [Tee_go (Some 0) (Some 1) (Some 2) (Tee_range (Some 3)),
          Consume (Some 1) (outl),
          Consume (Some 2) (outr @ [v]),
          OrDone_go (Some 0) (Some 3) (OrDone_select)]\<rparr>
          \<or> s' = s\<lparr>heap := (heap s)(0 \<mapsto> \<lparr>buf = b', cap = k, closed = True\<rparr>), pool := [Tee_go (Some 0) (Some 1) (Some 2) (Tee_select (Some 3) v 1 None (Some 2)),
          Consume (Some 1) (outl),
          Consume (Some 2) (outr),
          OrDone_go (Some 0) (Some 3) (OrDone_forward u)]\<rparr>"
          using assms ldone select i1 by (auto simp: sched)
        then show ?thesis
        proof (elim disjE)
          assume "s' = s\<lparr>pool := [Tee_go (Some 0) (Some 1) (Some 2) (Tee_range (Some 3)),
          Consume (Some 1) (outl),
          Consume (Some 2) (outr @ [v]),
          OrDone_go (Some 0) (Some 3) (OrDone_select)]\<rparr>"
          then show ?thesis
            by (intro low[OF Tee_inv.teeing[where b = "u # b'" and pr = "None" and od = "Some (OrDone_select)"
                  and tpc = "Tee_range (Some 3)" and outl = "outl" and outr = "outr @ [v]"]])
              (use assms ldone select i1 in \<open>auto\<close>)
        next
          assume "s' = s\<lparr>heap := (heap s)(0 \<mapsto> \<lparr>buf = b', cap = k, closed = True\<rparr>), pool := [Tee_go (Some 0) (Some 1) (Some 2) (Tee_select (Some 3) v 1 None (Some 2)),
          Consume (Some 1) (outl),
          Consume (Some 2) (outr),
          OrDone_go (Some 0) (Some 3) (OrDone_forward u)]\<rparr>"
          then show ?thesis
            by (intro low[OF Tee_inv.teeing[where b = "b'" and pr = "None" and od = "Some (OrDone_forward u)"
                  and tpc = "Tee_select (Some 3) v 1 None (Some 2)" and outl = "outl" and outr = "outr"]])
              (use assms ldone select i1 in \<open>auto\<close>)
        qed
      next
        case i2
        have "s' = s\<lparr>pool := [Produce (Some 0) ([]),
          Tee_go (Some 0) (Some 1) (Some 2) (Tee_range (Some 3)),
          Consume (Some 1) (outl),
          Consume (Some 2) (outr @ [v]),
          OrDone_go (Some 0) (Some 3) (OrDone_select)]\<rparr>
          \<or> s' = s\<lparr>heap := (heap s)(0 \<mapsto> \<lparr>buf = [], cap = k, closed = True\<rparr>), pool := [Tee_go (Some 0) (Some 1) (Some 2) (Tee_select (Some 3) v 1 None (Some 2)),
          Consume (Some 1) (outl),
          Consume (Some 2) (outr),
          OrDone_go (Some 0) (Some 3) (OrDone_select)]\<rparr>"
          using assms ldone select i2 by (auto simp: sched)
        then show ?thesis
        proof (elim disjE)
          assume "s' = s\<lparr>pool := [Produce (Some 0) ([]),
          Tee_go (Some 0) (Some 1) (Some 2) (Tee_range (Some 3)),
          Consume (Some 1) (outl),
          Consume (Some 2) (outr @ [v]),
          OrDone_go (Some 0) (Some 3) (OrDone_select)]\<rparr>"
          then show ?thesis
            by (intro low[OF Tee_inv.teeing[where b = "[]" and pr = "Some ([])" and od = "Some (OrDone_select)"
                  and tpc = "Tee_range (Some 3)" and outl = "outl" and outr = "outr @ [v]"]])
              (use assms ldone select i2 in \<open>auto\<close>)
        next
          assume "s' = s\<lparr>heap := (heap s)(0 \<mapsto> \<lparr>buf = [], cap = k, closed = True\<rparr>), pool := [Tee_go (Some 0) (Some 1) (Some 2) (Tee_select (Some 3) v 1 None (Some 2)),
          Consume (Some 1) (outl),
          Consume (Some 2) (outr),
          OrDone_go (Some 0) (Some 3) (OrDone_select)]\<rparr>"
          then show ?thesis
            by (intro low[OF Tee_inv.teeing[where b = "[]" and pr = "None" and od = "Some (OrDone_select)"
                  and tpc = "Tee_select (Some 3) v 1 None (Some 2)" and outl = "outl" and outr = "outr"]])
              (use assms ldone select i2 in \<open>auto\<close>)
        qed
      next
        case i3
        have "s' = s\<lparr>pool := [Produce (Some 0) ([]),
          Tee_go (Some 0) (Some 1) (Some 2) (Tee_range (Some 3)),
          Consume (Some 1) (outl),
          Consume (Some 2) (outr @ [v]),
          OrDone_go (Some 0) (Some 3) (OrDone_select)]\<rparr>
          \<or> s' = s\<lparr>heap := (heap s)(0 \<mapsto> \<lparr>buf = u # b', cap = k, closed = True\<rparr>), pool := [Tee_go (Some 0) (Some 1) (Some 2) (Tee_select (Some 3) v 1 None (Some 2)),
          Consume (Some 1) (outl),
          Consume (Some 2) (outr),
          OrDone_go (Some 0) (Some 3) (OrDone_select)]\<rparr>
          \<or> s' = s\<lparr>heap := (heap s)(0 \<mapsto> \<lparr>buf = b', cap = k, closed = False\<rparr>), pool := [Produce (Some 0) ([]),
          Tee_go (Some 0) (Some 1) (Some 2) (Tee_select (Some 3) v 1 None (Some 2)),
          Consume (Some 1) (outl),
          Consume (Some 2) (outr),
          OrDone_go (Some 0) (Some 3) (OrDone_forward u)]\<rparr>"
          using assms ldone select i3 by (auto simp: sched)
        then show ?thesis
        proof (elim disjE)
          assume "s' = s\<lparr>pool := [Produce (Some 0) ([]),
          Tee_go (Some 0) (Some 1) (Some 2) (Tee_range (Some 3)),
          Consume (Some 1) (outl),
          Consume (Some 2) (outr @ [v]),
          OrDone_go (Some 0) (Some 3) (OrDone_select)]\<rparr>"
          then show ?thesis
            by (intro low[OF Tee_inv.teeing[where b = "u # b'" and pr = "Some ([])" and od = "Some (OrDone_select)"
                  and tpc = "Tee_range (Some 3)" and outl = "outl" and outr = "outr @ [v]"]])
              (use assms ldone select i3 in \<open>auto\<close>)
        next
          assume "s' = s\<lparr>heap := (heap s)(0 \<mapsto> \<lparr>buf = u # b', cap = k, closed = True\<rparr>), pool := [Tee_go (Some 0) (Some 1) (Some 2) (Tee_select (Some 3) v 1 None (Some 2)),
          Consume (Some 1) (outl),
          Consume (Some 2) (outr),
          OrDone_go (Some 0) (Some 3) (OrDone_select)]\<rparr>"
          then show ?thesis
            by (intro low[OF Tee_inv.teeing[where b = "u # b'" and pr = "None" and od = "Some (OrDone_select)"
                  and tpc = "Tee_select (Some 3) v 1 None (Some 2)" and outl = "outl" and outr = "outr"]])
              (use assms ldone select i3 in \<open>auto\<close>)
        next
          assume "s' = s\<lparr>heap := (heap s)(0 \<mapsto> \<lparr>buf = b', cap = k, closed = False\<rparr>), pool := [Produce (Some 0) ([]),
          Tee_go (Some 0) (Some 1) (Some 2) (Tee_select (Some 3) v 1 None (Some 2)),
          Consume (Some 1) (outl),
          Consume (Some 2) (outr),
          OrDone_go (Some 0) (Some 3) (OrDone_forward u)]\<rparr>"
          then show ?thesis
            by (intro low[OF Tee_inv.teeing[where b = "b'" and pr = "Some ([])" and od = "Some (OrDone_forward u)"
                  and tpc = "Tee_select (Some 3) v 1 None (Some 2)" and outl = "outl" and outr = "outr"]])
              (use assms ldone select i3 in \<open>auto\<close>)
        qed
      next
        case i4
        have "s' = s\<lparr>pool := [Produce (Some 0) (x # r),
          Tee_go (Some 0) (Some 1) (Some 2) (Tee_range (Some 3)),
          Consume (Some 1) (outl),
          Consume (Some 2) (outr @ [v]),
          OrDone_go (Some 0) (Some 3) (OrDone_select)]\<rparr>
          \<or> s' = s\<lparr>heap := (heap s)(0 \<mapsto> \<lparr>buf = [x], cap = k, closed = False\<rparr>), pool := [Produce (Some 0) (r),
          Tee_go (Some 0) (Some 1) (Some 2) (Tee_select (Some 3) v 1 None (Some 2)),
          Consume (Some 1) (outl),
          Consume (Some 2) (outr),
          OrDone_go (Some 0) (Some 3) (OrDone_select)]\<rparr>
          \<or> s' = s\<lparr>pool := [Produce (Some 0) (r),
          Tee_go (Some 0) (Some 1) (Some 2) (Tee_select (Some 3) v 1 None (Some 2)),
          Consume (Some 1) (outl),
          Consume (Some 2) (outr),
          OrDone_go (Some 0) (Some 3) (OrDone_forward x)]\<rparr>"
          using assms ldone select i4 by (auto simp: sched)
        then show ?thesis
        proof (elim disjE)
          assume "s' = s\<lparr>pool := [Produce (Some 0) (x # r),
          Tee_go (Some 0) (Some 1) (Some 2) (Tee_range (Some 3)),
          Consume (Some 1) (outl),
          Consume (Some 2) (outr @ [v]),
          OrDone_go (Some 0) (Some 3) (OrDone_select)]\<rparr>"
          then show ?thesis
            by (intro low[OF Tee_inv.teeing[where b = "[]" and pr = "Some (x # r)" and od = "Some (OrDone_select)"
                  and tpc = "Tee_range (Some 3)" and outl = "outl" and outr = "outr @ [v]"]])
              (use assms ldone select i4 in \<open>auto\<close>)
        next
          assume "s' = s\<lparr>heap := (heap s)(0 \<mapsto> \<lparr>buf = [x], cap = k, closed = False\<rparr>), pool := [Produce (Some 0) (r),
          Tee_go (Some 0) (Some 1) (Some 2) (Tee_select (Some 3) v 1 None (Some 2)),
          Consume (Some 1) (outl),
          Consume (Some 2) (outr),
          OrDone_go (Some 0) (Some 3) (OrDone_select)]\<rparr>"
          then show ?thesis
            by (intro low[OF Tee_inv.teeing[where b = "[x]" and pr = "Some (r)" and od = "Some (OrDone_select)"
                  and tpc = "Tee_select (Some 3) v 1 None (Some 2)" and outl = "outl" and outr = "outr"]])
              (use assms ldone select i4 in \<open>auto\<close>)
        next
          assume "s' = s\<lparr>pool := [Produce (Some 0) (r),
          Tee_go (Some 0) (Some 1) (Some 2) (Tee_select (Some 3) v 1 None (Some 2)),
          Consume (Some 1) (outl),
          Consume (Some 2) (outr),
          OrDone_go (Some 0) (Some 3) (OrDone_forward x)]\<rparr>"
          then show ?thesis
            by (intro low[OF Tee_inv.teeing[where b = "[]" and pr = "Some (r)" and od = "Some (OrDone_forward x)"
                  and tpc = "Tee_select (Some 3) v 1 None (Some 2)" and outl = "outl" and outr = "outr"]])
              (use assms ldone select i4 in \<open>auto\<close>)
        qed
      next
        case i5
        have "s' = s\<lparr>pool := [Produce (Some 0) (x # r),
          Tee_go (Some 0) (Some 1) (Some 2) (Tee_range (Some 3)),
          Consume (Some 1) (outl),
          Consume (Some 2) (outr @ [v]),
          OrDone_go (Some 0) (Some 3) (OrDone_select)]\<rparr>
          \<or> s' = s\<lparr>pool := [Produce (Some 0) (r),
          Tee_go (Some 0) (Some 1) (Some 2) (Tee_select (Some 3) v 1 None (Some 2)),
          Consume (Some 1) (outl),
          Consume (Some 2) (outr),
          OrDone_go (Some 0) (Some 3) (OrDone_forward x)]\<rparr>"
          using assms ldone select i5 by (auto simp: sched)
        then show ?thesis
        proof (elim disjE)
          assume "s' = s\<lparr>pool := [Produce (Some 0) (x # r),
          Tee_go (Some 0) (Some 1) (Some 2) (Tee_range (Some 3)),
          Consume (Some 1) (outl),
          Consume (Some 2) (outr @ [v]),
          OrDone_go (Some 0) (Some 3) (OrDone_select)]\<rparr>"
          then show ?thesis
            by (intro low[OF Tee_inv.teeing[where b = "[]" and pr = "Some (x # r)" and od = "Some (OrDone_select)"
                  and tpc = "Tee_range (Some 3)" and outl = "outl" and outr = "outr @ [v]"]])
              (use assms ldone select i5 in \<open>auto\<close>)
        next
          assume "s' = s\<lparr>pool := [Produce (Some 0) (r),
          Tee_go (Some 0) (Some 1) (Some 2) (Tee_select (Some 3) v 1 None (Some 2)),
          Consume (Some 1) (outl),
          Consume (Some 2) (outr),
          OrDone_go (Some 0) (Some 3) (OrDone_forward x)]\<rparr>"
          then show ?thesis
            by (intro low[OF Tee_inv.teeing[where b = "[]" and pr = "Some (r)" and od = "Some (OrDone_forward x)"
                  and tpc = "Tee_select (Some 3) v 1 None (Some 2)" and outl = "outl" and outr = "outr"]])
              (use assms ldone select i5 in \<open>auto\<close>)
        qed
      next
        case i6
        have "s' = s\<lparr>pool := [Produce (Some 0) (x # r),
          Tee_go (Some 0) (Some 1) (Some 2) (Tee_range (Some 3)),
          Consume (Some 1) (outl),
          Consume (Some 2) (outr @ [v]),
          OrDone_go (Some 0) (Some 3) (OrDone_select)]\<rparr>
          \<or> s' = s\<lparr>heap := (heap s)(0 \<mapsto> \<lparr>buf = u # b' @ [x], cap = k, closed = False\<rparr>), pool := [Produce (Some 0) (r),
          Tee_go (Some 0) (Some 1) (Some 2) (Tee_select (Some 3) v 1 None (Some 2)),
          Consume (Some 1) (outl),
          Consume (Some 2) (outr),
          OrDone_go (Some 0) (Some 3) (OrDone_select)]\<rparr>
          \<or> s' = s\<lparr>heap := (heap s)(0 \<mapsto> \<lparr>buf = b', cap = k, closed = False\<rparr>), pool := [Produce (Some 0) (x # r),
          Tee_go (Some 0) (Some 1) (Some 2) (Tee_select (Some 3) v 1 None (Some 2)),
          Consume (Some 1) (outl),
          Consume (Some 2) (outr),
          OrDone_go (Some 0) (Some 3) (OrDone_forward u)]\<rparr>"
          using assms ldone select i6 by (auto simp: sched)
        then show ?thesis
        proof (elim disjE)
          assume "s' = s\<lparr>pool := [Produce (Some 0) (x # r),
          Tee_go (Some 0) (Some 1) (Some 2) (Tee_range (Some 3)),
          Consume (Some 1) (outl),
          Consume (Some 2) (outr @ [v]),
          OrDone_go (Some 0) (Some 3) (OrDone_select)]\<rparr>"
          then show ?thesis
            by (intro low[OF Tee_inv.teeing[where b = "u # b'" and pr = "Some (x # r)" and od = "Some (OrDone_select)"
                  and tpc = "Tee_range (Some 3)" and outl = "outl" and outr = "outr @ [v]"]])
              (use assms ldone select i6 in \<open>auto\<close>)
        next
          assume "s' = s\<lparr>heap := (heap s)(0 \<mapsto> \<lparr>buf = u # b' @ [x], cap = k, closed = False\<rparr>), pool := [Produce (Some 0) (r),
          Tee_go (Some 0) (Some 1) (Some 2) (Tee_select (Some 3) v 1 None (Some 2)),
          Consume (Some 1) (outl),
          Consume (Some 2) (outr),
          OrDone_go (Some 0) (Some 3) (OrDone_select)]\<rparr>"
          then show ?thesis
            by (intro low[OF Tee_inv.teeing[where b = "u # b' @ [x]" and pr = "Some (r)" and od = "Some (OrDone_select)"
                  and tpc = "Tee_select (Some 3) v 1 None (Some 2)" and outl = "outl" and outr = "outr"]])
              (use assms ldone select i6 in \<open>auto\<close>)
        next
          assume "s' = s\<lparr>heap := (heap s)(0 \<mapsto> \<lparr>buf = b', cap = k, closed = False\<rparr>), pool := [Produce (Some 0) (x # r),
          Tee_go (Some 0) (Some 1) (Some 2) (Tee_select (Some 3) v 1 None (Some 2)),
          Consume (Some 1) (outl),
          Consume (Some 2) (outr),
          OrDone_go (Some 0) (Some 3) (OrDone_forward u)]\<rparr>"
          then show ?thesis
            by (intro low[OF Tee_inv.teeing[where b = "b'" and pr = "Some (x # r)" and od = "Some (OrDone_forward u)"
                  and tpc = "Tee_select (Some 3) v 1 None (Some 2)" and outl = "outl" and outr = "outr"]])
              (use assms ldone select i6 in \<open>auto\<close>)
        qed
      next
        case i7
        have "s' = s\<lparr>pool := [Produce (Some 0) (x # r),
          Tee_go (Some 0) (Some 1) (Some 2) (Tee_range (Some 3)),
          Consume (Some 1) (outl),
          Consume (Some 2) (outr @ [v]),
          OrDone_go (Some 0) (Some 3) (OrDone_select)]\<rparr>
          \<or> s' = s\<lparr>heap := (heap s)(0 \<mapsto> \<lparr>buf = b', cap = k, closed = False\<rparr>), pool := [Produce (Some 0) (x # r),
          Tee_go (Some 0) (Some 1) (Some 2) (Tee_select (Some 3) v 1 None (Some 2)),
          Consume (Some 1) (outl),
          Consume (Some 2) (outr),
          OrDone_go (Some 0) (Some 3) (OrDone_forward u)]\<rparr>"
          using assms ldone select i7 by (auto simp: sched)
        then show ?thesis
        proof (elim disjE)
          assume "s' = s\<lparr>pool := [Produce (Some 0) (x # r),
          Tee_go (Some 0) (Some 1) (Some 2) (Tee_range (Some 3)),
          Consume (Some 1) (outl),
          Consume (Some 2) (outr @ [v]),
          OrDone_go (Some 0) (Some 3) (OrDone_select)]\<rparr>"
          then show ?thesis
            by (intro low[OF Tee_inv.teeing[where b = "u # b'" and pr = "Some (x # r)" and od = "Some (OrDone_select)"
                  and tpc = "Tee_range (Some 3)" and outl = "outl" and outr = "outr @ [v]"]])
              (use assms ldone select i7 in \<open>auto\<close>)
        next
          assume "s' = s\<lparr>heap := (heap s)(0 \<mapsto> \<lparr>buf = b', cap = k, closed = False\<rparr>), pool := [Produce (Some 0) (x # r),
          Tee_go (Some 0) (Some 1) (Some 2) (Tee_select (Some 3) v 1 None (Some 2)),
          Consume (Some 1) (outl),
          Consume (Some 2) (outr),
          OrDone_go (Some 0) (Some 3) (OrDone_forward u)]\<rparr>"
          then show ?thesis
            by (intro low[OF Tee_inv.teeing[where b = "b'" and pr = "Some (x # r)" and od = "Some (OrDone_forward u)"
                  and tpc = "Tee_select (Some 3) v 1 None (Some 2)" and outl = "outl" and outr = "outr"]])
              (use assms ldone select i7 in \<open>auto\<close>)
        qed
      qed
    next
      case forward
      consider (i0) "pr = None" "b = []"
        | (i1) u b' where "pr = None" "b = u # b'"
        | (i2) "pr = Some []" "b = []"
        | (i3) u b' where "pr = Some []" "b = u # b'"
        | (i4) x r where "pr = Some (x # r)" "b = []" "length b < k"
        | (i5) x r where "pr = Some (x # r)" "b = []" "\<not> length b < k"
        | (i6) x r u b' where "pr = Some (x # r)" "b = u # b'" "length b < k"
        | (i7) x r u b' where "pr = Some (x # r)" "b = u # b'" "\<not> length b < k"
        by (cases pr rule: pr_rank.cases; cases b; cases "length b < k") auto
      then show ?thesis
      proof cases
        case i0
        have s1: "s' = s\<lparr>pool := [Tee_go (Some 0) (Some 1) (Some 2) (Tee_range (Some 3)),
          Consume (Some 1) (outl),
          Consume (Some 2) (outr @ [v]),
          OrDone_go (Some 0) (Some 3) (OrDone_forward w)]\<rparr>"
          using assms ldone forward i0 by (auto simp: sched)
        show ?thesis
          by (intro low[OF Tee_inv.teeing[where b = "[]" and pr = "None" and od = "Some (OrDone_forward w)"
                  and tpc = "Tee_range (Some 3)" and outl = "outl" and outr = "outr @ [v]"]])
            (use s1 assms ldone forward i0 in \<open>auto\<close>)
      next
        case i1
        have s1: "s' = s\<lparr>pool := [Tee_go (Some 0) (Some 1) (Some 2) (Tee_range (Some 3)),
          Consume (Some 1) (outl),
          Consume (Some 2) (outr @ [v]),
          OrDone_go (Some 0) (Some 3) (OrDone_forward w)]\<rparr>"
          using assms ldone forward i1 by (auto simp: sched)
        show ?thesis
          by (intro low[OF Tee_inv.teeing[where b = "u # b'" and pr = "None" and od = "Some (OrDone_forward w)"
                  and tpc = "Tee_range (Some 3)" and outl = "outl" and outr = "outr @ [v]"]])
            (use s1 assms ldone forward i1 in \<open>auto\<close>)
      next
        case i2
        have "s' = s\<lparr>pool := [Produce (Some 0) ([]),
          Tee_go (Some 0) (Some 1) (Some 2) (Tee_range (Some 3)),
          Consume (Some 1) (outl),
          Consume (Some 2) (outr @ [v]),
          OrDone_go (Some 0) (Some 3) (OrDone_forward w)]\<rparr>
          \<or> s' = s\<lparr>heap := (heap s)(0 \<mapsto> \<lparr>buf = [], cap = k, closed = True\<rparr>), pool := [Tee_go (Some 0) (Some 1) (Some 2) (Tee_select (Some 3) v 1 None (Some 2)),
          Consume (Some 1) (outl),
          Consume (Some 2) (outr),
          OrDone_go (Some 0) (Some 3) (OrDone_forward w)]\<rparr>"
          using assms ldone forward i2 by (auto simp: sched)
        then show ?thesis
        proof (elim disjE)
          assume "s' = s\<lparr>pool := [Produce (Some 0) ([]),
          Tee_go (Some 0) (Some 1) (Some 2) (Tee_range (Some 3)),
          Consume (Some 1) (outl),
          Consume (Some 2) (outr @ [v]),
          OrDone_go (Some 0) (Some 3) (OrDone_forward w)]\<rparr>"
          then show ?thesis
            by (intro low[OF Tee_inv.teeing[where b = "[]" and pr = "Some ([])" and od = "Some (OrDone_forward w)"
                  and tpc = "Tee_range (Some 3)" and outl = "outl" and outr = "outr @ [v]"]])
              (use assms ldone forward i2 in \<open>auto\<close>)
        next
          assume "s' = s\<lparr>heap := (heap s)(0 \<mapsto> \<lparr>buf = [], cap = k, closed = True\<rparr>), pool := [Tee_go (Some 0) (Some 1) (Some 2) (Tee_select (Some 3) v 1 None (Some 2)),
          Consume (Some 1) (outl),
          Consume (Some 2) (outr),
          OrDone_go (Some 0) (Some 3) (OrDone_forward w)]\<rparr>"
          then show ?thesis
            by (intro low[OF Tee_inv.teeing[where b = "[]" and pr = "None" and od = "Some (OrDone_forward w)"
                  and tpc = "Tee_select (Some 3) v 1 None (Some 2)" and outl = "outl" and outr = "outr"]])
              (use assms ldone forward i2 in \<open>auto\<close>)
        qed
      next
        case i3
        have "s' = s\<lparr>pool := [Produce (Some 0) ([]),
          Tee_go (Some 0) (Some 1) (Some 2) (Tee_range (Some 3)),
          Consume (Some 1) (outl),
          Consume (Some 2) (outr @ [v]),
          OrDone_go (Some 0) (Some 3) (OrDone_forward w)]\<rparr>
          \<or> s' = s\<lparr>heap := (heap s)(0 \<mapsto> \<lparr>buf = u # b', cap = k, closed = True\<rparr>), pool := [Tee_go (Some 0) (Some 1) (Some 2) (Tee_select (Some 3) v 1 None (Some 2)),
          Consume (Some 1) (outl),
          Consume (Some 2) (outr),
          OrDone_go (Some 0) (Some 3) (OrDone_forward w)]\<rparr>"
          using assms ldone forward i3 by (auto simp: sched)
        then show ?thesis
        proof (elim disjE)
          assume "s' = s\<lparr>pool := [Produce (Some 0) ([]),
          Tee_go (Some 0) (Some 1) (Some 2) (Tee_range (Some 3)),
          Consume (Some 1) (outl),
          Consume (Some 2) (outr @ [v]),
          OrDone_go (Some 0) (Some 3) (OrDone_forward w)]\<rparr>"
          then show ?thesis
            by (intro low[OF Tee_inv.teeing[where b = "u # b'" and pr = "Some ([])" and od = "Some (OrDone_forward w)"
                  and tpc = "Tee_range (Some 3)" and outl = "outl" and outr = "outr @ [v]"]])
              (use assms ldone forward i3 in \<open>auto\<close>)
        next
          assume "s' = s\<lparr>heap := (heap s)(0 \<mapsto> \<lparr>buf = u # b', cap = k, closed = True\<rparr>), pool := [Tee_go (Some 0) (Some 1) (Some 2) (Tee_select (Some 3) v 1 None (Some 2)),
          Consume (Some 1) (outl),
          Consume (Some 2) (outr),
          OrDone_go (Some 0) (Some 3) (OrDone_forward w)]\<rparr>"
          then show ?thesis
            by (intro low[OF Tee_inv.teeing[where b = "u # b'" and pr = "None" and od = "Some (OrDone_forward w)"
                  and tpc = "Tee_select (Some 3) v 1 None (Some 2)" and outl = "outl" and outr = "outr"]])
              (use assms ldone forward i3 in \<open>auto\<close>)
        qed
      next
        case i4
        have "s' = s\<lparr>pool := [Produce (Some 0) (x # r),
          Tee_go (Some 0) (Some 1) (Some 2) (Tee_range (Some 3)),
          Consume (Some 1) (outl),
          Consume (Some 2) (outr @ [v]),
          OrDone_go (Some 0) (Some 3) (OrDone_forward w)]\<rparr>
          \<or> s' = s\<lparr>heap := (heap s)(0 \<mapsto> \<lparr>buf = [x], cap = k, closed = False\<rparr>), pool := [Produce (Some 0) (r),
          Tee_go (Some 0) (Some 1) (Some 2) (Tee_select (Some 3) v 1 None (Some 2)),
          Consume (Some 1) (outl),
          Consume (Some 2) (outr),
          OrDone_go (Some 0) (Some 3) (OrDone_forward w)]\<rparr>"
          using assms ldone forward i4 by (auto simp: sched)
        then show ?thesis
        proof (elim disjE)
          assume "s' = s\<lparr>pool := [Produce (Some 0) (x # r),
          Tee_go (Some 0) (Some 1) (Some 2) (Tee_range (Some 3)),
          Consume (Some 1) (outl),
          Consume (Some 2) (outr @ [v]),
          OrDone_go (Some 0) (Some 3) (OrDone_forward w)]\<rparr>"
          then show ?thesis
            by (intro low[OF Tee_inv.teeing[where b = "[]" and pr = "Some (x # r)" and od = "Some (OrDone_forward w)"
                  and tpc = "Tee_range (Some 3)" and outl = "outl" and outr = "outr @ [v]"]])
              (use assms ldone forward i4 in \<open>auto\<close>)
        next
          assume "s' = s\<lparr>heap := (heap s)(0 \<mapsto> \<lparr>buf = [x], cap = k, closed = False\<rparr>), pool := [Produce (Some 0) (r),
          Tee_go (Some 0) (Some 1) (Some 2) (Tee_select (Some 3) v 1 None (Some 2)),
          Consume (Some 1) (outl),
          Consume (Some 2) (outr),
          OrDone_go (Some 0) (Some 3) (OrDone_forward w)]\<rparr>"
          then show ?thesis
            by (intro low[OF Tee_inv.teeing[where b = "[x]" and pr = "Some (r)" and od = "Some (OrDone_forward w)"
                  and tpc = "Tee_select (Some 3) v 1 None (Some 2)" and outl = "outl" and outr = "outr"]])
              (use assms ldone forward i4 in \<open>auto\<close>)
        qed
      next
        case i5
        have s1: "s' = s\<lparr>pool := [Produce (Some 0) (x # r),
          Tee_go (Some 0) (Some 1) (Some 2) (Tee_range (Some 3)),
          Consume (Some 1) (outl),
          Consume (Some 2) (outr @ [v]),
          OrDone_go (Some 0) (Some 3) (OrDone_forward w)]\<rparr>"
          using assms ldone forward i5 by (auto simp: sched)
        show ?thesis
          by (intro low[OF Tee_inv.teeing[where b = "[]" and pr = "Some (x # r)" and od = "Some (OrDone_forward w)"
                  and tpc = "Tee_range (Some 3)" and outl = "outl" and outr = "outr @ [v]"]])
            (use s1 assms ldone forward i5 in \<open>auto\<close>)
      next
        case i6
        have "s' = s\<lparr>pool := [Produce (Some 0) (x # r),
          Tee_go (Some 0) (Some 1) (Some 2) (Tee_range (Some 3)),
          Consume (Some 1) (outl),
          Consume (Some 2) (outr @ [v]),
          OrDone_go (Some 0) (Some 3) (OrDone_forward w)]\<rparr>
          \<or> s' = s\<lparr>heap := (heap s)(0 \<mapsto> \<lparr>buf = u # b' @ [x], cap = k, closed = False\<rparr>), pool := [Produce (Some 0) (r),
          Tee_go (Some 0) (Some 1) (Some 2) (Tee_select (Some 3) v 1 None (Some 2)),
          Consume (Some 1) (outl),
          Consume (Some 2) (outr),
          OrDone_go (Some 0) (Some 3) (OrDone_forward w)]\<rparr>"
          using assms ldone forward i6 by (auto simp: sched)
        then show ?thesis
        proof (elim disjE)
          assume "s' = s\<lparr>pool := [Produce (Some 0) (x # r),
          Tee_go (Some 0) (Some 1) (Some 2) (Tee_range (Some 3)),
          Consume (Some 1) (outl),
          Consume (Some 2) (outr @ [v]),
          OrDone_go (Some 0) (Some 3) (OrDone_forward w)]\<rparr>"
          then show ?thesis
            by (intro low[OF Tee_inv.teeing[where b = "u # b'" and pr = "Some (x # r)" and od = "Some (OrDone_forward w)"
                  and tpc = "Tee_range (Some 3)" and outl = "outl" and outr = "outr @ [v]"]])
              (use assms ldone forward i6 in \<open>auto\<close>)
        next
          assume "s' = s\<lparr>heap := (heap s)(0 \<mapsto> \<lparr>buf = u # b' @ [x], cap = k, closed = False\<rparr>), pool := [Produce (Some 0) (r),
          Tee_go (Some 0) (Some 1) (Some 2) (Tee_select (Some 3) v 1 None (Some 2)),
          Consume (Some 1) (outl),
          Consume (Some 2) (outr),
          OrDone_go (Some 0) (Some 3) (OrDone_forward w)]\<rparr>"
          then show ?thesis
            by (intro low[OF Tee_inv.teeing[where b = "u # b' @ [x]" and pr = "Some (r)" and od = "Some (OrDone_forward w)"
                  and tpc = "Tee_select (Some 3) v 1 None (Some 2)" and outl = "outl" and outr = "outr"]])
              (use assms ldone forward i6 in \<open>auto\<close>)
        qed
      next
        case i7
        have s1: "s' = s\<lparr>pool := [Produce (Some 0) (x # r),
          Tee_go (Some 0) (Some 1) (Some 2) (Tee_range (Some 3)),
          Consume (Some 1) (outl),
          Consume (Some 2) (outr @ [v]),
          OrDone_go (Some 0) (Some 3) (OrDone_forward w)]\<rparr>"
          using assms ldone forward i7 by (auto simp: sched)
        show ?thesis
          by (intro low[OF Tee_inv.teeing[where b = "u # b'" and pr = "Some (x # r)" and od = "Some (OrDone_forward w)"
                  and tpc = "Tee_range (Some 3)" and outl = "outl" and outr = "outr @ [v]"]])
            (use s1 assms ldone forward i7 in \<open>auto\<close>)
      qed
    next
      case return
      consider (ia) "pr = None" "b = []"
        using assms(7,8) return by auto
      then show ?thesis
      proof cases
        case ia
        have "s' = s\<lparr>pool := [Tee_go (Some 0) (Some 1) (Some 2) (Tee_range (Some 3)),
          Consume (Some 1) (outl),
          Consume (Some 2) (outr @ [v]),
          OrDone_go (Some 0) (Some 3) (OrDone_return)]\<rparr>
          \<or> s' = s\<lparr>heap := (heap s)(3 \<mapsto> \<lparr>buf = [], cap = 0, closed = True\<rparr>), pool := [Tee_go (Some 0) (Some 1) (Some 2) (Tee_select (Some 3) v 1 None (Some 2)),
          Consume (Some 1) (outl),
          Consume (Some 2) (outr)]\<rparr>"
          using assms ldone return ia by (auto simp: sched)
        then show ?thesis
        proof (elim disjE)
          assume "s' = s\<lparr>pool := [Tee_go (Some 0) (Some 1) (Some 2) (Tee_range (Some 3)),
          Consume (Some 1) (outl),
          Consume (Some 2) (outr @ [v]),
          OrDone_go (Some 0) (Some 3) (OrDone_return)]\<rparr>"
          then show ?thesis
            by (intro low[OF Tee_inv.teeing[where b = "[]" and pr = "None" and od = "Some (OrDone_return)"
                  and tpc = "Tee_range (Some 3)" and outl = "outl" and outr = "outr @ [v]"]])
              (use assms ldone return ia in \<open>auto\<close>)
        next
          assume "s' = s\<lparr>heap := (heap s)(3 \<mapsto> \<lparr>buf = [], cap = 0, closed = True\<rparr>), pool := [Tee_go (Some 0) (Some 1) (Some 2) (Tee_select (Some 3) v 1 None (Some 2)),
          Consume (Some 1) (outl),
          Consume (Some 2) (outr)]\<rparr>"
          then show ?thesis
            by (intro low[OF Tee_inv.teeing[where b = "[]" and pr = "None" and od = "None"
                  and tpc = "Tee_select (Some 3) v 1 None (Some 2)" and outl = "outl" and outr = "outr"]])
              (use assms ldone return ia in \<open>auto\<close>)
        qed
      qed
    qed
  next
    case rdone
    consider (gone) "od = None" | (select) "od = Some OrDone_select"
      | (forward) w where "od = Some (OrDone_forward w)" | (return) "od = Some OrDone_return"
      by (cases od rule: od_rank.cases) auto
    then show ?thesis
    proof cases
      case gone
      consider (ia) "pr = None" "b = []"
        using assms(7,8) gone by auto
      then show ?thesis
      proof cases
        case ia
        have s1: "s' = s\<lparr>pool := [Tee_go (Some 0) (Some 1) (Some 2) (Tee_range (Some 3)),
          Consume (Some 1) (outl @ [v]),
          Consume (Some 2) (outr)]\<rparr>"
          using assms rdone gone ia by (auto simp: sched)
        show ?thesis
          by (intro low[OF Tee_inv.teeing[where b = "[]" and pr = "None" and od = "None"
                  and tpc = "Tee_range (Some 3)" and outl = "outl @ [v]" and outr = "outr"]])
            (use s1 assms rdone gone ia in \<open>auto\<close>)
      qed
    next
      case select
      consider (i0) "pr = None" "b = []"
        | (i1) u b' where "pr = None" "b = u # b'"
        | (i2) "pr = Some []" "b = []"
        | (i3) u b' where "pr = Some []" "b = u # b'"
        | (i4) x r where "pr = Some (x # r)" "b = []" "length b < k"
        | (i5) x r where "pr = Some (x # r)" "b = []" "\<not> length b < k"
        | (i6) x r u b' where "pr = Some (x # r)" "b = u # b'" "length b < k"
        | (i7) x r u b' where "pr = Some (x # r)" "b = u # b'" "\<not> length b < k"
        by (cases pr rule: pr_rank.cases; cases b; cases "length b < k") auto
      then show ?thesis
      proof cases
        case i0
        have "s' = s\<lparr>pool := [Tee_go (Some 0) (Some 1) (Some 2) (Tee_range (Some 3)),
          Consume (Some 1) (outl @ [v]),
          Consume (Some 2) (outr),
          OrDone_go (Some 0) (Some 3) (OrDone_select)]\<rparr>
          \<or> s' = s\<lparr>pool := [Tee_go (Some 0) (Some 1) (Some 2) (Tee_select (Some 3) v 1 (Some 1) None),
          Consume (Some 1) (outl),
          Consume (Some 2) (outr),
          OrDone_go (Some 0) (Some 3) (OrDone_return)]\<rparr>"
          using assms rdone select i0 by (auto simp: sched)
        then show ?thesis
        proof (elim disjE)
          assume "s' = s\<lparr>pool := [Tee_go (Some 0) (Some 1) (Some 2) (Tee_range (Some 3)),
          Consume (Some 1) (outl @ [v]),
          Consume (Some 2) (outr),
          OrDone_go (Some 0) (Some 3) (OrDone_select)]\<rparr>"
          then show ?thesis
            by (intro low[OF Tee_inv.teeing[where b = "[]" and pr = "None" and od = "Some (OrDone_select)"
                  and tpc = "Tee_range (Some 3)" and outl = "outl @ [v]" and outr = "outr"]])
              (use assms rdone select i0 in \<open>auto\<close>)
        next
          assume "s' = s\<lparr>pool := [Tee_go (Some 0) (Some 1) (Some 2) (Tee_select (Some 3) v 1 (Some 1) None),
          Consume (Some 1) (outl),
          Consume (Some 2) (outr),
          OrDone_go (Some 0) (Some 3) (OrDone_return)]\<rparr>"
          then show ?thesis
            by (intro low[OF Tee_inv.teeing[where b = "[]" and pr = "None" and od = "Some (OrDone_return)"
                  and tpc = "Tee_select (Some 3) v 1 (Some 1) None" and outl = "outl" and outr = "outr"]])
              (use assms rdone select i0 in \<open>auto\<close>)
        qed
      next
        case i1
        have "s' = s\<lparr>pool := [Tee_go (Some 0) (Some 1) (Some 2) (Tee_range (Some 3)),
          Consume (Some 1) (outl @ [v]),
          Consume (Some 2) (outr),
          OrDone_go (Some 0) (Some 3) (OrDone_select)]\<rparr>
          \<or> s' = s\<lparr>heap := (heap s)(0 \<mapsto> \<lparr>buf = b', cap = k, closed = True\<rparr>), pool := [Tee_go (Some 0) (Some 1) (Some 2) (Tee_select (Some 3) v 1 (Some 1) None),
          Consume (Some 1) (outl),
          Consume (Some 2) (outr),
          OrDone_go (Some 0) (Some 3) (OrDone_forward u)]\<rparr>"
          using assms rdone select i1 by (auto simp: sched)
        then show ?thesis
        proof (elim disjE)
          assume "s' = s\<lparr>pool := [Tee_go (Some 0) (Some 1) (Some 2) (Tee_range (Some 3)),
          Consume (Some 1) (outl @ [v]),
          Consume (Some 2) (outr),
          OrDone_go (Some 0) (Some 3) (OrDone_select)]\<rparr>"
          then show ?thesis
            by (intro low[OF Tee_inv.teeing[where b = "u # b'" and pr = "None" and od = "Some (OrDone_select)"
                  and tpc = "Tee_range (Some 3)" and outl = "outl @ [v]" and outr = "outr"]])
              (use assms rdone select i1 in \<open>auto\<close>)
        next
          assume "s' = s\<lparr>heap := (heap s)(0 \<mapsto> \<lparr>buf = b', cap = k, closed = True\<rparr>), pool := [Tee_go (Some 0) (Some 1) (Some 2) (Tee_select (Some 3) v 1 (Some 1) None),
          Consume (Some 1) (outl),
          Consume (Some 2) (outr),
          OrDone_go (Some 0) (Some 3) (OrDone_forward u)]\<rparr>"
          then show ?thesis
            by (intro low[OF Tee_inv.teeing[where b = "b'" and pr = "None" and od = "Some (OrDone_forward u)"
                  and tpc = "Tee_select (Some 3) v 1 (Some 1) None" and outl = "outl" and outr = "outr"]])
              (use assms rdone select i1 in \<open>auto\<close>)
        qed
      next
        case i2
        have "s' = s\<lparr>pool := [Produce (Some 0) ([]),
          Tee_go (Some 0) (Some 1) (Some 2) (Tee_range (Some 3)),
          Consume (Some 1) (outl @ [v]),
          Consume (Some 2) (outr),
          OrDone_go (Some 0) (Some 3) (OrDone_select)]\<rparr>
          \<or> s' = s\<lparr>heap := (heap s)(0 \<mapsto> \<lparr>buf = [], cap = k, closed = True\<rparr>), pool := [Tee_go (Some 0) (Some 1) (Some 2) (Tee_select (Some 3) v 1 (Some 1) None),
          Consume (Some 1) (outl),
          Consume (Some 2) (outr),
          OrDone_go (Some 0) (Some 3) (OrDone_select)]\<rparr>"
          using assms rdone select i2 by (auto simp: sched)
        then show ?thesis
        proof (elim disjE)
          assume "s' = s\<lparr>pool := [Produce (Some 0) ([]),
          Tee_go (Some 0) (Some 1) (Some 2) (Tee_range (Some 3)),
          Consume (Some 1) (outl @ [v]),
          Consume (Some 2) (outr),
          OrDone_go (Some 0) (Some 3) (OrDone_select)]\<rparr>"
          then show ?thesis
            by (intro low[OF Tee_inv.teeing[where b = "[]" and pr = "Some ([])" and od = "Some (OrDone_select)"
                  and tpc = "Tee_range (Some 3)" and outl = "outl @ [v]" and outr = "outr"]])
              (use assms rdone select i2 in \<open>auto\<close>)
        next
          assume "s' = s\<lparr>heap := (heap s)(0 \<mapsto> \<lparr>buf = [], cap = k, closed = True\<rparr>), pool := [Tee_go (Some 0) (Some 1) (Some 2) (Tee_select (Some 3) v 1 (Some 1) None),
          Consume (Some 1) (outl),
          Consume (Some 2) (outr),
          OrDone_go (Some 0) (Some 3) (OrDone_select)]\<rparr>"
          then show ?thesis
            by (intro low[OF Tee_inv.teeing[where b = "[]" and pr = "None" and od = "Some (OrDone_select)"
                  and tpc = "Tee_select (Some 3) v 1 (Some 1) None" and outl = "outl" and outr = "outr"]])
              (use assms rdone select i2 in \<open>auto\<close>)
        qed
      next
        case i3
        have "s' = s\<lparr>pool := [Produce (Some 0) ([]),
          Tee_go (Some 0) (Some 1) (Some 2) (Tee_range (Some 3)),
          Consume (Some 1) (outl @ [v]),
          Consume (Some 2) (outr),
          OrDone_go (Some 0) (Some 3) (OrDone_select)]\<rparr>
          \<or> s' = s\<lparr>heap := (heap s)(0 \<mapsto> \<lparr>buf = u # b', cap = k, closed = True\<rparr>), pool := [Tee_go (Some 0) (Some 1) (Some 2) (Tee_select (Some 3) v 1 (Some 1) None),
          Consume (Some 1) (outl),
          Consume (Some 2) (outr),
          OrDone_go (Some 0) (Some 3) (OrDone_select)]\<rparr>
          \<or> s' = s\<lparr>heap := (heap s)(0 \<mapsto> \<lparr>buf = b', cap = k, closed = False\<rparr>), pool := [Produce (Some 0) ([]),
          Tee_go (Some 0) (Some 1) (Some 2) (Tee_select (Some 3) v 1 (Some 1) None),
          Consume (Some 1) (outl),
          Consume (Some 2) (outr),
          OrDone_go (Some 0) (Some 3) (OrDone_forward u)]\<rparr>"
          using assms rdone select i3 by (auto simp: sched)
        then show ?thesis
        proof (elim disjE)
          assume "s' = s\<lparr>pool := [Produce (Some 0) ([]),
          Tee_go (Some 0) (Some 1) (Some 2) (Tee_range (Some 3)),
          Consume (Some 1) (outl @ [v]),
          Consume (Some 2) (outr),
          OrDone_go (Some 0) (Some 3) (OrDone_select)]\<rparr>"
          then show ?thesis
            by (intro low[OF Tee_inv.teeing[where b = "u # b'" and pr = "Some ([])" and od = "Some (OrDone_select)"
                  and tpc = "Tee_range (Some 3)" and outl = "outl @ [v]" and outr = "outr"]])
              (use assms rdone select i3 in \<open>auto\<close>)
        next
          assume "s' = s\<lparr>heap := (heap s)(0 \<mapsto> \<lparr>buf = u # b', cap = k, closed = True\<rparr>), pool := [Tee_go (Some 0) (Some 1) (Some 2) (Tee_select (Some 3) v 1 (Some 1) None),
          Consume (Some 1) (outl),
          Consume (Some 2) (outr),
          OrDone_go (Some 0) (Some 3) (OrDone_select)]\<rparr>"
          then show ?thesis
            by (intro low[OF Tee_inv.teeing[where b = "u # b'" and pr = "None" and od = "Some (OrDone_select)"
                  and tpc = "Tee_select (Some 3) v 1 (Some 1) None" and outl = "outl" and outr = "outr"]])
              (use assms rdone select i3 in \<open>auto\<close>)
        next
          assume "s' = s\<lparr>heap := (heap s)(0 \<mapsto> \<lparr>buf = b', cap = k, closed = False\<rparr>), pool := [Produce (Some 0) ([]),
          Tee_go (Some 0) (Some 1) (Some 2) (Tee_select (Some 3) v 1 (Some 1) None),
          Consume (Some 1) (outl),
          Consume (Some 2) (outr),
          OrDone_go (Some 0) (Some 3) (OrDone_forward u)]\<rparr>"
          then show ?thesis
            by (intro low[OF Tee_inv.teeing[where b = "b'" and pr = "Some ([])" and od = "Some (OrDone_forward u)"
                  and tpc = "Tee_select (Some 3) v 1 (Some 1) None" and outl = "outl" and outr = "outr"]])
              (use assms rdone select i3 in \<open>auto\<close>)
        qed
      next
        case i4
        have "s' = s\<lparr>pool := [Produce (Some 0) (x # r),
          Tee_go (Some 0) (Some 1) (Some 2) (Tee_range (Some 3)),
          Consume (Some 1) (outl @ [v]),
          Consume (Some 2) (outr),
          OrDone_go (Some 0) (Some 3) (OrDone_select)]\<rparr>
          \<or> s' = s\<lparr>heap := (heap s)(0 \<mapsto> \<lparr>buf = [x], cap = k, closed = False\<rparr>), pool := [Produce (Some 0) (r),
          Tee_go (Some 0) (Some 1) (Some 2) (Tee_select (Some 3) v 1 (Some 1) None),
          Consume (Some 1) (outl),
          Consume (Some 2) (outr),
          OrDone_go (Some 0) (Some 3) (OrDone_select)]\<rparr>
          \<or> s' = s\<lparr>pool := [Produce (Some 0) (r),
          Tee_go (Some 0) (Some 1) (Some 2) (Tee_select (Some 3) v 1 (Some 1) None),
          Consume (Some 1) (outl),
          Consume (Some 2) (outr),
          OrDone_go (Some 0) (Some 3) (OrDone_forward x)]\<rparr>"
          using assms rdone select i4 by (auto simp: sched)
        then show ?thesis
        proof (elim disjE)
          assume "s' = s\<lparr>pool := [Produce (Some 0) (x # r),
          Tee_go (Some 0) (Some 1) (Some 2) (Tee_range (Some 3)),
          Consume (Some 1) (outl @ [v]),
          Consume (Some 2) (outr),
          OrDone_go (Some 0) (Some 3) (OrDone_select)]\<rparr>"
          then show ?thesis
            by (intro low[OF Tee_inv.teeing[where b = "[]" and pr = "Some (x # r)" and od = "Some (OrDone_select)"
                  and tpc = "Tee_range (Some 3)" and outl = "outl @ [v]" and outr = "outr"]])
              (use assms rdone select i4 in \<open>auto\<close>)
        next
          assume "s' = s\<lparr>heap := (heap s)(0 \<mapsto> \<lparr>buf = [x], cap = k, closed = False\<rparr>), pool := [Produce (Some 0) (r),
          Tee_go (Some 0) (Some 1) (Some 2) (Tee_select (Some 3) v 1 (Some 1) None),
          Consume (Some 1) (outl),
          Consume (Some 2) (outr),
          OrDone_go (Some 0) (Some 3) (OrDone_select)]\<rparr>"
          then show ?thesis
            by (intro low[OF Tee_inv.teeing[where b = "[x]" and pr = "Some (r)" and od = "Some (OrDone_select)"
                  and tpc = "Tee_select (Some 3) v 1 (Some 1) None" and outl = "outl" and outr = "outr"]])
              (use assms rdone select i4 in \<open>auto\<close>)
        next
          assume "s' = s\<lparr>pool := [Produce (Some 0) (r),
          Tee_go (Some 0) (Some 1) (Some 2) (Tee_select (Some 3) v 1 (Some 1) None),
          Consume (Some 1) (outl),
          Consume (Some 2) (outr),
          OrDone_go (Some 0) (Some 3) (OrDone_forward x)]\<rparr>"
          then show ?thesis
            by (intro low[OF Tee_inv.teeing[where b = "[]" and pr = "Some (r)" and od = "Some (OrDone_forward x)"
                  and tpc = "Tee_select (Some 3) v 1 (Some 1) None" and outl = "outl" and outr = "outr"]])
              (use assms rdone select i4 in \<open>auto\<close>)
        qed
      next
        case i5
        have "s' = s\<lparr>pool := [Produce (Some 0) (x # r),
          Tee_go (Some 0) (Some 1) (Some 2) (Tee_range (Some 3)),
          Consume (Some 1) (outl @ [v]),
          Consume (Some 2) (outr),
          OrDone_go (Some 0) (Some 3) (OrDone_select)]\<rparr>
          \<or> s' = s\<lparr>pool := [Produce (Some 0) (r),
          Tee_go (Some 0) (Some 1) (Some 2) (Tee_select (Some 3) v 1 (Some 1) None),
          Consume (Some 1) (outl),
          Consume (Some 2) (outr),
          OrDone_go (Some 0) (Some 3) (OrDone_forward x)]\<rparr>"
          using assms rdone select i5 by (auto simp: sched)
        then show ?thesis
        proof (elim disjE)
          assume "s' = s\<lparr>pool := [Produce (Some 0) (x # r),
          Tee_go (Some 0) (Some 1) (Some 2) (Tee_range (Some 3)),
          Consume (Some 1) (outl @ [v]),
          Consume (Some 2) (outr),
          OrDone_go (Some 0) (Some 3) (OrDone_select)]\<rparr>"
          then show ?thesis
            by (intro low[OF Tee_inv.teeing[where b = "[]" and pr = "Some (x # r)" and od = "Some (OrDone_select)"
                  and tpc = "Tee_range (Some 3)" and outl = "outl @ [v]" and outr = "outr"]])
              (use assms rdone select i5 in \<open>auto\<close>)
        next
          assume "s' = s\<lparr>pool := [Produce (Some 0) (r),
          Tee_go (Some 0) (Some 1) (Some 2) (Tee_select (Some 3) v 1 (Some 1) None),
          Consume (Some 1) (outl),
          Consume (Some 2) (outr),
          OrDone_go (Some 0) (Some 3) (OrDone_forward x)]\<rparr>"
          then show ?thesis
            by (intro low[OF Tee_inv.teeing[where b = "[]" and pr = "Some (r)" and od = "Some (OrDone_forward x)"
                  and tpc = "Tee_select (Some 3) v 1 (Some 1) None" and outl = "outl" and outr = "outr"]])
              (use assms rdone select i5 in \<open>auto\<close>)
        qed
      next
        case i6
        have "s' = s\<lparr>pool := [Produce (Some 0) (x # r),
          Tee_go (Some 0) (Some 1) (Some 2) (Tee_range (Some 3)),
          Consume (Some 1) (outl @ [v]),
          Consume (Some 2) (outr),
          OrDone_go (Some 0) (Some 3) (OrDone_select)]\<rparr>
          \<or> s' = s\<lparr>heap := (heap s)(0 \<mapsto> \<lparr>buf = u # b' @ [x], cap = k, closed = False\<rparr>), pool := [Produce (Some 0) (r),
          Tee_go (Some 0) (Some 1) (Some 2) (Tee_select (Some 3) v 1 (Some 1) None),
          Consume (Some 1) (outl),
          Consume (Some 2) (outr),
          OrDone_go (Some 0) (Some 3) (OrDone_select)]\<rparr>
          \<or> s' = s\<lparr>heap := (heap s)(0 \<mapsto> \<lparr>buf = b', cap = k, closed = False\<rparr>), pool := [Produce (Some 0) (x # r),
          Tee_go (Some 0) (Some 1) (Some 2) (Tee_select (Some 3) v 1 (Some 1) None),
          Consume (Some 1) (outl),
          Consume (Some 2) (outr),
          OrDone_go (Some 0) (Some 3) (OrDone_forward u)]\<rparr>"
          using assms rdone select i6 by (auto simp: sched)
        then show ?thesis
        proof (elim disjE)
          assume "s' = s\<lparr>pool := [Produce (Some 0) (x # r),
          Tee_go (Some 0) (Some 1) (Some 2) (Tee_range (Some 3)),
          Consume (Some 1) (outl @ [v]),
          Consume (Some 2) (outr),
          OrDone_go (Some 0) (Some 3) (OrDone_select)]\<rparr>"
          then show ?thesis
            by (intro low[OF Tee_inv.teeing[where b = "u # b'" and pr = "Some (x # r)" and od = "Some (OrDone_select)"
                  and tpc = "Tee_range (Some 3)" and outl = "outl @ [v]" and outr = "outr"]])
              (use assms rdone select i6 in \<open>auto\<close>)
        next
          assume "s' = s\<lparr>heap := (heap s)(0 \<mapsto> \<lparr>buf = u # b' @ [x], cap = k, closed = False\<rparr>), pool := [Produce (Some 0) (r),
          Tee_go (Some 0) (Some 1) (Some 2) (Tee_select (Some 3) v 1 (Some 1) None),
          Consume (Some 1) (outl),
          Consume (Some 2) (outr),
          OrDone_go (Some 0) (Some 3) (OrDone_select)]\<rparr>"
          then show ?thesis
            by (intro low[OF Tee_inv.teeing[where b = "u # b' @ [x]" and pr = "Some (r)" and od = "Some (OrDone_select)"
                  and tpc = "Tee_select (Some 3) v 1 (Some 1) None" and outl = "outl" and outr = "outr"]])
              (use assms rdone select i6 in \<open>auto\<close>)
        next
          assume "s' = s\<lparr>heap := (heap s)(0 \<mapsto> \<lparr>buf = b', cap = k, closed = False\<rparr>), pool := [Produce (Some 0) (x # r),
          Tee_go (Some 0) (Some 1) (Some 2) (Tee_select (Some 3) v 1 (Some 1) None),
          Consume (Some 1) (outl),
          Consume (Some 2) (outr),
          OrDone_go (Some 0) (Some 3) (OrDone_forward u)]\<rparr>"
          then show ?thesis
            by (intro low[OF Tee_inv.teeing[where b = "b'" and pr = "Some (x # r)" and od = "Some (OrDone_forward u)"
                  and tpc = "Tee_select (Some 3) v 1 (Some 1) None" and outl = "outl" and outr = "outr"]])
              (use assms rdone select i6 in \<open>auto\<close>)
        qed
      next
        case i7
        have "s' = s\<lparr>pool := [Produce (Some 0) (x # r),
          Tee_go (Some 0) (Some 1) (Some 2) (Tee_range (Some 3)),
          Consume (Some 1) (outl @ [v]),
          Consume (Some 2) (outr),
          OrDone_go (Some 0) (Some 3) (OrDone_select)]\<rparr>
          \<or> s' = s\<lparr>heap := (heap s)(0 \<mapsto> \<lparr>buf = b', cap = k, closed = False\<rparr>), pool := [Produce (Some 0) (x # r),
          Tee_go (Some 0) (Some 1) (Some 2) (Tee_select (Some 3) v 1 (Some 1) None),
          Consume (Some 1) (outl),
          Consume (Some 2) (outr),
          OrDone_go (Some 0) (Some 3) (OrDone_forward u)]\<rparr>"
          using assms rdone select i7 by (auto simp: sched)
        then show ?thesis
        proof (elim disjE)
          assume "s' = s\<lparr>pool := [Produce (Some 0) (x # r),
          Tee_go (Some 0) (Some 1) (Some 2) (Tee_range (Some 3)),
          Consume (Some 1) (outl @ [v]),
          Consume (Some 2) (outr),
          OrDone_go (Some 0) (Some 3) (OrDone_select)]\<rparr>"
          then show ?thesis
            by (intro low[OF Tee_inv.teeing[where b = "u # b'" and pr = "Some (x # r)" and od = "Some (OrDone_select)"
                  and tpc = "Tee_range (Some 3)" and outl = "outl @ [v]" and outr = "outr"]])
              (use assms rdone select i7 in \<open>auto\<close>)
        next
          assume "s' = s\<lparr>heap := (heap s)(0 \<mapsto> \<lparr>buf = b', cap = k, closed = False\<rparr>), pool := [Produce (Some 0) (x # r),
          Tee_go (Some 0) (Some 1) (Some 2) (Tee_select (Some 3) v 1 (Some 1) None),
          Consume (Some 1) (outl),
          Consume (Some 2) (outr),
          OrDone_go (Some 0) (Some 3) (OrDone_forward u)]\<rparr>"
          then show ?thesis
            by (intro low[OF Tee_inv.teeing[where b = "b'" and pr = "Some (x # r)" and od = "Some (OrDone_forward u)"
                  and tpc = "Tee_select (Some 3) v 1 (Some 1) None" and outl = "outl" and outr = "outr"]])
              (use assms rdone select i7 in \<open>auto\<close>)
        qed
      qed
    next
      case forward
      consider (i0) "pr = None" "b = []"
        | (i1) u b' where "pr = None" "b = u # b'"
        | (i2) "pr = Some []" "b = []"
        | (i3) u b' where "pr = Some []" "b = u # b'"
        | (i4) x r where "pr = Some (x # r)" "b = []" "length b < k"
        | (i5) x r where "pr = Some (x # r)" "b = []" "\<not> length b < k"
        | (i6) x r u b' where "pr = Some (x # r)" "b = u # b'" "length b < k"
        | (i7) x r u b' where "pr = Some (x # r)" "b = u # b'" "\<not> length b < k"
        by (cases pr rule: pr_rank.cases; cases b; cases "length b < k") auto
      then show ?thesis
      proof cases
        case i0
        have s1: "s' = s\<lparr>pool := [Tee_go (Some 0) (Some 1) (Some 2) (Tee_range (Some 3)),
          Consume (Some 1) (outl @ [v]),
          Consume (Some 2) (outr),
          OrDone_go (Some 0) (Some 3) (OrDone_forward w)]\<rparr>"
          using assms rdone forward i0 by (auto simp: sched)
        show ?thesis
          by (intro low[OF Tee_inv.teeing[where b = "[]" and pr = "None" and od = "Some (OrDone_forward w)"
                  and tpc = "Tee_range (Some 3)" and outl = "outl @ [v]" and outr = "outr"]])
            (use s1 assms rdone forward i0 in \<open>auto\<close>)
      next
        case i1
        have s1: "s' = s\<lparr>pool := [Tee_go (Some 0) (Some 1) (Some 2) (Tee_range (Some 3)),
          Consume (Some 1) (outl @ [v]),
          Consume (Some 2) (outr),
          OrDone_go (Some 0) (Some 3) (OrDone_forward w)]\<rparr>"
          using assms rdone forward i1 by (auto simp: sched)
        show ?thesis
          by (intro low[OF Tee_inv.teeing[where b = "u # b'" and pr = "None" and od = "Some (OrDone_forward w)"
                  and tpc = "Tee_range (Some 3)" and outl = "outl @ [v]" and outr = "outr"]])
            (use s1 assms rdone forward i1 in \<open>auto\<close>)
      next
        case i2
        have "s' = s\<lparr>pool := [Produce (Some 0) ([]),
          Tee_go (Some 0) (Some 1) (Some 2) (Tee_range (Some 3)),
          Consume (Some 1) (outl @ [v]),
          Consume (Some 2) (outr),
          OrDone_go (Some 0) (Some 3) (OrDone_forward w)]\<rparr>
          \<or> s' = s\<lparr>heap := (heap s)(0 \<mapsto> \<lparr>buf = [], cap = k, closed = True\<rparr>), pool := [Tee_go (Some 0) (Some 1) (Some 2) (Tee_select (Some 3) v 1 (Some 1) None),
          Consume (Some 1) (outl),
          Consume (Some 2) (outr),
          OrDone_go (Some 0) (Some 3) (OrDone_forward w)]\<rparr>"
          using assms rdone forward i2 by (auto simp: sched)
        then show ?thesis
        proof (elim disjE)
          assume "s' = s\<lparr>pool := [Produce (Some 0) ([]),
          Tee_go (Some 0) (Some 1) (Some 2) (Tee_range (Some 3)),
          Consume (Some 1) (outl @ [v]),
          Consume (Some 2) (outr),
          OrDone_go (Some 0) (Some 3) (OrDone_forward w)]\<rparr>"
          then show ?thesis
            by (intro low[OF Tee_inv.teeing[where b = "[]" and pr = "Some ([])" and od = "Some (OrDone_forward w)"
                  and tpc = "Tee_range (Some 3)" and outl = "outl @ [v]" and outr = "outr"]])
              (use assms rdone forward i2 in \<open>auto\<close>)
        next
          assume "s' = s\<lparr>heap := (heap s)(0 \<mapsto> \<lparr>buf = [], cap = k, closed = True\<rparr>), pool := [Tee_go (Some 0) (Some 1) (Some 2) (Tee_select (Some 3) v 1 (Some 1) None),
          Consume (Some 1) (outl),
          Consume (Some 2) (outr),
          OrDone_go (Some 0) (Some 3) (OrDone_forward w)]\<rparr>"
          then show ?thesis
            by (intro low[OF Tee_inv.teeing[where b = "[]" and pr = "None" and od = "Some (OrDone_forward w)"
                  and tpc = "Tee_select (Some 3) v 1 (Some 1) None" and outl = "outl" and outr = "outr"]])
              (use assms rdone forward i2 in \<open>auto\<close>)
        qed
      next
        case i3
        have "s' = s\<lparr>pool := [Produce (Some 0) ([]),
          Tee_go (Some 0) (Some 1) (Some 2) (Tee_range (Some 3)),
          Consume (Some 1) (outl @ [v]),
          Consume (Some 2) (outr),
          OrDone_go (Some 0) (Some 3) (OrDone_forward w)]\<rparr>
          \<or> s' = s\<lparr>heap := (heap s)(0 \<mapsto> \<lparr>buf = u # b', cap = k, closed = True\<rparr>), pool := [Tee_go (Some 0) (Some 1) (Some 2) (Tee_select (Some 3) v 1 (Some 1) None),
          Consume (Some 1) (outl),
          Consume (Some 2) (outr),
          OrDone_go (Some 0) (Some 3) (OrDone_forward w)]\<rparr>"
          using assms rdone forward i3 by (auto simp: sched)
        then show ?thesis
        proof (elim disjE)
          assume "s' = s\<lparr>pool := [Produce (Some 0) ([]),
          Tee_go (Some 0) (Some 1) (Some 2) (Tee_range (Some 3)),
          Consume (Some 1) (outl @ [v]),
          Consume (Some 2) (outr),
          OrDone_go (Some 0) (Some 3) (OrDone_forward w)]\<rparr>"
          then show ?thesis
            by (intro low[OF Tee_inv.teeing[where b = "u # b'" and pr = "Some ([])" and od = "Some (OrDone_forward w)"
                  and tpc = "Tee_range (Some 3)" and outl = "outl @ [v]" and outr = "outr"]])
              (use assms rdone forward i3 in \<open>auto\<close>)
        next
          assume "s' = s\<lparr>heap := (heap s)(0 \<mapsto> \<lparr>buf = u # b', cap = k, closed = True\<rparr>), pool := [Tee_go (Some 0) (Some 1) (Some 2) (Tee_select (Some 3) v 1 (Some 1) None),
          Consume (Some 1) (outl),
          Consume (Some 2) (outr),
          OrDone_go (Some 0) (Some 3) (OrDone_forward w)]\<rparr>"
          then show ?thesis
            by (intro low[OF Tee_inv.teeing[where b = "u # b'" and pr = "None" and od = "Some (OrDone_forward w)"
                  and tpc = "Tee_select (Some 3) v 1 (Some 1) None" and outl = "outl" and outr = "outr"]])
              (use assms rdone forward i3 in \<open>auto\<close>)
        qed
      next
        case i4
        have "s' = s\<lparr>pool := [Produce (Some 0) (x # r),
          Tee_go (Some 0) (Some 1) (Some 2) (Tee_range (Some 3)),
          Consume (Some 1) (outl @ [v]),
          Consume (Some 2) (outr),
          OrDone_go (Some 0) (Some 3) (OrDone_forward w)]\<rparr>
          \<or> s' = s\<lparr>heap := (heap s)(0 \<mapsto> \<lparr>buf = [x], cap = k, closed = False\<rparr>), pool := [Produce (Some 0) (r),
          Tee_go (Some 0) (Some 1) (Some 2) (Tee_select (Some 3) v 1 (Some 1) None),
          Consume (Some 1) (outl),
          Consume (Some 2) (outr),
          OrDone_go (Some 0) (Some 3) (OrDone_forward w)]\<rparr>"
          using assms rdone forward i4 by (auto simp: sched)
        then show ?thesis
        proof (elim disjE)
          assume "s' = s\<lparr>pool := [Produce (Some 0) (x # r),
          Tee_go (Some 0) (Some 1) (Some 2) (Tee_range (Some 3)),
          Consume (Some 1) (outl @ [v]),
          Consume (Some 2) (outr),
          OrDone_go (Some 0) (Some 3) (OrDone_forward w)]\<rparr>"
          then show ?thesis
            by (intro low[OF Tee_inv.teeing[where b = "[]" and pr = "Some (x # r)" and od = "Some (OrDone_forward w)"
                  and tpc = "Tee_range (Some 3)" and outl = "outl @ [v]" and outr = "outr"]])
              (use assms rdone forward i4 in \<open>auto\<close>)
        next
          assume "s' = s\<lparr>heap := (heap s)(0 \<mapsto> \<lparr>buf = [x], cap = k, closed = False\<rparr>), pool := [Produce (Some 0) (r),
          Tee_go (Some 0) (Some 1) (Some 2) (Tee_select (Some 3) v 1 (Some 1) None),
          Consume (Some 1) (outl),
          Consume (Some 2) (outr),
          OrDone_go (Some 0) (Some 3) (OrDone_forward w)]\<rparr>"
          then show ?thesis
            by (intro low[OF Tee_inv.teeing[where b = "[x]" and pr = "Some (r)" and od = "Some (OrDone_forward w)"
                  and tpc = "Tee_select (Some 3) v 1 (Some 1) None" and outl = "outl" and outr = "outr"]])
              (use assms rdone forward i4 in \<open>auto\<close>)
        qed
      next
        case i5
        have s1: "s' = s\<lparr>pool := [Produce (Some 0) (x # r),
          Tee_go (Some 0) (Some 1) (Some 2) (Tee_range (Some 3)),
          Consume (Some 1) (outl @ [v]),
          Consume (Some 2) (outr),
          OrDone_go (Some 0) (Some 3) (OrDone_forward w)]\<rparr>"
          using assms rdone forward i5 by (auto simp: sched)
        show ?thesis
          by (intro low[OF Tee_inv.teeing[where b = "[]" and pr = "Some (x # r)" and od = "Some (OrDone_forward w)"
                  and tpc = "Tee_range (Some 3)" and outl = "outl @ [v]" and outr = "outr"]])
            (use s1 assms rdone forward i5 in \<open>auto\<close>)
      next
        case i6
        have "s' = s\<lparr>pool := [Produce (Some 0) (x # r),
          Tee_go (Some 0) (Some 1) (Some 2) (Tee_range (Some 3)),
          Consume (Some 1) (outl @ [v]),
          Consume (Some 2) (outr),
          OrDone_go (Some 0) (Some 3) (OrDone_forward w)]\<rparr>
          \<or> s' = s\<lparr>heap := (heap s)(0 \<mapsto> \<lparr>buf = u # b' @ [x], cap = k, closed = False\<rparr>), pool := [Produce (Some 0) (r),
          Tee_go (Some 0) (Some 1) (Some 2) (Tee_select (Some 3) v 1 (Some 1) None),
          Consume (Some 1) (outl),
          Consume (Some 2) (outr),
          OrDone_go (Some 0) (Some 3) (OrDone_forward w)]\<rparr>"
          using assms rdone forward i6 by (auto simp: sched)
        then show ?thesis
        proof (elim disjE)
          assume "s' = s\<lparr>pool := [Produce (Some 0) (x # r),
          Tee_go (Some 0) (Some 1) (Some 2) (Tee_range (Some 3)),
          Consume (Some 1) (outl @ [v]),
          Consume (Some 2) (outr),
          OrDone_go (Some 0) (Some 3) (OrDone_forward w)]\<rparr>"
          then show ?thesis
            by (intro low[OF Tee_inv.teeing[where b = "u # b'" and pr = "Some (x # r)" and od = "Some (OrDone_forward w)"
                  and tpc = "Tee_range (Some 3)" and outl = "outl @ [v]" and outr = "outr"]])
              (use assms rdone forward i6 in \<open>auto\<close>)
        next
          assume "s' = s\<lparr>heap := (heap s)(0 \<mapsto> \<lparr>buf = u # b' @ [x], cap = k, closed = False\<rparr>), pool := [Produce (Some 0) (r),
          Tee_go (Some 0) (Some 1) (Some 2) (Tee_select (Some 3) v 1 (Some 1) None),
          Consume (Some 1) (outl),
          Consume (Some 2) (outr),
          OrDone_go (Some 0) (Some 3) (OrDone_forward w)]\<rparr>"
          then show ?thesis
            by (intro low[OF Tee_inv.teeing[where b = "u # b' @ [x]" and pr = "Some (r)" and od = "Some (OrDone_forward w)"
                  and tpc = "Tee_select (Some 3) v 1 (Some 1) None" and outl = "outl" and outr = "outr"]])
              (use assms rdone forward i6 in \<open>auto\<close>)
        qed
      next
        case i7
        have s1: "s' = s\<lparr>pool := [Produce (Some 0) (x # r),
          Tee_go (Some 0) (Some 1) (Some 2) (Tee_range (Some 3)),
          Consume (Some 1) (outl @ [v]),
          Consume (Some 2) (outr),
          OrDone_go (Some 0) (Some 3) (OrDone_forward w)]\<rparr>"
          using assms rdone forward i7 by (auto simp: sched)
        show ?thesis
          by (intro low[OF Tee_inv.teeing[where b = "u # b'" and pr = "Some (x # r)" and od = "Some (OrDone_forward w)"
                  and tpc = "Tee_range (Some 3)" and outl = "outl @ [v]" and outr = "outr"]])
            (use s1 assms rdone forward i7 in \<open>auto\<close>)
      qed
    next
      case return
      consider (ia) "pr = None" "b = []"
        using assms(7,8) return by auto
      then show ?thesis
      proof cases
        case ia
        have "s' = s\<lparr>pool := [Tee_go (Some 0) (Some 1) (Some 2) (Tee_range (Some 3)),
          Consume (Some 1) (outl @ [v]),
          Consume (Some 2) (outr),
          OrDone_go (Some 0) (Some 3) (OrDone_return)]\<rparr>
          \<or> s' = s\<lparr>heap := (heap s)(3 \<mapsto> \<lparr>buf = [], cap = 0, closed = True\<rparr>), pool := [Tee_go (Some 0) (Some 1) (Some 2) (Tee_select (Some 3) v 1 (Some 1) None),
          Consume (Some 1) (outl),
          Consume (Some 2) (outr)]\<rparr>"
          using assms rdone return ia by (auto simp: sched)
        then show ?thesis
        proof (elim disjE)
          assume "s' = s\<lparr>pool := [Tee_go (Some 0) (Some 1) (Some 2) (Tee_range (Some 3)),
          Consume (Some 1) (outl @ [v]),
          Consume (Some 2) (outr),
          OrDone_go (Some 0) (Some 3) (OrDone_return)]\<rparr>"
          then show ?thesis
            by (intro low[OF Tee_inv.teeing[where b = "[]" and pr = "None" and od = "Some (OrDone_return)"
                  and tpc = "Tee_range (Some 3)" and outl = "outl @ [v]" and outr = "outr"]])
              (use assms rdone return ia in \<open>auto\<close>)
        next
          assume "s' = s\<lparr>heap := (heap s)(3 \<mapsto> \<lparr>buf = [], cap = 0, closed = True\<rparr>), pool := [Tee_go (Some 0) (Some 1) (Some 2) (Tee_select (Some 3) v 1 (Some 1) None),
          Consume (Some 1) (outl),
          Consume (Some 2) (outr)]\<rparr>"
          then show ?thesis
            by (intro low[OF Tee_inv.teeing[where b = "[]" and pr = "None" and od = "None"
                  and tpc = "Tee_select (Some 3) v 1 (Some 1) None" and outl = "outl" and outr = "outr"]])
              (use assms rdone return ia in \<open>auto\<close>)
        qed
      qed
    qed
  qed
qed

lemma Tee_inv_step_calling:
  assumes "\<not> cancelled s" "\<not> panicked s"
    "heap s 0 = Some \<lparr>buf = b, cap = k, closed = (pr = None)\<rparr>"
    "heap s 1 = Some \<lparr>buf = [], cap = 0, closed = False\<rparr>"
    "heap s 2 = Some \<lparr>buf = [], cap = 0, closed = False\<rparr>"
    "fresh s = 3"
    "pool s = pr_pool pr @ [Tee_go (Some 0) (Some 1) (Some 2) Tee_call,
               Consume (Some 1) [], Consume (Some 2) []]"
    "b @ pr_rest pr = xs"
    "s' \<in> set (succs s)"
  shows "\<exists>n'<pr_rank pr + 5 * length b + 10. Tee_inv k xs n' s'"
proof -
  note low = lowerI[where I = "Tee_inv k xs" and s' = s' and n = "pr_rank pr + 5 * length b + 10"]
  consider (i0) "pr = None" "b = []"
    | (i1) u b' where "pr = None" "b = u # b'"
    | (i2) "pr = Some []" "b = []"
    | (i3) u b' where "pr = Some []" "b = u # b'"
    | (i4) x r where "pr = Some (x # r)" "b = []" "length b < k"
    | (i5) x r where "pr = Some (x # r)" "b = []" "\<not> length b < k"
    | (i6) x r u b' where "pr = Some (x # r)" "b = u # b'" "length b < k"
    | (i7) x r u b' where "pr = Some (x # r)" "b = u # b'" "\<not> length b < k"
    by (cases pr rule: pr_rank.cases; cases b; cases "length b < k") auto
  then show ?thesis
  proof cases
    case i0
    have s1: "s' = s\<lparr>heap := (heap s)(3 \<mapsto> \<lparr>buf = [], cap = 0, closed = False\<rparr>), fresh := 4,
          pool := [Tee_go (Some 0) (Some 1) (Some 2) (Tee_range (Some 3)),
          Consume (Some 1) ([]),
          Consume (Some 2) ([]),
          OrDone_go (Some 0) (Some 3) (OrDone_select)]\<rparr>"
      using assms i0 by (auto simp: sched OrDone_def make_chan_def go_def)
    show ?thesis
      by (intro low[OF Tee_inv.teeing[where b = "[]" and pr = "None" and od = "Some OrDone_select"
                  and tpc = "Tee_range (Some 3)" and outl = "[]" and outr = "[]"]])
        (use s1 assms i0 in \<open>auto\<close>)
  next
    case i1
    have s1: "s' = s\<lparr>heap := (heap s)(3 \<mapsto> \<lparr>buf = [], cap = 0, closed = False\<rparr>), fresh := 4,
          pool := [Tee_go (Some 0) (Some 1) (Some 2) (Tee_range (Some 3)),
          Consume (Some 1) ([]),
          Consume (Some 2) ([]),
          OrDone_go (Some 0) (Some 3) (OrDone_select)]\<rparr>"
      using assms i1 by (auto simp: sched OrDone_def make_chan_def go_def)
    show ?thesis
      by (intro low[OF Tee_inv.teeing[where b = "u # b'" and pr = "None" and od = "Some OrDone_select"
                  and tpc = "Tee_range (Some 3)" and outl = "[]" and outr = "[]"]])
        (use s1 assms i1 in \<open>auto\<close>)
  next
    case i2
    have "s' = s\<lparr>heap := (heap s)(3 \<mapsto> \<lparr>buf = [], cap = 0, closed = False\<rparr>), fresh := 4,
          pool := [Produce (Some 0) ([]),
          Tee_go (Some 0) (Some 1) (Some 2) (Tee_range (Some 3)),
          Consume (Some 1) ([]),
          Consume (Some 2) ([]),
          OrDone_go (Some 0) (Some 3) (OrDone_select)]\<rparr>
      \<or> s' = s\<lparr>heap := (heap s)(0 \<mapsto> \<lparr>buf = [], cap = k, closed = True\<rparr>), pool := [Tee_go (Some 0) (Some 1) (Some 2) Tee_call, Consume (Some 1) [], Consume (Some 2) []]\<rparr>"
      using assms i2 by (auto simp: sched OrDone_def make_chan_def go_def)
    then show ?thesis
    proof (elim disjE)
      assume "s' = s\<lparr>heap := (heap s)(3 \<mapsto> \<lparr>buf = [], cap = 0, closed = False\<rparr>), fresh := 4,
          pool := [Produce (Some 0) ([]),
          Tee_go (Some 0) (Some 1) (Some 2) (Tee_range (Some 3)),
          Consume (Some 1) ([]),
          Consume (Some 2) ([]),
          OrDone_go (Some 0) (Some 3) (OrDone_select)]\<rparr>"
      then show ?thesis
        by (intro low[OF Tee_inv.teeing[where b = "[]" and pr = "Some ([])" and od = "Some OrDone_select"
                  and tpc = "Tee_range (Some 3)" and outl = "[]" and outr = "[]"]])
          (use assms i2 in \<open>auto\<close>)
    next
      assume "s' = s\<lparr>heap := (heap s)(0 \<mapsto> \<lparr>buf = [], cap = k, closed = True\<rparr>), pool := [Tee_go (Some 0) (Some 1) (Some 2) Tee_call, Consume (Some 1) [], Consume (Some 2) []]\<rparr>"
      then show ?thesis
        by (intro low[OF Tee_inv.calling[where b = "[]" and pr = "None"]])
          (use assms i2 in \<open>auto\<close>)
    qed
  next
    case i3
    have "s' = s\<lparr>heap := (heap s)(3 \<mapsto> \<lparr>buf = [], cap = 0, closed = False\<rparr>), fresh := 4,
          pool := [Produce (Some 0) ([]),
          Tee_go (Some 0) (Some 1) (Some 2) (Tee_range (Some 3)),
          Consume (Some 1) ([]),
          Consume (Some 2) ([]),
          OrDone_go (Some 0) (Some 3) (OrDone_select)]\<rparr>
      \<or> s' = s\<lparr>heap := (heap s)(0 \<mapsto> \<lparr>buf = u # b', cap = k, closed = True\<rparr>), pool := [Tee_go (Some 0) (Some 1) (Some 2) Tee_call, Consume (Some 1) [], Consume (Some 2) []]\<rparr>"
      using assms i3 by (auto simp: sched OrDone_def make_chan_def go_def)
    then show ?thesis
    proof (elim disjE)
      assume "s' = s\<lparr>heap := (heap s)(3 \<mapsto> \<lparr>buf = [], cap = 0, closed = False\<rparr>), fresh := 4,
          pool := [Produce (Some 0) ([]),
          Tee_go (Some 0) (Some 1) (Some 2) (Tee_range (Some 3)),
          Consume (Some 1) ([]),
          Consume (Some 2) ([]),
          OrDone_go (Some 0) (Some 3) (OrDone_select)]\<rparr>"
      then show ?thesis
        by (intro low[OF Tee_inv.teeing[where b = "u # b'" and pr = "Some ([])" and od = "Some OrDone_select"
                  and tpc = "Tee_range (Some 3)" and outl = "[]" and outr = "[]"]])
          (use assms i3 in \<open>auto\<close>)
    next
      assume "s' = s\<lparr>heap := (heap s)(0 \<mapsto> \<lparr>buf = u # b', cap = k, closed = True\<rparr>), pool := [Tee_go (Some 0) (Some 1) (Some 2) Tee_call, Consume (Some 1) [], Consume (Some 2) []]\<rparr>"
      then show ?thesis
        by (intro low[OF Tee_inv.calling[where b = "u # b'" and pr = "None"]])
          (use assms i3 in \<open>auto\<close>)
    qed
  next
    case i4
    have "s' = s\<lparr>heap := (heap s)(3 \<mapsto> \<lparr>buf = [], cap = 0, closed = False\<rparr>), fresh := 4,
          pool := [Produce (Some 0) (x # r),
          Tee_go (Some 0) (Some 1) (Some 2) (Tee_range (Some 3)),
          Consume (Some 1) ([]),
          Consume (Some 2) ([]),
          OrDone_go (Some 0) (Some 3) (OrDone_select)]\<rparr>
      \<or> s' = s\<lparr>heap := (heap s)(0 \<mapsto> \<lparr>buf = [x], cap = k, closed = False\<rparr>), pool := [Produce (Some 0) (r), Tee_go (Some 0) (Some 1) (Some 2) Tee_call, Consume (Some 1) [], Consume (Some 2) []]\<rparr>"
      using assms i4 by (auto simp: sched OrDone_def make_chan_def go_def)
    then show ?thesis
    proof (elim disjE)
      assume "s' = s\<lparr>heap := (heap s)(3 \<mapsto> \<lparr>buf = [], cap = 0, closed = False\<rparr>), fresh := 4,
          pool := [Produce (Some 0) (x # r),
          Tee_go (Some 0) (Some 1) (Some 2) (Tee_range (Some 3)),
          Consume (Some 1) ([]),
          Consume (Some 2) ([]),
          OrDone_go (Some 0) (Some 3) (OrDone_select)]\<rparr>"
      then show ?thesis
        by (intro low[OF Tee_inv.teeing[where b = "[]" and pr = "Some (x # r)" and od = "Some OrDone_select"
                  and tpc = "Tee_range (Some 3)" and outl = "[]" and outr = "[]"]])
          (use assms i4 in \<open>auto\<close>)
    next
      assume "s' = s\<lparr>heap := (heap s)(0 \<mapsto> \<lparr>buf = [x], cap = k, closed = False\<rparr>), pool := [Produce (Some 0) (r), Tee_go (Some 0) (Some 1) (Some 2) Tee_call, Consume (Some 1) [], Consume (Some 2) []]\<rparr>"
      then show ?thesis
        by (intro low[OF Tee_inv.calling[where b = "[x]" and pr = "Some (r)"]])
          (use assms i4 in \<open>auto\<close>)
    qed
  next
    case i5
    have s1: "s' = s\<lparr>heap := (heap s)(3 \<mapsto> \<lparr>buf = [], cap = 0, closed = False\<rparr>), fresh := 4,
          pool := [Produce (Some 0) (x # r),
          Tee_go (Some 0) (Some 1) (Some 2) (Tee_range (Some 3)),
          Consume (Some 1) ([]),
          Consume (Some 2) ([]),
          OrDone_go (Some 0) (Some 3) (OrDone_select)]\<rparr>"
      using assms i5 by (auto simp: sched OrDone_def make_chan_def go_def)
    show ?thesis
      by (intro low[OF Tee_inv.teeing[where b = "[]" and pr = "Some (x # r)" and od = "Some OrDone_select"
                  and tpc = "Tee_range (Some 3)" and outl = "[]" and outr = "[]"]])
        (use s1 assms i5 in \<open>auto\<close>)
  next
    case i6
    have "s' = s\<lparr>heap := (heap s)(3 \<mapsto> \<lparr>buf = [], cap = 0, closed = False\<rparr>), fresh := 4,
          pool := [Produce (Some 0) (x # r),
          Tee_go (Some 0) (Some 1) (Some 2) (Tee_range (Some 3)),
          Consume (Some 1) ([]),
          Consume (Some 2) ([]),
          OrDone_go (Some 0) (Some 3) (OrDone_select)]\<rparr>
      \<or> s' = s\<lparr>heap := (heap s)(0 \<mapsto> \<lparr>buf = u # b' @ [x], cap = k, closed = False\<rparr>), pool := [Produce (Some 0) (r), Tee_go (Some 0) (Some 1) (Some 2) Tee_call, Consume (Some 1) [], Consume (Some 2) []]\<rparr>"
      using assms i6 by (auto simp: sched OrDone_def make_chan_def go_def)
    then show ?thesis
    proof (elim disjE)
      assume "s' = s\<lparr>heap := (heap s)(3 \<mapsto> \<lparr>buf = [], cap = 0, closed = False\<rparr>), fresh := 4,
          pool := [Produce (Some 0) (x # r),
          Tee_go (Some 0) (Some 1) (Some 2) (Tee_range (Some 3)),
          Consume (Some 1) ([]),
          Consume (Some 2) ([]),
          OrDone_go (Some 0) (Some 3) (OrDone_select)]\<rparr>"
      then show ?thesis
        by (intro low[OF Tee_inv.teeing[where b = "u # b'" and pr = "Some (x # r)" and od = "Some OrDone_select"
                  and tpc = "Tee_range (Some 3)" and outl = "[]" and outr = "[]"]])
          (use assms i6 in \<open>auto\<close>)
    next
      assume "s' = s\<lparr>heap := (heap s)(0 \<mapsto> \<lparr>buf = u # b' @ [x], cap = k, closed = False\<rparr>), pool := [Produce (Some 0) (r), Tee_go (Some 0) (Some 1) (Some 2) Tee_call, Consume (Some 1) [], Consume (Some 2) []]\<rparr>"
      then show ?thesis
        by (intro low[OF Tee_inv.calling[where b = "u # b' @ [x]" and pr = "Some (r)"]])
          (use assms i6 in \<open>auto\<close>)
    qed
  next
    case i7
    have s1: "s' = s\<lparr>heap := (heap s)(3 \<mapsto> \<lparr>buf = [], cap = 0, closed = False\<rparr>), fresh := 4,
          pool := [Produce (Some 0) (x # r),
          Tee_go (Some 0) (Some 1) (Some 2) (Tee_range (Some 3)),
          Consume (Some 1) ([]),
          Consume (Some 2) ([]),
          OrDone_go (Some 0) (Some 3) (OrDone_select)]\<rparr>"
      using assms i7 by (auto simp: sched OrDone_def make_chan_def go_def)
    show ?thesis
      by (intro low[OF Tee_inv.teeing[where b = "u # b'" and pr = "Some (x # r)" and od = "Some OrDone_select"
                  and tpc = "Tee_range (Some 3)" and outl = "[]" and outr = "[]"]])
        (use s1 assms i7 in \<open>auto\<close>)
  qed
qed

lemma Tee_inv_step_closing:
  assumes "\<not> cancelled s" "\<not> panicked s"
    "heap s 1 = Some \<lparr>buf = [], cap = 0, closed = (tpc = None)\<rparr>"
    "heap s 2 = Some \<lparr>buf = [], cap = 0, closed = (tpc \<noteq> Some Tee_close_right)\<rparr>"
    "tpc = None \<or> tpc = Some Tee_close_right \<or> tpc = Some Tee_close_left"
    "l \<Longrightarrow> tpc = None" "r \<Longrightarrow> tpc \<noteq> Some Tee_close_right"
    "pool s = tee_closes tpc @ [reader (Some 1) xs l, reader (Some 2) xs r]"
    "s' \<in> set (succs s)"
  shows "\<exists>n'<length (tee_closes tpc) + (if tpc = Some Tee_close_right then 1 else 0)
                 + (if l then 0 else 1) + (if r then 0 else 1). Tee_inv k xs n' s'"
proof -
  note low = lowerI[where I = "Tee_inv k xs" and s' = s'
      and n = "length (tee_closes tpc) + (if tpc = Some Tee_close_right then 1 else 0)
                 + (if l then 0 else 1) + (if r then 0 else 1)"]
  consider (c0) "tpc = Some Tee_close_right" "l = False" "r = False"
    | (c1) "tpc = Some Tee_close_left" "l = False" "r = False"
    | (c2) "tpc = Some Tee_close_left" "l = False" "r = True"
    | (c3) "tpc = None" "l = False" "r = False"
    | (c4) "tpc = None" "l = False" "r = True"
    | (c5) "tpc = None" "l = True" "r = False"
    | (c6) "tpc = None" "l = True" "r = True"
    using assms(5,6,7) by (cases l; cases r) auto
  then show ?thesis
  proof cases
    case c0
    have s1: "s' = s\<lparr>heap := (heap s)(2 \<mapsto> \<lparr>buf = [], cap = 0, closed = True\<rparr>), pool := [Tee_go (Some 0) (Some 1) (Some 2) Tee_close_left, Consume (Some 1) xs, Consume (Some 2) xs]\<rparr>"
      using assms c0 by (auto simp: sched)
    show ?thesis
      by (intro low[OF Tee_inv.closing[where tpc = "Some Tee_close_left" and l = False and r = False]])
        (use s1 assms c0 in \<open>auto\<close>)
  next
    case c1
    have "s' = s\<lparr>heap := (heap s)(1 \<mapsto> \<lparr>buf = [], cap = 0, closed = True\<rparr>), pool := [Consume (Some 1) xs, Consume (Some 2) xs]\<rparr>
      \<or> s' = s\<lparr>pool := [Tee_go (Some 0) (Some 1) (Some 2) Tee_close_left, Consume (Some 1) xs, Consumed (Some 2) xs]\<rparr>"
      using assms c1 by (auto simp: sched)
    then show ?thesis
    proof (elim disjE)
      assume "s' = s\<lparr>heap := (heap s)(1 \<mapsto> \<lparr>buf = [], cap = 0, closed = True\<rparr>), pool := [Consume (Some 1) xs, Consume (Some 2) xs]\<rparr>"
      then show ?thesis
        by (intro low[OF Tee_inv.closing[where tpc = "None" and l = False and r = False]])
          (use assms c1 in \<open>auto\<close>)
    next
      assume "s' = s\<lparr>pool := [Tee_go (Some 0) (Some 1) (Some 2) Tee_close_left, Consume (Some 1) xs, Consumed (Some 2) xs]\<rparr>"
      then show ?thesis
        by (intro low[OF Tee_inv.closing[where tpc = "Some Tee_close_left" and l = False and r = True]])
          (use assms c1 in \<open>auto\<close>)
    qed
  next
    case c2
    have s1: "s' = s\<lparr>heap := (heap s)(1 \<mapsto> \<lparr>buf = [], cap = 0, closed = True\<rparr>), pool := [Consume (Some 1) xs, Consumed (Some 2) xs]\<rparr>"
      using assms c2 by (auto simp: sched)
    show ?thesis
      by (intro low[OF Tee_inv.closing[where tpc = "None" and l = False and r = True]])
        (use s1 assms c2 in \<open>auto\<close>)
  next
    case c3
    have "s' = s\<lparr>pool := [Consumed (Some 1) xs, Consume (Some 2) xs]\<rparr>
      \<or> s' = s\<lparr>pool := [Consume (Some 1) xs, Consumed (Some 2) xs]\<rparr>"
      using assms c3 by (auto simp: sched)
    then show ?thesis
    proof (elim disjE)
      assume "s' = s\<lparr>pool := [Consumed (Some 1) xs, Consume (Some 2) xs]\<rparr>"
      then show ?thesis
        by (intro low[OF Tee_inv.closing[where tpc = "None" and l = True and r = False]])
          (use assms c3 in \<open>auto\<close>)
    next
      assume "s' = s\<lparr>pool := [Consume (Some 1) xs, Consumed (Some 2) xs]\<rparr>"
      then show ?thesis
        by (intro low[OF Tee_inv.closing[where tpc = "None" and l = False and r = True]])
          (use assms c3 in \<open>auto\<close>)
    qed
  next
    case c4
    have s1: "s' = s\<lparr>pool := [Consumed (Some 1) xs, Consumed (Some 2) xs]\<rparr>"
      using assms c4 by (auto simp: sched)
    show ?thesis
      by (intro low[OF Tee_inv.closing[where tpc = "None" and l = True and r = True]])
        (use s1 assms c4 in \<open>auto\<close>)
  next
    case c5
    have s1: "s' = s\<lparr>pool := [Consumed (Some 1) xs, Consumed (Some 2) xs]\<rparr>"
      using assms c5 by (auto simp: sched)
    show ?thesis
      by (intro low[OF Tee_inv.closing[where tpc = "None" and l = True and r = True]])
        (use s1 assms c5 in \<open>auto\<close>)
  next
    case c6
    have False using assms c6 by (auto simp: sched)
    then show ?thesis ..
  qed
qed

lemma Tee_inv_step:
  assumes "Tee_inv k xs n s" "s' \<in> set (succs s)"
  shows "\<exists>n'<n. Tee_inv k xs n' s'"
  using assms(1)
proof (cases rule: Tee_inv.cases)
  case (calling b pr)
  then show ?thesis using Tee_inv_step_calling[of s b k pr xs s'] assms(2) by simp
next
  case (teeing b pr od tpc outl outr)
  then show ?thesis using Tee_inv_step_teeing[of s b k pr od tpc outl outr xs s'] assms(2) by simp
next
  case (closing tpc l r)
  then show ?thesis using Tee_inv_step_closing[of s tpc l r xs s' k] assms(2) by simp
qed

lemma Tee_inv_stuck:
  assumes "Tee_inv k xs n s" "succs s = []"
  shows "delivered (Some 1) xs s \<and> delivered (Some 2) xs s"
  using assms(1)
proof (cases rule: Tee_inv.cases)
  case (calling b pr)
  then have "succs s \<noteq> []"
    by (cases pr) (simp_all add: sched OrDone_def make_chan_def go_def)
  then show ?thesis using assms(2) by simp
next
  case (teeing b pr od tpc outl outr)
  have "succs s \<noteq> []"
    using teeing
    by (cases od rule: od_rank.cases; cases tpc; cases pr rule: pr_rank.cases; cases b;
        cases "length b < k") (auto simp: sched)
  then show ?thesis using assms(2) by simp
next
  case (closing tpc l r)
  show ?thesis
  proof (cases "tpc = None \<and> l \<and> r")
    case True
    then show ?thesis using closing by (simp add: delivered_def)
  next
    case False
    then have "succs s \<noteq> []"
      using closing by (cases l; cases r) (auto simp: sched)
    then show ?thesis using assms(2) by simp
  qed
qed

lemma Tee_program_eq:
  "Tee_program k xs =
     ((Some 1, Some 2),
      \<lparr>heap = [0 \<mapsto> \<lparr>buf = [], cap = k, closed = False\<rparr>,
               1 \<mapsto> \<lparr>buf = [], cap = 0, closed = False\<rparr>,
               2 \<mapsto> \<lparr>buf = [], cap = 0, closed = False\<rparr>],
       fresh = 3,
       pool = [Produce (Some 0) xs, Tee_go (Some 0) (Some 1) (Some 2) Tee_call,
               Consume (Some 1) [], Consume (Some 2) []],
       cancelled = False, wgs = [], calls = [], panicked = False\<rparr>)"
  by (simp add: Tee_program_def Tee_def feed_def allocs numeral_3_eq_3 numeral_2_eq_2)

lemma Tee_inv_start: "\<exists>n. Tee_inv k xs n (snd (Tee_program k xs))"
  by (rule exI, rule Tee_inv.calling[where b = "[]" and pr = "Some xs"])
    (simp_all add: Tee_program_eq)

text \<open>
  C3: the input of \<open>Tee\<close> is a channel of any capacity \<open>k\<close> whose producer sends \<open>xs\<close> and
  closes it while \<open>Tee\<close> runs; the context is never cancelled and both outputs are read.
  Every run ends, whatever the order in which the goroutines take their steps, and either
  caller has then received exactly \<open>xs\<close>, every value once and in the order of the input,
  and seen its stream closed.
\<close>

theorem Tee_copies:
  "inevitably (\<lambda>s. delivered (fst (fst (Tee_program k xs))) xs s \<and>
                    delivered (snd (fst (Tee_program k xs))) xs s)
     (snd (Tee_program k xs))"
proof -
  obtain n0 where "Tee_inv k xs n0 (snd (Tee_program k xs))"
    using Tee_inv_start by blast
  then have "inevitably (\<lambda>s. delivered (Some 1) xs s \<and> delivered (Some 2) xs s)
     (snd (Tee_program k xs))"
    by (rule inevitably_ranked[where I = "Tee_inv k xs", OF _ Tee_inv_step Tee_inv_stuck])
  then show ?thesis by (simp add: Tee_program_eq)
qed

theorem Tee_copies_1_2_3:
  "inevitably (\<lambda>s. delivered (Some 1) [Val 1, Val 2, Val (3::int)] s \<and>
                    delivered (Some 2) [Val 1, Val 2, Val 3] s)
     (snd (Tee_program 0 [Val 1, Val 2, Val (3::int)]))"
  using Tee_copies[of 0 "[Val 1, Val 2, Val (3::int)]"] by (simp add: Tee_program_eq)


end
